(* ===== verification/Dago_Prelude.thy ===== *)
theory Dago_Prelude
  imports Main "HOL-Library.AList" "HOL-Library.List_Lexorder" "HOL-Library.Char_ord"
    "HOL-Library.Word" "HOL-Library.Multiset" "HOL-Library.Product_Lexorder"
begin

text \<open>
  Shared vocabulary of the development: Go errors as a datatype, fallible results as a sum,
  Go maps as association lists with distinct keys, and the generic lemmas on them.

  A Go map is an association list whose keys are distinct. The order of the list stands for
  the order in which one \<^verbatim>\<open>range\<close> loop visits the entries, which Go leaves unspecified: a
  statement about every list with distinct keys holds for every iteration order. Two lists
  are the same map when \<^const>\<open>map_of\<close> gives the same function.
\<close>

section \<open>Errors and results\<close>

text \<open>
  The sentinel errors of the modelled packages, by their Go names. \<open>Errorf\<close> is an ad-hoc
  \<^verbatim>\<open>fmt.Errorf\<close> without a wrapped error (its text is the constant part of the format),
  \<open>Wrapf\<close> is \<^verbatim>\<open>fmt.Errorf\<close> with a \<^verbatim>\<open>%w\<close> operand and \<open>External\<close> is an error made by
  code outside the model (a node, a reducer, a store). \<open>NilCall\<close> is the panic of a call or
  dereference of nil, and \<open>Diverges\<close> the outcome of a loop that never returns.
\<close>

datatype gerr =
    ErrEmpty | ErrMultipleOverwrites | ErrInvalidSnapshotFrequency | ErrInvalidCheckpointKind
  | ErrInvalidStateUpdate | ErrUnknownStateField
  | ErrRecursionLimit | ErrUnknownNode
  | ErrInvalidConfig | ErrUnsupportedPrune
  | ErrMalformedPayload | ErrUnsupportedEncoding | ErrUnsupportedType
  | ErrInvalidNamespace
  | ErrRemoveUnknownMessage
  | ErrDuplicateMiddleware | ErrDuplicateTool | ErrUnknownTool | ErrInvalidModelOutput
  | ErrConflictingUpdate | ErrStructuredValidation | ErrInvalidDefinition | ErrInvalidArguments
  | Canceled | DeadlineExceeded
  | NilCall
  | Diverges
  | External nat
  | Errorf string
  | Wrapf string gerr

type_synonym 'a res = "gerr + 'a"

text \<open>\<^verbatim>\<open>errors.Is\<close>: follow the chain of wrapped errors.\<close>

fun errors_is :: "gerr \<Rightarrow> gerr \<Rightarrow> bool" where
  "errors_is (Wrapf m e) t = (Wrapf m e = t \<or> errors_is e t)"
| "errors_is e t = (e = t)"

definition res_bind :: "'a res \<Rightarrow> ('a \<Rightarrow> 'b res) \<Rightarrow> 'b res" where
  "res_bind r f = (case r of Inl e \<Rightarrow> Inl e | Inr x \<Rightarrow> f x)"

definition res_wrap :: "string \<Rightarrow> 'a res \<Rightarrow> 'a res" where
  "res_wrap m r = (case r of Inl e \<Rightarrow> Inl (Wrapf m e) | Inr x \<Rightarrow> Inr x)"

fun fold_res :: "('a \<Rightarrow> 's \<Rightarrow> 's res) \<Rightarrow> 'a list \<Rightarrow> 's \<Rightarrow> 's res" where
  "fold_res f [] s = Inr s"
| "fold_res f (x # xs) s = res_bind (f x s) (fold_res f xs)"

fun map_res :: "('a \<Rightarrow> 'b res) \<Rightarrow> 'a list \<Rightarrow> 'b list res" where
  "map_res f [] = Inr []"
| "map_res f (x # xs) = res_bind (f x) (\<lambda>y. res_bind (map_res f xs) (\<lambda>ys. Inr (y # ys)))"

text \<open>A call through a Go function value, which panics when the value is nil.\<close>

definition call1 :: "('a \<Rightarrow> 'b) option \<Rightarrow> 'a \<Rightarrow> 'b res" where
  "call1 f x = (case f of None \<Rightarrow> Inl NilCall | Some g \<Rightarrow> Inr (g x))"

named_theorems res_simps \<open>rewriting of fallible results\<close>

lemma res_bind_Inl [simp]: "res_bind (Inl e) f = Inl e"
  by (simp add: res_bind_def)

lemma res_bind_Inr [simp]: "res_bind (Inr x) f = f x"
  by (simp add: res_bind_def)

lemma res_bind_eq_Inr [res_simps]: "res_bind r f = Inr y \<longleftrightarrow> (\<exists>x. r = Inr x \<and> f x = Inr y)"
  by (cases r) auto

lemma res_bind_eq_Inl [res_simps]:
  "res_bind r f = Inl e \<longleftrightarrow> r = Inl e \<or> (\<exists>x. r = Inr x \<and> f x = Inl e)"
  by (cases r) auto

lemma res_bind_cong [fundef_cong]:
  "r = r' \<Longrightarrow> (\<And>x. r' = Inr x \<Longrightarrow> f x = f' x) \<Longrightarrow> res_bind r f = res_bind r' f'"
  by (cases r') auto

lemma res_wrap_simps [simp]: "res_wrap m (Inl e) = Inl (Wrapf m e)" "res_wrap m (Inr x) = Inr x"
  by (simp_all add: res_wrap_def)

lemma res_wrap_eq_Inr [res_simps]: "res_wrap m r = Inr x \<longleftrightarrow> r = Inr x"
  by (cases r) auto

lemma call1_simps [simp]: "call1 None x = Inl NilCall" "call1 (Some g) x = Inr (g x)"
  by (simp_all add: call1_def)

lemma fold_res_append:
  "fold_res f (xs @ ys) s = res_bind (fold_res f xs s) (fold_res f ys)"
proof (induction xs arbitrary: s)
  case Nil
  show ?case by simp
next
  case (Cons x xs)
  then show ?case by (cases "f x s") auto
qed

lemma fold_res_invariant:
  assumes "fold_res f xs s = Inr t" and "P s"
    and "\<And>x a b. x \<in> set xs \<Longrightarrow> P a \<Longrightarrow> f x a = Inr b \<Longrightarrow> P b"
  shows "P t"
  using assms
proof (induction xs arbitrary: s)
  case Nil
  then show ?case by simp
next
  case (Cons x xs)
  then obtain u where u: "f x s = Inr u" "fold_res f xs u = Inr t"
    by (auto simp: res_simps)
  from Cons.prems u(1) have "P u" by (meson list.set_intros(1))
  with u(2) Cons.prems(3) show ?case by (intro Cons.IH) (auto intro: Cons.prems(3))
qed

lemma map_res_Inr_conv: "map_res f xs = Inr ys \<longleftrightarrow> list_all2 (\<lambda>x y. f x = Inr y) xs ys"
  by (induction xs arbitrary: ys) (auto simp: res_simps list_all2_Cons1)

lemma map_res_total: "(\<And>x. x \<in> set xs \<Longrightarrow> f x = Inr (g x)) \<Longrightarrow> map_res f xs = Inr (map g xs)"
  by (induction xs) auto

lemma map_res_append:
  "map_res f (xs @ ys) = res_bind (map_res f xs) (\<lambda>us. res_bind (map_res f ys) (\<lambda>vs. Inr (us @ vs)))"
proof (induction xs)
  case Nil
  show ?case by (cases "map_res f ys") auto
next
  case (Cons x xs)
  then show ?case by (cases "f x"; cases "map_res f xs"; cases "map_res f ys") auto
qed

lemma map_res_map: "map_res f (map g xs) = map_res (\<lambda>x. f (g x)) xs"
  by (induction xs) auto

lemma fold_batches_concat: "fold (\<lambda>write st. fold f write st) writes s = fold f (concat writes) s"
  by (induction writes arbitrary: s) auto

section \<open>Go maps\<close>

type_synonym ('k, 'v) dict = "('k \<times> 'v) list"

abbreviation dput :: "'k \<Rightarrow> 'v \<Rightarrow> ('k, 'v) dict \<Rightarrow> ('k, 'v) dict" where
  "dput \<equiv> AList.update"

abbreviation ddel :: "'k \<Rightarrow> ('k, 'v) dict \<Rightarrow> ('k, 'v) dict" where
  "ddel \<equiv> AList.delete"

abbreviation dkeys :: "('k, 'v) dict \<Rightarrow> 'k list" where
  "dkeys d \<equiv> map fst d"

text \<open>A map index expression with the zero value for a missing key.\<close>

definition dget :: "'v \<Rightarrow> ('k, 'v) dict \<Rightarrow> 'k \<Rightarrow> 'v" where
  "dget z d k = (case map_of d k of None \<Rightarrow> z | Some v \<Rightarrow> v)"

definition same_map :: "('k, 'v) dict \<Rightarrow> ('k, 'v) dict \<Rightarrow> bool" where
  "same_map a b \<longleftrightarrow> map_of a = map_of b"

named_theorems dict_simps \<open>lookup laws of Go maps\<close>

lemma map_of_dput [simp, dict_simps]: "map_of (dput k v d) = (map_of d)(k \<mapsto> v)"
  by (simp add: update_conv')

lemma map_of_ddel [simp, dict_simps]: "map_of (ddel k d) = (map_of d)(k := None)"
  by (simp add: delete_conv')

lemma distinct_dput [simp, intro]: "distinct (dkeys d) \<Longrightarrow> distinct (dkeys (dput k v d))"
  by (rule distinct_update)

lemma distinct_ddel [simp, intro]: "distinct (dkeys d) \<Longrightarrow> distinct (dkeys (ddel k d))"
  by (rule distinct_delete)

lemma keys_dput [simp]: "set (dkeys (dput k v d)) = insert k (set (dkeys d))"
  by (simp add: dom_map_of_conv_image_fst [symmetric] dom_update)

lemma keys_dput_image [simp]: "fst ` set (dput k v d) = insert k (fst ` set d)"
  using keys_dput [of k v d] by simp

lemma map_of_map_val [dict_simps]:
  "map_of (map (\<lambda>(k, v). (k, f k v)) d) k = map_option (f k) (map_of d k)"
  by (induction d) auto

lemma dkeys_map_val: "dkeys (map (\<lambda>(k, v). (k, f k v)) d) = dkeys d"
  by (induction d) auto

lemma map_of_filter_keys [dict_simps]:
  "map_of (filter (\<lambda>kv. P (fst kv)) d) k = (if P k then map_of d k else None)"
  by (induction d) auto

lemma distinct_keys_filter [intro]:
  "distinct (dkeys d) \<Longrightarrow> distinct (dkeys (filter P d))"
  by (induction d) auto

lemma map_of_Some_iff:
  "distinct (dkeys d) \<Longrightarrow> map_of d k = Some v \<longleftrightarrow> (k, v) \<in> set d"
  by (rule map_of_eq_Some_iff)

lemma mem_keys_iff: "k \<in> fst ` set d \<longleftrightarrow> map_of d k \<noteq> None"
  by (simp add: map_of_eq_None_iff)

lemma dget_Some [simp]: "map_of d k = Some v \<Longrightarrow> dget z d k = v"
  by (simp add: dget_def)

lemma dget_None [simp]: "map_of d k = None \<Longrightarrow> dget z d k = z"
  by (simp add: dget_def)

lemma dget_dput [simp]: "dget z (dput k v d) k' = (if k' = k then v else dget z d k')"
  by (simp add: dget_def)

text \<open>Filling a fresh map inside a loop over keys.\<close>

definition dict_of :: "'k list \<Rightarrow> ('k \<Rightarrow> 'v) \<Rightarrow> ('k, 'v) dict" where
  "dict_of ks f = fold (\<lambda>k. dput k (f k)) ks []"

lemma map_of_fold_dput:
  "map_of (fold (\<lambda>k. dput k (f k)) ks d) k = (if k \<in> set ks then Some (f k) else map_of d k)"
  by (induction ks arbitrary: d) auto

lemma map_of_dict_of [simp]: "map_of (dict_of ks f) k = (if k \<in> set ks then Some (f k) else None)"
  by (simp add: dict_of_def map_of_fold_dput)

lemma distinct_fold_dput [intro]:
  "distinct (dkeys d) \<Longrightarrow> distinct (dkeys (fold (\<lambda>k. dput k (f k)) ks d))"
  by (induction ks arbitrary: d) auto

lemma distinct_dict_of [simp, intro]: "distinct (dkeys (dict_of ks f))"
  by (simp add: dict_of_def distinct_fold_dput)

section \<open>Sorted key lists\<close>

text \<open>
  \<^verbatim>\<open>sort.Strings\<close> over the keys of a map, and the set of a list of strings in sorted order
  (\<^verbatim>\<open>uniqueSorted\<close>, \<^verbatim>\<open>updatedKeys\<close>).
\<close>

definition sorted_keys :: "('k::linorder, 'v) dict \<Rightarrow> 'k list" where
  "sorted_keys d = sort (dkeys d)"

definition unique_sorted :: "'k::linorder list \<Rightarrow> 'k list" where
  "unique_sorted ks = sort (remdups ks)"

lemma set_sorted_keys [simp]: "set (sorted_keys d) = fst ` set d"
  by (simp add: sorted_keys_def)

lemma sorted_sorted_keys [simp]: "sorted (sorted_keys d)"
  by (simp add: sorted_keys_def)

lemma distinct_sorted_keys [simp]: "distinct (sorted_keys d) \<longleftrightarrow> distinct (dkeys d)"
  by (simp add: sorted_keys_def)

lemma set_unique_sorted [simp]: "set (unique_sorted ks) = set ks"
  by (simp add: unique_sorted_def)

lemma sorted_unique_sorted [simp]: "sorted (unique_sorted ks)"
  by (simp add: unique_sorted_def)

lemma distinct_unique_sorted [simp]: "distinct (unique_sorted ks)"
  by (simp add: unique_sorted_def)

lemma unique_sorted_cong: "set xs = set ys \<Longrightarrow> unique_sorted xs = unique_sorted ys"
  by (intro sorted_distinct_set_unique) auto

lemma sorted_keys_cong:
  assumes "distinct (dkeys a)" and "distinct (dkeys b)" and "map_of a = map_of b"
  shows "sorted_keys a = sorted_keys b"
proof (rule sorted_distinct_set_unique)
  show "set (sorted_keys a) = set (sorted_keys b)"
    using assms(3) by (simp add: dom_map_of_conv_image_fst [symmetric])
qed (use assms in auto)

section \<open>The unique marked element of a list\<close>

text \<open>
  The loop shared by \<^verbatim>\<open>Delta.Apply\<close> and \<^verbatim>\<open>fieldState.apply\<close>: find the index of the one
  element that satisfies \<open>p\<close>, \<open>-1\<close> when there is none, an error when there are two.
\<close>

fun scan_unique :: "gerr \<Rightarrow> ('w \<Rightarrow> bool) \<Rightarrow> nat \<Rightarrow> int \<Rightarrow> 'w list \<Rightarrow> int res" where
  "scan_unique e p i acc [] = Inr acc"
| "scan_unique e p i acc (w # ws) =
     (if \<not> p w then scan_unique e p (Suc i) acc ws
      else if acc \<noteq> -1 then Inl e
      else scan_unique e p (Suc i) (int i) ws)"

lemma scan_unique_found:
  "acc \<noteq> -1 \<Longrightarrow> scan_unique e p i acc ws = (if filter p ws = [] then Inr acc else Inl e)"
  by (induction ws arbitrary: i) auto

lemma scan_unique_none [simp]: "filter p ws = [] \<Longrightarrow> scan_unique e p i acc ws = Inr acc"
  by (induction ws arbitrary: i) (auto split: if_splits)

lemma scan_unique_many:
  "Suc 0 < length (filter p ws) \<Longrightarrow> scan_unique e p i (-1) ws = Inl e"
  by (induction ws arbitrary: i) (auto simp: scan_unique_found split: if_splits)

lemma scan_unique_one:
  assumes "filter p ws = [w]"
  shows "\<exists>j < length ws. scan_unique e p i (-1) ws = Inr (int (i + j)) \<and> ws ! j = w"
  using assms
proof (induction ws arbitrary: i)
  case Nil
  then show ?case by simp
next
  case (Cons v ws)
  show ?case
  proof (cases "p v")
    case True
    with Cons.prems have "filter p ws = []" and "v = w" by auto
    with True show ?thesis by (intro exI [of _ 0]) (simp add: scan_unique_found)
  next
    case False
    with Cons.prems have "filter p ws = [w]" by simp
    from Cons.IH [OF this, of "Suc i"] obtain j where
      "j < length ws" "scan_unique e p (Suc i) (-1) ws = Inr (int (Suc i + j))" "ws ! j = w"
      by blast
    with False show ?thesis by (intro exI [of _ "Suc j"]) simp
  qed
qed

text \<open>The three outcomes of the loop, by the number of marked elements.\<close>

lemma filter_count_cases:
  obtains (none) "filter p ws = []"
  | (one) w where "filter p ws = [w]"
  | (many) "Suc 0 < length (filter p ws)"
proof (cases "filter p ws")
  case Nil
  then show thesis by (rule none)
next
  case (Cons w vs)
  show thesis
  proof (cases vs)
    case Nil
    with Cons show thesis by (intro one) simp
  next
    case (Cons a list)
    with \<open>filter p ws = w # vs\<close> show thesis by (intro many) simp
  qed
qed

end
