(* ===== verification/Go_Values.thy ===== *)
theory Go_Values
  imports Dago_Prelude
begin

text \<open>
  Values of the Go type \<^verbatim>\<open>any\<close> as far as the runtime inspects them: the cases of its type
  switches and type assertions (\<^verbatim>\<open>dastate/state.go\<close>, \<^verbatim>\<open>dacheckpoint/checkpoint.go\<close>,
  \<^verbatim>\<open>internal/graph/persist.go\<close>, \<^verbatim>\<open>dacheckpoint/serde\<close>), and the deep copy of
  \<^verbatim>\<open>dacheckpoint/clone.go\<close>. Values of every other dynamic type are \<open>VOpaque\<close>; the type
  parameter is the application's own data (the messages of an agent, for example).
\<close>

text \<open>
  Integers carry the 64 bits the code converts them to (\<^verbatim>\<open>int64(value)\<close>, \<^verbatim>\<open>uint64(value)\<close>),
  floats their IEEE bit patterns. \<open>VSnapshot\<close> is \<^verbatim>\<open>dacheckpoint.DeltaSnapshot\<close>,
  \<open>VOverwrite\<close> and \<open>VBatch\<close> are the update markers of \<^verbatim>\<open>dastate\<close>.
\<close>

datatype 'x gval =
    VNil
  | VBool bool
  | VStr string
  | VBytes "8 word list"
  | VInt "64 word"
  | VUint "64 word"
  | VFloat32 "32 word"
  | VFloat64 "64 word"
  | VSlice "'x gval list"
  | VMap "(string \<times> 'x gval) list"
  | VSnapshot "'x gval"
  | VOverwrite "'x gval"
  | VBatch "'x gval list"
  | VOpaque 'x

type_synonym 'x vals = "(string, 'x gval) dict"

text \<open>\<^verbatim>\<open>dastate.Values.Get\<close> and \<^verbatim>\<open>dastate.Values.Clone\<close> (a shallow copy).\<close>

definition values_Get :: "'x vals \<Rightarrow> string \<Rightarrow> 'x gval \<times> bool" where
  "values_Get vs k = (case map_of vs k of None \<Rightarrow> (VNil, False) | Some v \<Rightarrow> (v, True))"

definition values_Clone :: "'x vals \<Rightarrow> 'x vals" where
  "values_Clone vs = fold (\<lambda>(k, v). dput k v) vs []"

section \<open>Deep copies\<close>

text \<open>
  \<^verbatim>\<open>cloneReflect\<close>: a new slice, map or struct is filled with clones of its elements; scalars and
  structs with unexported fields (here \<open>VOpaque\<close>) are returned as they are.
\<close>

fun clone_any :: "'x gval \<Rightarrow> 'x gval" where
  "clone_any (VSlice xs) = VSlice (map clone_any xs)"
| "clone_any (VMap kvs) = VMap (map (\<lambda>(k, v). (k, clone_any v)) kvs)"
| "clone_any (VSnapshot v) = VSnapshot (clone_any v)"
| "clone_any (VOverwrite v) = VOverwrite (clone_any v)"
| "clone_any (VBatch vs) = VBatch (map clone_any vs)"
| "clone_any v = v"

text \<open>A copy is equal to its original: the runtime's clones never change a value.\<close>

lemma clone_any_id [simp]: "clone_any v = v"
proof (induction v rule: clone_any.induct)
  case (1 xs)
  then show ?case by (simp add: map_idI)
next
  case (2 kvs)
  then have "map (\<lambda>(k, v). (k, clone_any v)) kvs = kvs"
    by (intro map_idI) auto
  then show ?case by simp
next
  case (5 vs)
  then show ?case by (simp add: map_idI)
qed simp_all

lemma map_option_clone [simp]: "map_option clone_any x = x"
  by (cases x) simp_all

lemma map_of_fold_dput_pairs:
  "distinct (dkeys vs) \<Longrightarrow>
   map_of (fold (\<lambda>(k, v). dput k v) vs d) k =
   (case map_of vs k of None \<Rightarrow> map_of d k | Some v \<Rightarrow> Some v)"
proof (induction vs arbitrary: d)
  case Nil
  show ?case by simp
next
  case (Cons kv vs)
  obtain a b where "kv = (a, b)" by (cases kv)
  moreover from Cons.prems \<open>kv = (a, b)\<close> have "map_of vs a = None"
    by (simp add: map_of_eq_None_iff)
  ultimately show ?case using Cons by (auto split: option.splits)
qed

lemma values_Clone_same_map: "distinct (dkeys vs) \<Longrightarrow> map_of (values_Clone vs) = map_of vs"
  by (rule ext) (simp add: values_Clone_def map_of_fold_dput_pairs split: option.splits)

end
