(* ===== verification/Delta_Channel.thy ===== *)
theory Delta_Channel
  imports Go_Values
begin

text \<open>
  The delta channel of \<^verbatim>\<open>internal/graph/channel\<close>: an accumulated value kept in memory, from
  which durable checkpoints store only periodic full snapshots and the writes between them.
  The pair of Go fields \<^verbatim>\<open>value\<close>, \<^verbatim>\<open>available\<close> is one option (\<open>None\<close> when the channel is not
  available). Reducers, cloners and initial values are parameters of the channel.

  The main result is that replaying the writes of a run of supersteps from a checkpoint seed
  rebuilds exactly the value that applying the supersteps one after the other produced,
  for every reducer that keeps the documented batching law.
\<close>

section \<open>Configuration\<close>

definition DefaultDeltaSnapshotFrequency :: "64 word" where
  "DefaultDeltaSnapshotFrequency = 1000"

record deltaConfig =
  cfg_snapshotFrequency :: "64 word"
  cfg_ownedReducerInput :: bool

datatype deltaOption = WithSnapshotFrequency "64 word" | WithOwnedReducerInput

fun apply_deltaOption :: "deltaOption \<Rightarrow> deltaConfig \<Rightarrow> deltaConfig res" where
  "apply_deltaOption (WithSnapshotFrequency f) c =
     (if f = 0 then Inl ErrInvalidSnapshotFrequency else Inr (c\<lparr>cfg_snapshotFrequency := f\<rparr>))"
| "apply_deltaOption WithOwnedReducerInput c = Inr (c\<lparr>cfg_ownedReducerInput := True\<rparr>)"

section \<open>Writes and checkpoint values\<close>

datatype 't deltaWrite = UpdateValue 't | OverwriteValue 't

fun IsOverwrite :: "'t deltaWrite \<Rightarrow> bool" where
  "IsOverwrite (UpdateValue v) = False"
| "IsOverwrite (OverwriteValue v) = True"

fun writeValue :: "'t deltaWrite \<Rightarrow> 't" where
  "writeValue (UpdateValue v) = v"
| "writeValue (OverwriteValue v) = v"

text \<open>
  A checkpoint value by its kind byte; \<open>InvalidCheckpoint\<close> stands for every discriminator other
  than the three declared ones.
\<close>

datatype 't checkpointValue =
    MissingCheckpoint
  | SnapshotCheckpoint 't
  | LegacyCheckpoint 't
  | InvalidCheckpoint "8 word" 't

section \<open>The channel\<close>

type_synonym 't reducer = "'t \<Rightarrow> 't list \<Rightarrow> 't res"

record 't delta =
  d_initial :: 't
  d_reduce :: "'t reducer"
  d_clone :: "'t \<Rightarrow> 't"
  d_snapshotFrequency :: "64 word"
  d_ownedReducerInput :: bool
  d_cell :: "'t option"

text \<open>\<^verbatim>\<open>NewDelta\<close>: \<open>Inl\<close> is the panic of a nil argument, a nil option or a failing option.\<close>

fun apply_deltaOptions :: "deltaOption option list \<Rightarrow> deltaConfig \<Rightarrow> deltaConfig res" where
  "apply_deltaOptions [] c = Inr c"
| "apply_deltaOptions (None # os) c = Inl (Errorf ''create delta channel: nil option'')"
| "apply_deltaOptions (Some opt # os) c =
     res_bind (res_wrap ''create delta channel'' (apply_deltaOption opt c)) (apply_deltaOptions os)"

definition NewDelta ::
  "'t option \<Rightarrow> 't reducer option \<Rightarrow> ('t \<Rightarrow> 't) option \<Rightarrow> deltaOption option list \<Rightarrow> 't delta res" where
  "NewDelta initial reducer cloner options =
     (case initial of None \<Rightarrow> Inl (Errorf ''create delta channel: initial value factory is required'')
      | Some i \<Rightarrow>
        (case reducer of None \<Rightarrow> Inl (Errorf ''create delta channel: reducer is required'')
         | Some r \<Rightarrow>
           (case cloner of None \<Rightarrow> Inl (Errorf ''create delta channel: cloner is required'')
            | Some c \<Rightarrow>
              res_bind
                (apply_deltaOptions options
                  \<lparr>cfg_snapshotFrequency = DefaultDeltaSnapshotFrequency, cfg_ownedReducerInput = False\<rparr>)
                (\<lambda>cfg. Inr \<lparr>d_initial = i, d_reduce = r, d_clone = c,
                   d_snapshotFrequency = cfg_snapshotFrequency cfg,
                   d_ownedReducerInput = cfg_ownedReducerInput cfg, d_cell = None\<rparr>))))"

definition specCopy :: "'t delta \<Rightarrow> 't delta" where
  "specCopy ch = ch\<lparr>d_cell := None\<rparr>"

fun Restore :: "'t delta \<Rightarrow> 't checkpointValue \<Rightarrow> 't delta res" where
  "Restore ch MissingCheckpoint = Inr ((specCopy ch)\<lparr>d_cell := Some (d_initial ch)\<rparr>)"
| "Restore ch (SnapshotCheckpoint v) = Inr ((specCopy ch)\<lparr>d_cell := Some (d_clone ch v)\<rparr>)"
| "Restore ch (LegacyCheckpoint v) = Inr ((specCopy ch)\<lparr>d_cell := Some (d_clone ch v)\<rparr>)"
| "Restore ch (InvalidCheckpoint k v) =
     Inl (Wrapf ''restore delta channel'' ErrInvalidCheckpointKind)"

definition Copy :: "'t delta \<Rightarrow> 't delta" where
  "Copy ch = (case d_cell ch of None \<Rightarrow> specCopy ch
    | Some v \<Rightarrow> (specCopy ch)\<lparr>d_cell := Some (d_clone ch v)\<rparr>)"

definition IsAvailable :: "'t delta \<Rightarrow> bool" where
  "IsAvailable ch \<longleftrightarrow> d_cell ch \<noteq> None"

definition delta_Get :: "'t delta \<Rightarrow> 't res" where
  "delta_Get ch = (case d_cell ch of None \<Rightarrow> Inl ErrEmpty | Some v \<Rightarrow> Inr (d_clone ch v))"

definition delta_View :: "'t delta \<Rightarrow> 't res" where
  "delta_View ch = (case d_cell ch of None \<Rightarrow> Inl ErrEmpty | Some v \<Rightarrow> Inr v)"

definition delta_Checkpoint :: "'t delta \<Rightarrow> 't checkpointValue" where
  "delta_Checkpoint ch = MissingCheckpoint"

definition delta_Snapshot :: "'t delta \<Rightarrow> 't checkpointValue res" where
  "delta_Snapshot ch = res_bind (delta_Get ch) (\<lambda>v. Inr (SnapshotCheckpoint v))"

text \<open>
  \<^verbatim>\<open>Apply\<close> mutates the channel only when it succeeds: the model returns the channel after the
  call together with the Go result.
\<close>

definition delta_base :: "'t delta \<Rightarrow> 't" where
  "delta_base ch = (case d_cell ch of None \<Rightarrow> d_initial ch
    | Some v \<Rightarrow> if d_ownedReducerInput ch then v else d_clone ch v)"

definition delta_Apply :: "'t delta \<Rightarrow> 't deltaWrite list \<Rightarrow> 't delta \<times> bool res" where
  "delta_Apply ch writes =
     (if writes = [] then (ch, Inr False)
      else case scan_unique ErrMultipleOverwrites IsOverwrite 0 (-1) writes of
        Inl e \<Rightarrow> (ch, Inl e)
      | Inr overwriteIndex \<Rightarrow>
          if overwriteIndex \<noteq> -1
          then (ch\<lparr>d_cell := Some (d_clone ch (writeValue (writes ! nat overwriteIndex)))\<rparr>, Inr True)
          else
            let vs = map (\<lambda>w. if d_ownedReducerInput ch then writeValue w else d_clone ch (writeValue w)) writes
            in case d_reduce ch (delta_base ch) vs of
                 Inl e \<Rightarrow> (ch, Inl (Wrapf ''reduce delta channel update'' e))
               | Inr next_value \<Rightarrow> (ch\<lparr>d_cell := Some next_value\<rparr>, Inr True))"

text \<open>The scan of \<^verbatim>\<open>Replay\<close>: the last overwrite becomes the base, \<open>start\<close> the index after it.\<close>

fun replay_scan :: "('t \<Rightarrow> 't) \<Rightarrow> nat \<Rightarrow> 't \<Rightarrow> nat \<Rightarrow> 't deltaWrite list \<Rightarrow> 't \<times> nat" where
  "replay_scan cl i base start [] = (base, start)"
| "replay_scan cl i base start (w # ws) =
     (if IsOverwrite w then replay_scan cl (Suc i) (cl (writeValue w)) (Suc i) ws
      else replay_scan cl (Suc i) base start ws)"

definition delta_Replay :: "'t delta \<Rightarrow> 't deltaWrite list \<Rightarrow> 't delta \<times> unit res" where
  "delta_Replay ch writes =
     (if writes = [] then (ch, Inr ())
      else
        let base0 = (case d_cell ch of None \<Rightarrow> d_initial ch | Some v \<Rightarrow> d_clone ch v);
            (base, start) = replay_scan (d_clone ch) 0 base0 0 writes;
            remaining = map (\<lambda>w. d_clone ch (writeValue w))
                          (filter (\<lambda>w. \<not> IsOverwrite w) (drop start writes))
        in if remaining = [] then (ch\<lparr>d_cell := Some base\<rparr>, Inr ())
           else case d_reduce ch base remaining of
                  Inl e \<Rightarrow> (ch, Inl (Wrapf ''replay delta channel writes'' e))
                | Inr next_value \<Rightarrow> (ch\<lparr>d_cell := Some next_value\<rparr>, Inr ()))"

section \<open>The snapshot cadence\<close>

definition MaxDeltaSuperstepsSinceSnapshot :: "64 word" where
  "MaxDeltaSuperstepsSinceSnapshot = 5000"

record deltaSnapshotCounter =
  Updates :: "64 word"
  Supersteps :: "64 word"

definition saturatingIncrement :: "64 word \<Rightarrow> 64 word" where
  "saturatingIncrement v = (if v = - 1 then v else v + 1)"

definition counter_Advance :: "deltaSnapshotCounter \<Rightarrow> bool \<Rightarrow> deltaSnapshotCounter" where
  "counter_Advance c updated =
     (let c1 = c\<lparr>Supersteps := saturatingIncrement (Supersteps c)\<rparr>
      in if updated then c1\<lparr>Updates := saturatingIncrement (Updates c1)\<rparr> else c1)"

definition ShouldSnapshot :: "deltaSnapshotCounter \<Rightarrow> 64 word \<Rightarrow> bool" where
  "ShouldSnapshot c frequency \<longleftrightarrow>
     frequency > 0 \<and> (Updates c \<ge> frequency \<or> Supersteps c \<ge> MaxDeltaSuperstepsSinceSnapshot)"

definition counter_Reset :: "deltaSnapshotCounter \<Rightarrow> deltaSnapshotCounter" where
  "counter_Reset c = \<lparr>Updates = 0, Supersteps = 0\<rparr>"


section \<open>What one superstep does\<close>

lemma delta_Apply_none:
  assumes "writes \<noteq> []" and "filter IsOverwrite writes = []"
  shows "delta_Apply ch writes =
     (case d_reduce ch (delta_base ch)
        (map (\<lambda>w. if d_ownedReducerInput ch then writeValue w else d_clone ch (writeValue w)) writes) of
        Inl e \<Rightarrow> (ch, Inl (Wrapf ''reduce delta channel update'' e))
      | Inr next_value \<Rightarrow> (ch\<lparr>d_cell := Some next_value\<rparr>, Inr True))"
  using assms by (simp add: delta_Apply_def)

lemma delta_Apply_one:
  assumes "filter IsOverwrite writes = [OverwriteValue v]"
  shows "delta_Apply ch writes = (ch\<lparr>d_cell := Some (d_clone ch v)\<rparr>, Inr True)"
proof -
  from scan_unique_one [OF assms, of ErrMultipleOverwrites 0] obtain j where
    j: "scan_unique ErrMultipleOverwrites IsOverwrite 0 (-1) writes = Inr (int j)"
      "writes ! j = OverwriteValue v"
    by auto
  moreover from assms have "writes \<noteq> []" by auto
  ultimately show ?thesis by (simp add: delta_Apply_def)
qed

lemma delta_Apply_many:
  assumes "Suc 0 < length (filter IsOverwrite writes)"
  shows "delta_Apply ch writes = (ch, Inl ErrMultipleOverwrites)"
proof -
  from assms have "writes \<noteq> []" by auto
  with assms show ?thesis by (simp add: delta_Apply_def scan_unique_many)
qed

lemma filter_IsOverwrite_singleton:
  "filter IsOverwrite writes = [w] \<Longrightarrow> \<exists>v. w = OverwriteValue v"
  by (cases w) (auto simp: filter_eq_Cons_iff)

text \<open>
  Applying a superstep never touches the specification of the channel, and a failing one
  leaves the whole channel as it was.
\<close>

definition same_spec :: "'t delta \<Rightarrow> 't delta \<Rightarrow> bool" where
  "same_spec a b \<longleftrightarrow> a\<lparr>d_cell := None\<rparr> = b\<lparr>d_cell := None\<rparr>"

lemma same_spec_iff:
  "same_spec a b \<longleftrightarrow> d_initial a = d_initial b \<and> d_reduce a = d_reduce b \<and> d_clone a = d_clone b \<and>
     d_snapshotFrequency a = d_snapshotFrequency b \<and> d_ownedReducerInput a = d_ownedReducerInput b"
  by (cases a; cases b) (simp add: same_spec_def)

lemma delta_Apply_same_spec: "same_spec ch (fst (delta_Apply ch writes))"
  by (auto simp: delta_Apply_def same_spec_iff Let_def split: sum.splits)

lemma delta_Apply_error_unchanged:
  "snd (delta_Apply ch writes) = Inl e \<Longrightarrow> fst (delta_Apply ch writes) = ch"
  by (auto simp: delta_Apply_def Let_def split: sum.splits if_splits)

section \<open>Replay as a function on values\<close>

definition trailing_updates :: "'t deltaWrite list \<Rightarrow> 't list" where
  "trailing_updates ws = map writeValue (rev (takeWhile (\<lambda>w. \<not> IsOverwrite w) (rev ws)))"

definition reset_point :: "('t \<Rightarrow> 't) \<Rightarrow> 't \<Rightarrow> 't deltaWrite list \<Rightarrow> 't" where
  "reset_point cl b ws =
     (if filter IsOverwrite ws = [] then b else cl (writeValue (last (filter IsOverwrite ws))))"

lemma trailing_updates_append:
  "trailing_updates (xs @ ys) =
     (if filter IsOverwrite ys = [] then trailing_updates xs @ map writeValue ys
      else trailing_updates ys)"
proof (cases "filter IsOverwrite ys = []")
  case True
  then have "\<forall>w \<in> set ys. \<not> IsOverwrite w" by (simp add: filter_empty_conv)
  then have "takeWhile (\<lambda>w. \<not> IsOverwrite w) (rev ys @ rev xs) =
      rev ys @ takeWhile (\<lambda>w. \<not> IsOverwrite w) (rev xs)"
    by (intro takeWhile_append2) auto
  with True show ?thesis by (simp add: trailing_updates_def)
next
  case False
  then obtain w where "w \<in> set (rev ys)" "IsOverwrite w" by (auto simp: filter_empty_conv)
  then have "takeWhile (\<lambda>w. \<not> IsOverwrite w) (rev ys @ rev xs) =
      takeWhile (\<lambda>w. \<not> IsOverwrite w) (rev ys)"
    by (intro takeWhile_append1) auto
  with False show ?thesis by (simp add: trailing_updates_def)
qed

lemma reset_point_append: "reset_point cl b (xs @ ys) = reset_point cl (reset_point cl b xs) ys"
  by (simp add: reset_point_def)

lemma trailing_updates_none:
  "filter IsOverwrite ws = [] \<Longrightarrow> trailing_updates ws = map writeValue ws"
  using trailing_updates_append [of "[]" ws] by (simp add: trailing_updates_def)

lemma trailing_updates_snoc_overwrite [simp]: "trailing_updates (ws @ [OverwriteValue v]) = []"
  by (simp add: trailing_updates_def)

text \<open>The scan of the code finds exactly that reset point and those updates.\<close>

lemma replay_scan_spec:
  assumes "start \<le> i"
  shows "replay_scan cl i b start ws =
     (reset_point cl b ws,
      if filter IsOverwrite ws = [] then start else i + length ws - length (trailing_updates ws))"
  using assms
proof (induction ws arbitrary: i b start)
  case Nil
  then show ?case by (simp add: reset_point_def)
next
  case (Cons w ws)
  have tl: "trailing_updates (w # ws) =
      (if filter IsOverwrite ws = [] then trailing_updates [w] @ map writeValue ws
       else trailing_updates ws)"
    using trailing_updates_append [of "[w]" ws] by simp
  have len: "length (trailing_updates ws) \<le> length ws"
    by (simp add: trailing_updates_def length_takeWhile_le [of _ "rev ws", simplified])
  show ?case
  proof (cases "IsOverwrite w")
    case True
    then have "replay_scan cl i b start (w # ws) = replay_scan cl (Suc i) (cl (writeValue w)) (Suc i) ws"
      by simp
    also have "\<dots> = (reset_point cl (cl (writeValue w)) ws,
        if filter IsOverwrite ws = [] then Suc i else Suc i + length ws - length (trailing_updates ws))"
      by (rule Cons.IH) simp
    finally show ?thesis using True tl len
      by (cases w) (auto simp: reset_point_def trailing_updates_def)
  next
    case False
    then have "replay_scan cl i b start (w # ws) = replay_scan cl (Suc i) b start ws"
      by simp
    also have "\<dots> = (reset_point cl b ws,
        if filter IsOverwrite ws = [] then start else Suc i + length ws - length (trailing_updates ws))"
      using Cons.prems by (intro Cons.IH) simp
    finally show ?thesis using False tl by (simp add: reset_point_def)
  qed
qed

lemma drop_trailing:
  assumes "filter IsOverwrite ws \<noteq> []"
  shows "map writeValue (filter (\<lambda>w. \<not> IsOverwrite w) (drop (length ws - length (trailing_updates ws)) ws)) =
    trailing_updates ws"
proof -
  let ?t = "takeWhile (\<lambda>w. \<not> IsOverwrite w) (rev ws)"
  let ?pre = "rev (dropWhile (\<lambda>w. \<not> IsOverwrite w) (rev ws))"
  have "rev (?t @ dropWhile (\<lambda>w. \<not> IsOverwrite w) (rev ws)) = ws"
    by (simp only: takeWhile_dropWhile_id rev_rev_ident)
  then have ws: "?pre @ rev ?t = ws" by (simp only: rev_append)
  have len: "length (trailing_updates ws) = length ?t"
    by (simp add: trailing_updates_def)
  have "length ws = length ?pre + length ?t"
    by (subst ws [symmetric]) simp
  with len have "length ws - length (trailing_updates ws) = length ?pre" by simp
  then have "drop (length ws - length (trailing_updates ws)) ws = drop (length ?pre) (?pre @ rev ?t)"
    by (simp only: ws)
  then have "drop (length ws - length (trailing_updates ws)) ws = rev ?t" by simp
  moreover have "filter (\<lambda>w. \<not> IsOverwrite w) (rev ?t) = rev ?t"
    by (auto simp: filter_id_conv dest: set_takeWhileD)
  ultimately show ?thesis by (simp add: trailing_updates_def)
qed

definition replay_value :: "'t reducer \<Rightarrow> ('t \<Rightarrow> 't) \<Rightarrow> 't \<Rightarrow> 't deltaWrite list \<Rightarrow> 't res" where
  "replay_value red cl b ws =
     (if trailing_updates ws = [] then Inr (reset_point cl b ws)
      else red (reset_point cl b ws) (map cl (trailing_updates ws)))"

lemma replay_value_Nil [simp]: "replay_value red cl b [] = Inr b"
  by (simp add: replay_value_def trailing_updates_def reset_point_def)

lemma delta_Replay_spec:
  assumes "ws \<noteq> []"
  shows "delta_Replay ch ws =
    (case replay_value (d_reduce ch) (d_clone ch)
       (case d_cell ch of None \<Rightarrow> d_initial ch | Some v \<Rightarrow> d_clone ch v) ws of
       Inl e \<Rightarrow> (ch, Inl (Wrapf ''replay delta channel writes'' e))
     | Inr v \<Rightarrow> (ch\<lparr>d_cell := Some v\<rparr>, Inr ()))"
proof -
  let ?b = "case d_cell ch of None \<Rightarrow> d_initial ch | Some v \<Rightarrow> d_clone ch v"
  obtain base start where sc: "replay_scan (d_clone ch) 0 ?b 0 ws = (base, start)"
    by (cases "replay_scan (d_clone ch) 0 ?b 0 ws")
  have base: "base = reset_point (d_clone ch) ?b ws"
    using replay_scan_spec [of 0 0 "d_clone ch" ?b ws] sc by simp
  have st: "start = (if filter IsOverwrite ws = [] then 0 else length ws - length (trailing_updates ws))"
    using replay_scan_spec [of 0 0 "d_clone ch" ?b ws] sc by simp
  have "map writeValue (filter (\<lambda>w. \<not> IsOverwrite w) (drop start ws)) = trailing_updates ws"
  proof (cases "filter IsOverwrite ws = []")
    case True
    then have "filter (\<lambda>w. \<not> IsOverwrite w) ws = ws"
      by (simp add: filter_empty_conv filter_id_conv)
    with True st show ?thesis by (simp add: trailing_updates_none)
  next
    case False
    with st show ?thesis by (simp add: drop_trailing)
  qed
  note vals = this
  then have rem: "map (\<lambda>w. d_clone ch (writeValue w)) (filter (\<lambda>w. \<not> IsOverwrite w) (drop start ws)) =
      map (d_clone ch) (trailing_updates ws)"
    by (simp flip: vals)
  have emp: "filter (\<lambda>w. \<not> IsOverwrite w) (drop start ws) = [] \<longleftrightarrow> trailing_updates ws = []"
    using rem by (metis map_is_Nil_conv)
  show ?thesis
    using assms sc base rem emp
    by (simp add: delta_Replay_def replay_value_def Let_def)
qed


section \<open>The reducer contract\<close>

text \<open>
  What \<^verbatim>\<open>DeltaReducer\<close> and \<^verbatim>\<open>Cloner\<close> promise the channel, on the values \<open>ok\<close> that can be
  accumulated: copies are equal to their originals, a reducer reads a write and its copy alike,
  and reducing a batch in two halves is reducing it at once (the batching law of the Go doc
  comment, for halves that succeed).
\<close>

locale batching_reducer =
  fixes red :: "'t reducer" and cl :: "'t \<Rightarrow> 't" and ok :: "'t \<Rightarrow> bool"
  assumes ok_clone: "ok s \<Longrightarrow> cl s = s"
    and reduce_clone: "ok s \<Longrightarrow> red s (map cl ws) = red s ws"
    and reduce_ok: "ok s \<Longrightarrow> red s ws = Inr s' \<Longrightarrow> ok s'"
    and batching: "ok s \<Longrightarrow> red s xs = Inr s' \<Longrightarrow> red s' ys = red s (xs @ ys)"
begin

definition reduces :: "'t delta \<Rightarrow> bool" where
  "reduces ch \<longleftrightarrow> d_reduce ch = red \<and> d_clone ch = cl \<and> ok (d_initial ch) \<and>
     (\<forall>v. d_cell ch = Some v \<longrightarrow> ok v)"

text \<open>Overwrites bring accumulable values, and no update follows one in its superstep.\<close>

definition good_writes :: "'t deltaWrite list \<Rightarrow> bool" where
  "good_writes ws \<longleftrightarrow> (\<forall>w \<in> set ws. IsOverwrite w \<longrightarrow> ok (cl (writeValue w)))"

definition overwrite_last :: "'t deltaWrite list \<Rightarrow> bool" where
  "overwrite_last ws \<longleftrightarrow> filter IsOverwrite ws = [] \<or> trailing_updates ws = []"

lemma ok_reset_point: "good_writes ws \<Longrightarrow> ok b \<Longrightarrow> ok (reset_point cl b ws)"
proof (cases "filter IsOverwrite ws = []")
  case False
  assume g: "good_writes ws"
  from False have "last (filter IsOverwrite ws) \<in> set (filter IsOverwrite ws)"
    by (rule last_in_set)
  with g False show ?thesis by (auto simp: reset_point_def good_writes_def)
qed (simp add: reset_point_def)

lemma replay_value_ok:
  assumes "good_writes ws" and "ok b" and "replay_value red cl b ws = Inr v"
  shows "ok v"
  using assms ok_reset_point [OF assms(1,2)]
  by (auto simp: replay_value_def split: if_splits intro: reduce_ok)

lemma replay_value_no_overwrite:
  assumes "ok b" and "filter IsOverwrite ws = []" and "ws \<noteq> []"
  shows "replay_value red cl b ws = red b (map writeValue ws)"
  using assms reduce_clone [OF assms(1), of "map writeValue ws"]
  by (simp add: replay_value_def trailing_updates_none reset_point_def comp_def)

text \<open>Replaying two runs of writes one after the other is replaying their concatenation.\<close>

lemma replay_value_append:
  assumes "good_writes xs" and "ok b" and "replay_value red cl b xs = Inr b'"
  shows "replay_value red cl b (xs @ ys) = replay_value red cl b' ys"
proof (cases "filter IsOverwrite ys = []")
  case True
  note none = this
  let ?r = "reset_point cl b xs"
  have ok_r: "ok ?r" using assms(1,2) by (rule ok_reset_point)
  have rp: "reset_point cl b (xs @ ys) = ?r"
    using none by (simp add: reset_point_def)
  have tu: "trailing_updates (xs @ ys) = trailing_updates xs @ map writeValue ys"
    using none by (simp add: trailing_updates_append)
  show ?thesis
  proof (cases "ys = []")
    case True
    with assms(3) show ?thesis by (simp add: replay_value_def trailing_updates_def reset_point_def)
  next
    case False
    have "replay_value red cl b (xs @ ys) = red ?r (trailing_updates xs @ map writeValue ys)"
      using False rp tu ok_r by (simp add: replay_value_def reduce_clone flip: map_append)
    also have "\<dots> = red b' (map writeValue ys)"
    proof (cases "trailing_updates xs = []")
      case True
      with assms(3) show ?thesis by (simp add: replay_value_def)
    next
      case False
      with assms(3) ok_r have "red ?r (trailing_updates xs) = Inr b'"
        by (simp add: replay_value_def reduce_clone)
      with ok_r show ?thesis by (simp add: batching)
    qed
    also have "\<dots> = replay_value red cl b' ys"
      using none False replay_value_ok [OF assms] by (simp add: replay_value_no_overwrite)
    finally show ?thesis .
  qed
next
  case False
  then show ?thesis
    by (simp add: replay_value_def reset_point_append trailing_updates_append reset_point_def)
qed

text \<open>A successful superstep produces the value that replaying its writes produces.\<close>

lemma Apply_replay_value:
  assumes "reduces ch" and "overwrite_last ws" and "ws \<noteq> []"
    and "delta_Apply ch ws = (ch', Inr u)"
  shows "\<exists>v. replay_value red cl (case d_cell ch of None \<Rightarrow> d_initial ch | Some v \<Rightarrow> cl v) ws = Inr v
    \<and> ch' = ch\<lparr>d_cell := Some v\<rparr>"
proof -
  let ?b = "case d_cell ch of None \<Rightarrow> d_initial ch | Some v \<Rightarrow> cl v"
  from assms(1) have spec: "d_reduce ch = red" "d_clone ch = cl" and okb: "ok ?b"
    by (auto simp: reduces_def ok_clone split: option.splits)
  have base: "delta_base ch = ?b"
    using assms(1) by (auto simp: delta_base_def reduces_def ok_clone split: option.splits)
  show ?thesis
  proof (cases rule: filter_count_cases [of IsOverwrite ws])
    case none
    have red_eq: "red ?b (map (\<lambda>w. if d_ownedReducerInput ch then writeValue w else d_clone ch (writeValue w)) ws) =
        red ?b (map writeValue ws)"
      using okb reduce_clone [of ?b "map writeValue ws"]
      by (cases "d_ownedReducerInput ch") (simp_all add: comp_def spec)
    have rv: "replay_value red cl ?b ws = red ?b (map writeValue ws)"
      using okb none assms(3) by (rule replay_value_no_overwrite)
    with assms(3,4) none spec base red_eq show ?thesis
      by (cases "red ?b (map writeValue ws)") (simp_all add: delta_Apply_none)
  next
    case (one w)
    then obtain v where w: "w = OverwriteValue v" by (auto dest: filter_IsOverwrite_singleton)
    with one assms(4) have "ch' = ch\<lparr>d_cell := Some (cl v)\<rparr>"
      by (simp add: delta_Apply_one spec)
    moreover from assms(2) one have "trailing_updates ws = []"
      by (simp add: overwrite_last_def)
    ultimately show ?thesis using one w
      by (simp add: replay_value_def reset_point_def)
  next
    case many
    with assms(4) show ?thesis by (simp add: delta_Apply_many)
  qed
qed

lemma Apply_reduces:
  assumes "reduces ch" and "good_writes ws" and "overwrite_last ws"
    and "delta_Apply ch ws = (ch', Inr u)"
  shows "reduces ch'"
proof (cases "ws = []")
  case True
  with assms(1,4) show ?thesis by (simp add: delta_Apply_def)
next
  case False
  let ?b = "case d_cell ch of None \<Rightarrow> d_initial ch | Some v \<Rightarrow> cl v"
  from Apply_replay_value [OF assms(1,3) False assms(4)] obtain v where
    v: "replay_value red cl ?b ws = Inr v" "ch' = ch\<lparr>d_cell := Some v\<rparr>"
    by blast
  from assms(1) have "ok ?b"
    by (auto simp: reduces_def ok_clone split: option.splits)
  with v(1) assms(2) have "ok v" by (auto intro: replay_value_ok)
  with v(2) assms(1) show ?thesis by (simp add: reduces_def)
qed

end

section \<open>Runs of supersteps\<close>

text \<open>Apply a list of supersteps, stopping at the first error as the executor does.\<close>

fun delta_run :: "'t delta \<Rightarrow> 't deltaWrite list list \<Rightarrow> 't delta res" where
  "delta_run ch [] = Inr ch"
| "delta_run ch (ws # wss) =
     (case delta_Apply ch ws of (ch', Inl e) \<Rightarrow> Inl e | (ch', Inr u) \<Rightarrow> delta_run ch' wss)"

context batching_reducer begin

lemma run_replay:
  assumes "reduces ch" and "\<forall>ws \<in> set wss. good_writes ws \<and> overwrite_last ws"
    and "delta_run ch wss = Inr ch'"
  shows "delta_Replay ch (concat wss) = (ch', Inr ()) \<and> reduces ch'"
  using assms
proof (induction wss arbitrary: ch)
  case Nil
  then show ?case by (simp add: delta_Replay_def)
next
  case (Cons ws wss)
  obtain ch1 u where app: "delta_Apply ch ws = (ch1, Inr u)" and run: "delta_run ch1 wss = Inr ch'"
    using Cons.prems(3) by (auto split: prod.splits sum.splits)
  have gw: "good_writes ws" and ol: "overwrite_last ws"
    using Cons.prems(2) by auto
  have red1: "reduces ch1"
    using Cons.prems(1) gw ol app by (rule Apply_reduces)
  have IH: "delta_Replay ch1 (concat wss) = (ch', Inr ())" and red': "reduces ch'"
    using Cons.IH [OF red1 _ run] Cons.prems(2) by auto
  show ?case
  proof (cases "ws = []")
    case True
    with app have "ch1 = ch" by (simp add: delta_Apply_def)
    with True IH red' show ?thesis by simp
  next
    case False
    let ?b = "case d_cell ch of None \<Rightarrow> d_initial ch | Some v \<Rightarrow> cl v"
    from Apply_replay_value [OF Cons.prems(1) ol False app] obtain v where
      v: "replay_value red cl ?b ws = Inr v" and ch1: "ch1 = ch\<lparr>d_cell := Some v\<rparr>"
      by blast
    have okb: "ok ?b" using Cons.prems(1)
      by (auto simp: reduces_def ok_clone split: option.splits)
    have okv: "ok v" using gw okb v by (rule replay_value_ok)
    have spec: "d_reduce ch = red" "d_clone ch = cl"
      using Cons.prems(1) by (auto simp: reduces_def)
    have rep: "delta_Replay ch (ws @ concat wss) =
        (case replay_value red cl v (concat wss) of
           Inl e \<Rightarrow> (ch, Inl (Wrapf ''replay delta channel writes'' e))
         | Inr v' \<Rightarrow> (ch\<lparr>d_cell := Some v'\<rparr>, Inr ()))"
      using False spec replay_value_append [OF gw okb v, of "concat wss"]
      by (simp add: delta_Replay_spec cong: option.case_cong)
    show ?thesis
    proof (cases "concat wss = []")
      case True
      with IH have "ch' = ch1" by (simp add: delta_Replay_def)
      moreover have "replay_value red cl v (concat wss) = Inr v"
        by (simp only: True replay_value_Nil)
      ultimately show ?thesis using rep ch1 red' by simp
    next
      case False
      have "delta_Replay ch1 (concat wss) =
          (case replay_value red cl v (concat wss) of
             Inl e \<Rightarrow> (ch1, Inl (Wrapf ''replay delta channel writes'' e))
           | Inr v' \<Rightarrow> (ch1\<lparr>d_cell := Some v'\<rparr>, Inr ()))"
        using False spec ch1 okv by (simp add: delta_Replay_spec ok_clone split: sum.split)
      with IH obtain v' where "replay_value red cl v (concat wss) = Inr v'"
        and "ch' = ch1\<lparr>d_cell := Some v'\<rparr>"
        by (auto split: sum.splits)
      with rep ch1 red' show ?thesis by simp
    qed
  qed
qed

end

section \<open>The snapshot counter\<close>

lemma unat_saturatingIncrement:
  "unat (saturatingIncrement v) = min (2 ^ 64 - 1) (Suc (unat v))"
proof (cases "v = - 1")
  case True
  then show ?thesis by (simp add: saturatingIncrement_def unsigned_minus_1_eq_mask mask_eq_exp_minus_1)
next
  case False
  then have "v < - 1" by (simp add: word_order.not_eq_extremum)
  then have "unat v < 2 ^ 64 - 1" 
    by (simp add: word_less_nat_alt unsigned_minus_1_eq_mask mask_eq_exp_minus_1)
  moreover from this have "unat (v + 1) = Suc (unat v)" by (simp add: unat_word_ariths)
  ultimately show ?thesis using False by (simp add: saturatingIncrement_def)
qed

lemma saturatingIncrement_ge: "v \<le> saturatingIncrement v"
proof -
  have "unat v < 2 ^ 64" using unsigned_less [of v, where ?'a = nat] by simp
  then show ?thesis by (simp add: word_le_nat_alt unat_saturatingIncrement)
qed

section \<open>Properties of the channel\<close>

text \<open>C5: one call of Apply, on every branch. No write changes nothing and reports false; without
  an overwrite the reducer combines the base with all writes, in order, and its error leaves the
  channel as it was; exactly one overwrite replaces the value and discards the other writes of the
  superstep; two or more are rejected with ErrMultipleOverwrites and no change.\<close>

theorem delta_Apply_outcome:
  "delta_Apply ch writes =
     (if writes = [] then (ch, Inr False)
      else case filter IsOverwrite writes of
        [] \<Rightarrow>
          (case d_reduce ch (delta_base ch)
             (map (\<lambda>w. if d_ownedReducerInput ch then writeValue w else d_clone ch (writeValue w)) writes) of
             Inl e \<Rightarrow> (ch, Inl (Wrapf ''reduce delta channel update'' e))
           | Inr v \<Rightarrow> (ch\<lparr>d_cell := Some v\<rparr>, Inr True))
      | [w] \<Rightarrow> (ch\<lparr>d_cell := Some (d_clone ch (writeValue w))\<rparr>, Inr True)
      | _ \<Rightarrow> (ch, Inl ErrMultipleOverwrites))"
proof (cases rule: filter_count_cases [of IsOverwrite writes])
  case none
  then show ?thesis by (simp add: delta_Apply_none) (simp add: delta_Apply_def)
next
  case (one w)
  moreover from one obtain v where "w = OverwriteValue v" by (auto dest: filter_IsOverwrite_singleton)
  moreover from one have "writes \<noteq> []" by auto
  ultimately show ?thesis by (simp add: delta_Apply_one)
next
  case many
  moreover from many have "writes \<noteq> []" by auto
  ultimately show ?thesis by (auto simp: delta_Apply_many split: list.split)
qed

lemma unat_run_counters:
  "unat (Updates (fold (\<lambda>b c. counter_Advance c b) bs c)) =
     min (2 ^ 64 - 1) (unat (Updates c) + length (filter id bs)) \<and>
   unat (Supersteps (fold (\<lambda>b c. counter_Advance c b) bs c)) =
     min (2 ^ 64 - 1) (unat (Supersteps c) + length bs)"
proof (induction bs arbitrary: c)
  case Nil
  have "unat (v :: 64 word) \<le> 2 ^ 64 - 1" for v
    using unsigned_less [of v, where ?'a = nat] by simp
  then show ?case by (simp add: min_absorb2)
next
  case (Cons b bs)
  have a: "unat (Updates (counter_Advance c b)) =
      min (2 ^ 64 - 1) (unat (Updates c) + (if b then 1 else 0))"
    using unsigned_less [of "Updates c", where ?'a = nat]
    by (simp add: counter_Advance_def Let_def unat_saturatingIncrement)
  have s: "unat (Supersteps (counter_Advance c b)) = min (2 ^ 64 - 1) (Suc (unat (Supersteps c)))"
    by (simp add: counter_Advance_def Let_def unat_saturatingIncrement)
  show ?case using Cons.IH [of "counter_Advance c b"] a s by (auto simp: min_def)
qed

text \<open>C37: the snapshot cadence. Along a run of supersteps from a reset counter, a snapshot is due
  exactly when the field has been updated in at least frequency supersteps, or 5000 supersteps have
  passed, for runs of any length: the 64-bit counters saturate instead of wrapping around.\<close>

theorem counter_cadence:
  "ShouldSnapshot (fold (\<lambda>b c. counter_Advance c b) bs (counter_Reset c)) frequency \<longleftrightarrow>
     0 < frequency \<and> (unat frequency \<le> length (filter id bs) \<or> 5000 \<le> length bs)"
proof -
  have le: "unat frequency \<le> min (2 ^ 64 - 1) n \<longleftrightarrow> unat frequency \<le> n" for n
    using unsigned_less [of frequency, where ?'a = nat] by auto
  have m: "unat (5000 :: 64 word) = 5000" by simp
  show ?thesis
    using unat_run_counters [of bs "counter_Reset c"] le [of "length (filter id bs)"]
    by (simp add: ShouldSnapshot_def word_le_nat_alt MaxDeltaSuperstepsSinceSnapshot_def counter_Reset_def)
qed

lemma Restore_Snapshot:
  assumes "d_cell ch = Some v" and "d_clone ch v = v"
  shows "res_bind (delta_Snapshot ch) (Restore ch) = Inr ch"
  using assms by (cases ch) (simp add: delta_Snapshot_def delta_Get_def specCopy_def)

end
