(* ===== verification/Go_Strings.thy ===== *)
theory Go_Strings
  imports Dago_Prelude
begin

text \<open>
  The text formatting the modelled packages use: decimal numbers (\<^verbatim>\<open>big.Int.String\<close>,
  \<^verbatim>\<open>fmt.Sprintf\<close> with \<^verbatim>\<open>%08d\<close>), left padding, big-endian bytes and their hexadecimal text. Go
  strings are compared byte by byte, which is the list order on characters.
\<close>

section \<open>Lexicographic order on blocks of equal length\<close>

lemma less_append_iff:
  fixes u v x y :: "'a::linorder list"
  assumes "length u = length v"
  shows "u @ x < v @ y \<longleftrightarrow> u < v \<or> (u = v \<and> x < y)"
  using assms by (induction u v rule: list_induct2) auto

lemma div_mod_less:
  fixes a b m :: nat
  assumes "a < b"
  shows "a div m < b div m \<or> (a div m = b div m \<and> a mod m < b mod m)"
  using assms div_le_mono [of a b m] div_mult_mod_eq [of a m] div_mult_mod_eq [of b m]
  by (metis le_neq_implies_less less_imp_le nat_add_left_cancel_less)

section \<open>Digits\<close>

definition digit_char :: "nat \<Rightarrow> char" where
  "digit_char d = (if d < 10 then char_of (48 + d) else char_of (87 + d))"

definition char_digit :: "char \<Rightarrow> nat option" where
  "char_digit c = (let n = of_char c :: nat in if 48 \<le> n \<and> n < 58 then Some (n - 48) else None)"

lemma of_char_digit: "d < 16 \<Longrightarrow> (of_char (digit_char d) :: nat) = (if d < 10 then 48 + d else 87 + d)"
  by (simp add: digit_char_def)

lemma digit_char_less: "a < b \<Longrightarrow> b < 16 \<Longrightarrow> digit_char a < digit_char b"
  by (simp add: less_char_def of_char_digit)

lemma digit_char_inject: "a < 16 \<Longrightarrow> b < 16 \<Longrightarrow> digit_char a = digit_char b \<longleftrightarrow> a = b"
  by (metis digit_char_less less_irrefl nat_neq_iff)

lemma char_digit_digit_char [simp]: "d < 10 \<Longrightarrow> char_digit (digit_char d) = Some d"
  by (simp add: char_digit_def of_char_digit)

section \<open>Decimal numbers\<close>

fun dec_string :: "nat \<Rightarrow> string" where
  "dec_string n = (if n < 10 then [digit_char n] else dec_string (n div 10) @ [digit_char (n mod 10)])"

declare dec_string.simps [simp del]

fun parse_digits :: "nat \<Rightarrow> string \<Rightarrow> nat option" where
  "parse_digits acc [] = Some acc"
| "parse_digits acc (c # cs) =
     (case char_digit c of None \<Rightarrow> None | Some d \<Rightarrow> parse_digits (10 * acc + d) cs)"

definition pad_left :: "char \<Rightarrow> nat \<Rightarrow> string \<Rightarrow> string" where
  "pad_left c w s = replicate (w - length s) c @ s"

text \<open>\<^verbatim>\<open>%08d\<close> of a non-negative number.\<close>

definition fmt_08d :: "nat \<Rightarrow> string" where
  "fmt_08d n = pad_left (CHR ''0'') 8 (dec_string n)"

lemma parse_digits_append:
  "parse_digits acc (xs @ ys) = (case parse_digits acc xs of None \<Rightarrow> None | Some a \<Rightarrow> parse_digits a ys)"
  by (induction xs arbitrary: acc) (auto split: option.splits)

lemma parse_digits_dec: "parse_digits 0 (dec_string n) = Some n"
proof (induction n rule: dec_string.induct)
  case (1 n)
  show ?case
  proof (cases "n < 10")
    case True
    then show ?thesis by (simp add: dec_string.simps [of n])
  next
    case False
    with 1 show ?thesis by (simp add: dec_string.simps [of n] parse_digits_append)
  qed
qed

lemma digit_char_0: "digit_char 0 = CHR ''0''"
  by code_simp

lemma parse_digits_zeros: "parse_digits 0 (replicate k (CHR ''0'') @ s) = parse_digits 0 s"
  by (induction k) (simp_all add: char_digit_digit_char [of 0, unfolded digit_char_0])

lemma parse_digits_padded: "parse_digits 0 (pad_left (CHR ''0'') w (dec_string n)) = Some n"
  by (simp add: pad_left_def parse_digits_zeros parse_digits_dec)

lemma dec_string_inject: "dec_string a = dec_string b \<longleftrightarrow> a = b"
  by (metis parse_digits_dec option.inject)

lemma fmt_08d_inject: "fmt_08d a = fmt_08d b \<longleftrightarrow> a = b"
  by (metis fmt_08d_def parse_digits_padded option.inject)

lemma set_dec_string: "c \<in> set (dec_string n) \<Longrightarrow> \<exists>d < 10. c = digit_char d"
proof (induction n rule: dec_string.induct)
  case (1 n)
  show ?case
  proof (cases "n < 10")
    case True
    with 1(2) show ?thesis by (auto simp: dec_string.simps [of n])
  next
    case False
    with 1(2) consider "c \<in> set (dec_string (n div 10))" | "c = digit_char (n mod 10)"
      by (auto simp: dec_string.simps [of n])
    then show ?thesis
    proof cases
      case 1
      with \<open>\<not> n < 10\<close> "1.IH" show ?thesis by blast
    next
      case 2
      then show ?thesis by (intro exI [of _ "n mod 10"]) simp
    qed
  qed
qed

lemma set_fmt_08d: "c \<in> set (fmt_08d n) \<Longrightarrow> \<exists>d < 10. c = digit_char d"
proof -
  assume "c \<in> set (fmt_08d n)"
  then have "c = digit_char 0 \<or> c \<in> set (dec_string n)"
    by (auto simp: fmt_08d_def pad_left_def digit_char_0)
  then show ?thesis using set_dec_string by fastforce
qed

text \<open>Below ten to the eighth the padded text has eight characters and sorts like the number.\<close>

lemma length_dec_string: "0 < k \<Longrightarrow> n < 10 ^ k \<Longrightarrow> length (dec_string n) \<le> k"
proof (induction k arbitrary: n)
  case (Suc k)
  show ?case
  proof (cases "n < 10")
    case True
    then show ?thesis by (simp add: dec_string.simps [of n])
  next
    case False
    with Suc.prems have "k \<noteq> 0" by (cases k) auto
    moreover have "n div 10 < 10 ^ k" using Suc.prems by (simp add: less_mult_imp_div_less)
    ultimately have "length (dec_string (n div 10)) \<le> k" by (intro Suc.IH) auto
    with False show ?thesis by (simp add: dec_string.simps [of n])
  qed
qed simp

fun digits_fixed :: "nat \<Rightarrow> nat \<Rightarrow> string" where
  "digits_fixed 0 n = []"
| "digits_fixed (Suc k) n = digits_fixed k (n div 10) @ [digit_char (n mod 10)]"

lemma length_digits_fixed [simp]: "length (digits_fixed k n) = k"
  by (induction k arbitrary: n) auto

lemma digits_fixed_0: "digits_fixed k 0 = replicate k (CHR ''0'')"
  by (induction k) (simp_all add: digit_char_0 replicate_append_same)

lemma pad_dec_fixed: "0 < k \<Longrightarrow> n < 10 ^ k \<Longrightarrow> pad_left (CHR ''0'') k (dec_string n) = digits_fixed k n"
proof (induction k arbitrary: n)
  case (Suc k)
  show ?case
  proof (cases "n < 10")
    case True
    then show ?thesis
      by (simp add: pad_left_def dec_string.simps [of n] digits_fixed_0)
  next
    case False
    with Suc.prems have k: "0 < k" by (cases k) auto
    have "n div 10 < 10 ^ k" using Suc.prems by (simp add: less_mult_imp_div_less)
    with Suc.IH [OF k] False show ?thesis
      by (simp add: pad_left_def dec_string.simps [of n])
  qed
qed simp

lemma digits_fixed_less:
  "a < b \<Longrightarrow> b < 10 ^ k \<Longrightarrow> digits_fixed k a < digits_fixed k b"
proof (induction k arbitrary: a b)
  case (Suc k)
  have b: "b div 10 < 10 ^ k" using Suc.prems by (simp add: less_mult_imp_div_less)
  consider "a div 10 < b div 10" | "a div 10 = b div 10" "a mod 10 < b mod 10"
    using div_mod_less [OF Suc.prems(1)] by blast
  then show ?case
  proof cases
    case 1
    with b Suc.IH show ?thesis by (simp add: less_append_iff)
  next
    case 2
    then show ?thesis by (simp add: less_append_iff digit_char_less)
  qed
qed simp

lemma fmt_08d_less: "a < b \<Longrightarrow> b < 10 ^ 8 \<Longrightarrow> fmt_08d a < fmt_08d b"
  using pad_dec_fixed [of 8 a] pad_dec_fixed [of 8 b] digits_fixed_less [of a b 8]
  by (simp add: fmt_08d_def)

lemma length_fmt_08d: "n < 10 ^ 8 \<Longrightarrow> length (fmt_08d n) = 8"
  using pad_dec_fixed [of 8 n] by (simp add: fmt_08d_def)

section \<open>Big-endian bytes and hexadecimal text\<close>

fun be_bytes :: "nat \<Rightarrow> nat \<Rightarrow> nat list" where
  "be_bytes 0 n = []"
| "be_bytes (Suc k) n = be_bytes k (n div 256) @ [n mod 256]"

definition hex_byte :: "nat \<Rightarrow> string" where
  "hex_byte b = [digit_char (b div 16), digit_char (b mod 16)]"

definition hex_bytes :: "nat list \<Rightarrow> string" where
  "hex_bytes bs = concat (map hex_byte bs)"

lemma length_be_bytes [simp]: "length (be_bytes k n) = k"
  by (induction k arbitrary: n) auto

lemma length_hex_bytes [simp]: "length (hex_bytes bs) = 2 * length bs"
  by (induction bs) (simp_all add: hex_bytes_def hex_byte_def)

lemma be_bytes_less:
  "a < b \<Longrightarrow> b < 256 ^ k \<Longrightarrow> be_bytes k a < be_bytes k b"
proof (induction k arbitrary: a b)
  case (Suc k)
  have b: "b div 256 < 256 ^ k" using Suc.prems by (simp add: less_mult_imp_div_less)
  consider "a div 256 < b div 256" | "a div 256 = b div 256" "a mod 256 < b mod 256"
    using div_mod_less [OF Suc.prems(1)] by blast
  then show ?case
  proof cases
    case 1
    with b Suc.IH show ?thesis by (simp add: less_append_iff)
  next
    case 2
    then show ?thesis by (simp add: less_append_iff)
  qed
qed simp

lemma be_bytes_range: "b \<in> set (be_bytes k n) \<Longrightarrow> b < 256"
  by (induction k arbitrary: n) auto

lemma hex_byte_less:
  assumes "a < b" and "b < 256"
  shows "hex_byte a < hex_byte b"
proof -
  have "b div 16 < 16" using assms by (simp add: less_mult_imp_div_less)
  with div_mod_less [OF assms(1), of 16] show ?thesis
    by (elim disjE conjE) (simp_all add: hex_byte_def digit_char_less)
qed

lemma hex_bytes_less:
  assumes "length xs = length ys" and "xs < ys" and "\<And>b. b \<in> set xs \<union> set ys \<Longrightarrow> b < 256"
  shows "hex_bytes xs < hex_bytes ys"
  using assms
proof (induction xs ys rule: list_induct2)
  case (Cons x xs y ys)
  have len: "length (hex_byte x) = length (hex_byte y)" by (simp add: hex_byte_def)
  from Cons.prems(1) consider "x < y" | "x = y" "xs < ys" by auto
  then show ?case
  proof cases
    case 1
    with Cons.prems(2) have "hex_byte x < hex_byte y" by (intro hex_byte_less) auto
    with len show ?thesis by (simp add: hex_bytes_def less_append_iff)
  next
    case 2
    with Cons show ?thesis by (simp add: hex_bytes_def less_append_iff)
  qed
qed simp

lemma hex_be_less:
  "a < b \<Longrightarrow> b < 256 ^ k \<Longrightarrow> hex_bytes (be_bytes k a) < hex_bytes (be_bytes k b)"
  by (intro hex_bytes_less be_bytes_less) (auto intro: be_bytes_range)

end
