(* ===== verification/Messages.thy ===== *)
theory Messages
  imports Delta_Channel Go_Strings
begin

text \<open>
  The provider-neutral messages of \<^verbatim>\<open>damessage\<close> and their reducers: \<^verbatim>\<open>Reducer.Merge\<close>, the
  batching-invariant \<^verbatim>\<open>DeltaReduce\<close> and its in-place variant \<^verbatim>\<open>DeltaReduceOwned\<close>, and the way
  \<^verbatim>\<open>dagent\<close> registers them as the reducer and cloner of the messages field.

  Raw JSON (\<^verbatim>\<open>json.RawMessage\<close>) is the string of its bytes, a time is an integer, a float its bit
  pattern. The abstract view of a message list is the sequence of its live messages, changed
  one message at a time by \<open>put_message\<close>; the index map and tombstones of the code are shown
  to implement it.
\<close>

section \<open>Messages\<close>

datatype role = RoleHuman | RoleAssistant | RoleSystem | RoleTool | RoleRemove | RoleOther string

record citation =
  ci_id :: string
  ci_url :: string
  ci_title :: string
  ci_start :: "int option"
  ci_end :: "int option"
  ci_text :: string

record contentBlock =
  cb_type :: string
  cb_id :: string
  cb_text :: string
  cb_reasoning :: string
  cb_url :: string
  cb_data :: "8 word list"
  cb_mimeType :: string
  cb_name :: string
  cb_index :: "int option"
  cb_citations :: "citation list"
  cb_extra :: "(string, string) dict"
  cb_nonStandard :: string

record toolCall =
  tc_id :: string
  tc_name :: string
  tc_arguments :: string

record invalidToolCall =
  ic_id :: string
  ic_name :: string
  ic_arguments :: string
  ic_error :: string

record usage =
  us_inputTokens :: int
  us_outputTokens :: int
  us_totalTokens :: int
  us_inputDetails :: "(string, int) dict"
  us_outputDetails :: "(string, int) dict"
  us_provider :: string
  us_model :: string
  us_url :: string
  us_costUSD :: "64 word"
  us_startedAt :: int
  us_finishedAt :: int

datatype toolStatus = ToolStatusUnset | ToolStatusSuccess | ToolStatusError | ToolStatusOther string

record message =
  msg_id :: string
  msg_role :: role
  msg_name :: string
  msg_content :: "contentBlock list"
  msg_toolCalls :: "toolCall list"
  msg_invalidToolCalls :: "invalidToolCall list"
  msg_toolCallID :: string
  msg_toolStatus :: toolStatus
  msg_artifact :: string
  msg_metadata :: "(string, string) dict"
  msg_responseMetadata :: "(string, string) dict"
  msg_usage :: "usage option"
  msg_otherUsage :: "(string \<times> usage) list"

definition empty_message :: message where
  "empty_message = \<lparr>msg_id = [], msg_role = RoleOther [], msg_name = [], msg_content = [],
     msg_toolCalls = [], msg_invalidToolCalls = [], msg_toolCallID = [],
     msg_toolStatus = ToolStatusUnset, msg_artifact = [], msg_metadata = [],
     msg_responseMetadata = [], msg_usage = None, msg_otherUsage = []\<rparr>"

definition BlockText :: string where "BlockText = ''text''"
definition BlockNonStandard :: string where "BlockNonStandard = ''non_standard''"

definition empty_block :: contentBlock where
  "empty_block = \<lparr>cb_type = [], cb_id = [], cb_text = [], cb_reasoning = [], cb_url = [],
     cb_data = [], cb_mimeType = [], cb_name = [], cb_index = None, cb_citations = [],
     cb_extra = [], cb_nonStandard = []\<rparr>"

definition msg_Text :: "role \<Rightarrow> string \<Rightarrow> message" where
  "msg_Text r t = empty_message\<lparr>msg_role := r,
     msg_content := [empty_block\<lparr>cb_type := BlockText, cb_text := t\<rparr>]\<rparr>"

definition msg_Human :: "string \<Rightarrow> message" where "msg_Human t = msg_Text RoleHuman t"
definition msg_Assistant :: "string \<Rightarrow> message" where "msg_Assistant t = msg_Text RoleAssistant t"
definition msg_System :: "string \<Rightarrow> message" where "msg_System t = msg_Text RoleSystem t"

definition msg_Tool :: "string \<Rightarrow> string \<Rightarrow> message" where
  "msg_Tool callID t = (msg_Text RoleTool t)\<lparr>msg_toolCallID := callID, msg_toolStatus := ToolStatusSuccess\<rparr>"

definition msg_Remove :: "string \<Rightarrow> message" where
  "msg_Remove i = empty_message\<lparr>msg_id := i, msg_role := RoleRemove\<rparr>"

section \<open>Copies\<close>

definition cloneSlice :: "'a list \<Rightarrow> 'a list" where
  "cloneSlice xs = [] @ xs"

definition cloneMap :: "('k, 'v) dict \<Rightarrow> ('k, 'v) dict" where
  "cloneMap d = map (\<lambda>(k, v). (k, v)) d"

definition cloneRawMap :: "(string, string) dict \<Rightarrow> (string, string) dict" where
  "cloneRawMap d = map (\<lambda>(k, v). (k, cloneSlice v)) d"

definition cloneUsage :: "usage \<Rightarrow> usage" where
  "cloneUsage u = u\<lparr>us_inputDetails := cloneMap (us_inputDetails u),
     us_outputDetails := cloneMap (us_outputDetails u)\<rparr>"

definition msg_Clone :: "message \<Rightarrow> message" where
  "msg_Clone m = m\<lparr>
     msg_content := map (\<lambda>b. b\<lparr>cb_data := cloneSlice (cb_data b), cb_citations := cloneSlice (cb_citations b),
        cb_extra := cloneRawMap (cb_extra b), cb_nonStandard := cloneSlice (cb_nonStandard b)\<rparr>)
        (cloneSlice (msg_content m)),
     msg_toolCalls := map (\<lambda>c. c\<lparr>tc_arguments := cloneSlice (tc_arguments c)\<rparr>) (cloneSlice (msg_toolCalls m)),
     msg_invalidToolCalls := map (\<lambda>c. c\<lparr>ic_arguments := cloneSlice (ic_arguments c)\<rparr>)
        (cloneSlice (msg_invalidToolCalls m)),
     msg_artifact := cloneSlice (msg_artifact m),
     msg_metadata := cloneRawMap (msg_metadata m),
     msg_responseMetadata := cloneRawMap (msg_responseMetadata m),
     msg_usage := map_option cloneUsage (msg_usage m),
     msg_otherUsage := map (\<lambda>(p, u). (p, cloneUsage u)) (cloneSlice (msg_otherUsage m))\<rparr>"

definition cloneMessages :: "message list \<Rightarrow> message list" where
  "cloneMessages ms = map msg_Clone ms"

lemma cloneSlice_id [simp]: "cloneSlice xs = xs"
  by (simp add: cloneSlice_def)

lemma cloneMap_id [simp]: "cloneMap d = d"
  by (simp add: cloneMap_def)

lemma cloneRawMap_id [simp]: "cloneRawMap d = d"
  by (simp add: cloneRawMap_def)

lemma cloneUsage_id [simp]: "cloneUsage u = u"
  by (simp add: cloneUsage_def)

lemma msg_Clone_id [simp]: "msg_Clone m = m"
proof -
  have "map_option cloneUsage (msg_usage m) = msg_usage m"
    by (cases "msg_usage m") simp_all
  then show ?thesis by (simp add: msg_Clone_def)
qed

lemma cloneMessages_id [simp]: "cloneMessages ms = ms"
  by (simp add: cloneMessages_def map_idI)

section \<open>Text and validity\<close>

fun text_blocks :: "string \<Rightarrow> contentBlock list \<Rightarrow> string" where
  "text_blocks result [] = result"
| "text_blocks result (b # bs) =
     text_blocks (if cb_type b = BlockText then result @ cb_text b else result) bs"

definition TextContent :: "message \<Rightarrow> string" where
  "TextContent m = text_blocks [] (msg_content m)"

text \<open>\<^verbatim>\<open>Message.Validate\<close>; \<^verbatim>\<open>json.Valid\<close> is a parameter.\<close>

fun validate_calls :: "(string \<Rightarrow> bool) \<Rightarrow> toolCall list \<Rightarrow> unit res" where
  "validate_calls json_Valid [] = Inr ()"
| "validate_calls json_Valid (c # cs) =
     (if tc_id c = [] \<or> tc_name c = [] then Inl (Errorf ''tool call requires id and name'')
      else if tc_arguments c = [] \<or> \<not> json_Valid (tc_arguments c)
      then Inl (Errorf ''tool call has invalid JSON arguments'')
      else validate_calls json_Valid cs)"

fun validate_blocks :: "(string \<Rightarrow> bool) \<Rightarrow> contentBlock list \<Rightarrow> unit res" where
  "validate_blocks json_Valid [] = Inr ()"
| "validate_blocks json_Valid (b # bs) =
     (if cb_type b = [] then Inl (Errorf ''content block requires a type'')
      else if cb_type b = BlockNonStandard \<and> \<not> json_Valid (cb_nonStandard b)
      then Inl (Errorf ''content block has invalid non-standard JSON'')
      else validate_blocks json_Valid bs)"

definition msg_Validate :: "(string \<Rightarrow> bool) \<Rightarrow> message \<Rightarrow> unit res" where
  "msg_Validate json_Valid m =
     (case msg_role m of
        RoleOther r \<Rightarrow> Inl (Errorf ''message role is unsupported'')
      | RoleRemove \<Rightarrow>
          if msg_id m = [] then Inl (Errorf ''remove message requires an id'') else Inr ()
      | r \<Rightarrow>
          if r = RoleTool \<and> msg_toolCallID m = [] then Inl (Errorf ''tool message requires a tool call id'')
          else res_bind (validate_calls json_Valid (msg_toolCalls m))
                 (\<lambda>_. validate_blocks json_Valid (msg_content m)))"

section \<open>The delta reducer\<close>

definition RemoveAllMessages :: string where
  "RemoveAllMessages = ''__remove_all__''"

type_synonym index_map = "(string, nat) dict"

text \<open>The index built at the start: the last message of an identifier wins.\<close>

fun index_messages :: "nat \<Rightarrow> message list \<Rightarrow> index_map \<Rightarrow> index_map" where
  "index_messages i [] byID = byID"
| "index_messages i (m # ms) byID =
     index_messages (Suc i) ms (if msg_id m \<noteq> [] then dput (msg_id m) i byID else byID)"

text \<open>One iteration of the inner loop of \<^verbatim>\<open>deltaReduce\<close>.\<close>

definition reduce_message :: "message \<Rightarrow> message list \<times> index_map \<Rightarrow> message list \<times> index_map" where
  "reduce_message raw st =
     (let result = fst st; byID = snd st; change = msg_Clone raw in
      if msg_role change = RoleRemove \<and> msg_id change = RemoveAllMessages then ([], [])
      else if msg_id change = [] then (result @ [change], byID)
      else if msg_role change = RoleRemove then
        (case map_of byID (msg_id change) of
           Some index \<Rightarrow> (result[index := msg_Remove (msg_id change)], ddel (msg_id change) byID)
         | None \<Rightarrow> (result, byID))
      else (case map_of byID (msg_id change) of
           Some index \<Rightarrow> (result[index := change], byID)
         | None \<Rightarrow> (result @ [change], dput (msg_id change) (length result) byID)))"

definition compact :: "message list \<Rightarrow> message list" where
  "compact ms = filter (\<lambda>m. msg_role m \<noteq> RoleRemove) ms"

definition deltaReduce :: "message list \<Rightarrow> message list list \<Rightarrow> message list res" where
  "deltaReduce result writes =
     (let st = fold (\<lambda>write st. fold reduce_message write st) writes (result, index_messages 0 result [])
      in Inr (compact (fst st)))"

definition DeltaReduce :: "message list \<Rightarrow> message list list \<Rightarrow> message list res" where
  "DeltaReduce state writes = deltaReduce (cloneMessages state) writes"

text \<open>
  \<^verbatim>\<open>DeltaReduceOwned\<close> appends while no tombstone and no known identifier comes, and otherwise falls
  back to \<^verbatim>\<open>deltaReduce\<close> on the state it started from (\<open>None\<close> below).
\<close>

fun owned_batch :: "message list \<Rightarrow> message list \<Rightarrow> message list option" where
  "owned_batch result [] = Some result"
| "owned_batch result (raw # write) =
     (if msg_role raw = RoleRemove then None
      else if msg_id raw \<noteq> [] \<and> (\<exists>existing \<in> set result. msg_id existing = msg_id raw) then None
      else owned_batch (result @ [msg_Clone raw]) write)"

fun owned_batches :: "message list \<Rightarrow> message list list \<Rightarrow> message list option" where
  "owned_batches result [] = Some result"
| "owned_batches result (write # writes) =
     (case owned_batch result write of None \<Rightarrow> None | Some r \<Rightarrow> owned_batches r writes)"

definition DeltaReduceOwned :: "message list \<Rightarrow> message list list \<Rightarrow> message list res" where
  "DeltaReduceOwned state writes =
     (case owned_batches state writes of None \<Rightarrow> deltaReduce state writes | Some result \<Rightarrow> Inr result)"

section \<open>Merge\<close>

text \<open>
  \<^verbatim>\<open>Reducer.Merge\<close>: the identifier generator is a stream of results, one per call; \<open>n\<close> counts the
  calls made so far.
\<close>

fun assign_ids :: "string \<Rightarrow> (nat \<Rightarrow> string res) \<Rightarrow> nat \<Rightarrow> message list \<Rightarrow> (message list \<times> nat) res" where
  "assign_ids what ids n [] = Inr ([], n)"
| "assign_ids what ids n (m # ms) =
     (if msg_id m = [] then
        res_bind (res_wrap what (ids n)) (\<lambda>i.
          res_bind (assign_ids what ids (Suc n) ms) (\<lambda>(rest, k). Inr (m\<lparr>msg_id := i\<rparr> # rest, k)))
      else res_bind (assign_ids what ids n ms) (\<lambda>(rest, k). Inr (m # rest, k)))"

definition is_reset :: "message \<Rightarrow> bool" where
  "is_reset m \<longleftrightarrow> msg_role m = RoleRemove \<and> msg_id m = RemoveAllMessages"

fun last_reset :: "nat \<Rightarrow> int \<Rightarrow> message list \<Rightarrow> int" where
  "last_reset i acc [] = acc"
| "last_reset i acc (m # ms) = last_reset (Suc i) (if is_reset m then int i else acc) ms"

fun index_all :: "nat \<Rightarrow> message list \<Rightarrow> index_map \<Rightarrow> index_map" where
  "index_all i [] byID = byID"
| "index_all i (m # ms) byID = index_all (Suc i) ms (dput (msg_id m) i byID)"

fun merge_changes ::
  "message list \<Rightarrow> message list \<Rightarrow> index_map \<Rightarrow> string list \<Rightarrow> (message list \<times> string list) res" where
  "merge_changes [] base byID removed = Inr (base, removed)"
| "merge_changes (change # changes) base byID removed =
     (if msg_role change = RoleRemove then
        (case map_of byID (msg_id change) of
           None \<Rightarrow> Inl (Wrapf ''%w %q'' ErrRemoveUnknownMessage)
         | Some index \<Rightarrow> merge_changes changes base byID (List.insert (msg_id change) removed))
      else
        (case map_of byID (msg_id change) of
           Some index \<Rightarrow> merge_changes changes (base[index := change]) byID (removeAll (msg_id change) removed)
         | None \<Rightarrow> merge_changes changes (base @ [change]) (dput (msg_id change) (length base) byID) removed))"

definition msg_Merge :: "(nat \<Rightarrow> string res) \<Rightarrow> message list \<Rightarrow> message list \<Rightarrow> message list res" where
  "msg_Merge ids left right =
     res_bind (assign_ids ''assign existing message id'' ids 0 (cloneMessages left)) (\<lambda>(base, n).
     res_bind (assign_ids ''assign new message id'' ids n (cloneMessages right)) (\<lambda>(changes, _).
       let resetIndex = last_reset 0 (-1) changes in
       if resetIndex \<ge> 0 then Inr (cloneMessages (drop (nat resetIndex + 1) changes))
       else
         res_bind (merge_changes changes base (index_all 0 base []) []) (\<lambda>(merged, removed).
           Inr (filter (\<lambda>item. msg_id item \<notin> set removed) merged))))"

section \<open>Identifiers\<close>

text \<open>\<^verbatim>\<open>randomUUID\<close> from the sixteen random bytes, and \<^verbatim>\<open>EnsureIDs\<close>: \<open>uuids\<close> are the results of successive
  calls of the generator, \<open>fallback\<close> the texts made from the clock and the counter.\<close>

definition randomUUID :: "nat list res \<Rightarrow> string res" where
  "randomUUID random = res_bind random (\<lambda>bytes.
     let v6 = bytes[6 := (bytes ! 6) mod 16 + 0x40];
         v = v6[8 := (v6 ! 8) mod 64 + 0x80]
     in Inr (hex_bytes (take 4 v) @ ''-'' @ hex_bytes (take 2 (drop 4 v)) @ ''-'' @
          hex_bytes (take 2 (drop 6 v)) @ ''-'' @ hex_bytes (take 2 (drop 8 v)) @ ''-'' @
          hex_bytes (take 6 (drop 10 v))))"

definition fresh_id :: "(nat \<Rightarrow> string res) \<Rightarrow> (nat \<Rightarrow> string) \<Rightarrow> nat \<Rightarrow> string" where
  "fresh_id uuids fallback n = (case uuids n of Inr i \<Rightarrow> i | Inl e \<Rightarrow> fallback n)"

fun ensure_ids :: "(nat \<Rightarrow> string res) \<Rightarrow> (nat \<Rightarrow> string) \<Rightarrow> nat \<Rightarrow> message list \<Rightarrow> message list" where
  "ensure_ids uuids fallback n [] = []"
| "ensure_ids uuids fallback n (m # ms) =
     (if msg_id m \<noteq> [] \<or> msg_role m = RoleRemove then m # ensure_ids uuids fallback n ms
      else m\<lparr>msg_id := fresh_id uuids fallback n\<rparr> # ensure_ids uuids fallback (Suc n) ms)"

definition EnsureIDs :: "(nat \<Rightarrow> string res) \<Rightarrow> (nat \<Rightarrow> string) \<Rightarrow> message list \<Rightarrow> message list" where
  "EnsureIDs uuids fallback ms = ensure_ids uuids fallback 0 (cloneMessages ms)"

section \<open>The abstract message list\<close>

text \<open>
  A state is well formed when it holds no tombstone and no identifier twice. One message changes
  it by \<open>put_message\<close>.
\<close>

definition wf_messages :: "message list \<Rightarrow> bool" where
  "wf_messages ms \<longleftrightarrow> (\<forall>m \<in> set ms. msg_role m \<noteq> RoleRemove) \<and>
     distinct (filter (\<lambda>i. i \<noteq> []) (map msg_id ms))"

definition put_message :: "message \<Rightarrow> message list \<Rightarrow> message list" where
  "put_message m ms =
     (if is_reset m then []
      else if msg_role m = RoleRemove then
        (if msg_id m = [] then ms else filter (\<lambda>x. msg_id x \<noteq> msg_id m) ms)
      else if msg_id m \<noteq> [] \<and> msg_id m \<in> msg_id ` set ms
        then map (\<lambda>x. if msg_id x = msg_id m then m else x) ms
      else ms @ [m])"

text \<open>The index map points at the live message of each identifier.\<close>

definition index_ok :: "message list \<Rightarrow> index_map \<Rightarrow> bool" where
  "index_ok ms byID \<longleftrightarrow> (\<forall>k i. map_of byID k = Some i \<longleftrightarrow>
     (i < length ms \<and> k \<noteq> [] \<and> msg_id (ms ! i) = k \<and> msg_role (ms ! i) \<noteq> RoleRemove))"

lemma index_ok_Some:
  assumes "index_ok ms byID" and "map_of byID k = Some i"
  shows "i < length ms" "k \<noteq> []" "msg_id (ms ! i) = k" "msg_role (ms ! i) \<noteq> RoleRemove"
  using assms by (auto simp: index_ok_def)

lemma index_ok_unique:
  assumes "index_ok ms byID" and "i < length ms" and "j < length ms"
    and "msg_id (ms ! i) = msg_id (ms ! j)" and "msg_id (ms ! i) \<noteq> []"
    and "msg_role (ms ! i) \<noteq> RoleRemove" and "msg_role (ms ! j) \<noteq> RoleRemove"
  shows "i = j"
proof -
  from assms have "map_of byID (msg_id (ms ! i)) = Some i"
    and "map_of byID (msg_id (ms ! i)) = Some j"
    unfolding index_ok_def by metis+
  then show ?thesis by simp
qed

text \<open>Building the index of a well-formed list establishes the invariant.\<close>

lemma index_messages_map_of:
  assumes "distinct (filter (\<lambda>i. i \<noteq> []) (map msg_id ms))"
    and "\<forall>m \<in> set ms. msg_id m \<noteq> [] \<longrightarrow> map_of byID (msg_id m) = None"
  shows "map_of (index_messages n ms byID) k = Some i \<longleftrightarrow>
    map_of byID k = Some i \<or> (\<exists>j < length ms. i = n + j \<and> k \<noteq> [] \<and> msg_id (ms ! j) = k)"
  using assms
proof (induction ms arbitrary: n byID)
  case Nil
  then show ?case by simp
next
  case (Cons m ms)
  let ?b = "if msg_id m \<noteq> [] then dput (msg_id m) n byID else byID"
  have IH: "map_of (index_messages (Suc n) ms ?b) k = Some i \<longleftrightarrow>
      map_of ?b k = Some i \<or> (\<exists>j < length ms. i = Suc n + j \<and> k \<noteq> [] \<and> msg_id (ms ! j) = k)"
  proof (intro Cons.IH ballI impI)
    fix m' assume m': "m' \<in> set ms" "msg_id m' \<noteq> []"
    with Cons.prems(1) have "msg_id m \<noteq> [] \<Longrightarrow> msg_id m' \<noteq> msg_id m"
      by (auto dest: sym)
    with m' Cons.prems(2) show "map_of ?b (msg_id m') = None" by simp
  qed (use Cons.prems in \<open>auto split: if_splits\<close>)
  have b: "map_of ?b k = Some i \<longleftrightarrow> map_of byID k = Some i \<or> (i = n \<and> k \<noteq> [] \<and> msg_id m = k)"
    using Cons.prems(2) by auto
  have ex: "(\<exists>j < length (m # ms). i = n + j \<and> k \<noteq> [] \<and> msg_id ((m # ms) ! j) = k) \<longleftrightarrow>
      (i = n \<and> k \<noteq> [] \<and> msg_id m = k) \<or> (\<exists>j < length ms. i = Suc n + j \<and> k \<noteq> [] \<and> msg_id (ms ! j) = k)"
    by (auto simp: less_Suc_eq_0_disj)
  show ?case using IH b ex by simp
qed

lemma index_messages_ok: "wf_messages ms \<Longrightarrow> index_ok ms (index_messages 0 ms [])"
  by (auto simp: index_ok_def index_messages_map_of wf_messages_def)

lemma compact_wf [simp]: "wf_messages ms \<Longrightarrow> compact ms = ms"
  by (simp add: compact_def wf_messages_def filter_id_conv)

lemma compact_append [simp]: "compact (xs @ ys) = compact xs @ compact ys"
  by (simp add: compact_def)

lemma absent_id:
  assumes "k \<notin> msg_id ` set ms"
  shows "filter (\<lambda>x. msg_id x \<noteq> k) ms = ms"
    and "map (\<lambda>x. if msg_id x = k then m else x) ms = ms"
  using assms by (induction ms) auto

text \<open>Replacing or burying the indexed message, seen through \<open>compact\<close>.\<close>

lemma compact_update:
  assumes "index_ok ms byID" and "map_of byID k = Some i"
  shows "compact (ms[i := m]) =
    (if msg_role m = RoleRemove then filter (\<lambda>x. msg_id x \<noteq> k) (compact ms)
     else map (\<lambda>x. if msg_id x = k then m else x) (compact ms))"
proof -
  note i = index_ok_Some [OF assms]
  let ?pre = "take i ms" and ?post = "drop (Suc i) ms"
  have ms: "ms = ?pre @ ms ! i # ?post" using i(1) by (rule id_take_nth_drop)
  have other: "msg_role x = RoleRemove \<or> msg_id x \<noteq> k" if x: "x \<in> set ?pre \<or> x \<in> set ?post" for x
  proof (rule ccontr)
    assume neg: "\<not> (msg_role x = RoleRemove \<or> msg_id x \<noteq> k)"
    from x have "\<exists>j < length ms. ms ! j = x \<and> j \<noteq> i"
    proof
      assume "x \<in> set ?pre"
      then show ?thesis by (auto simp: in_set_conv_nth)
    next
      assume "x \<in> set ?post"
      then obtain j where "j < length ms - Suc i" "ms ! (Suc i + j) = x"
        by (auto simp: in_set_conv_nth)
      then show ?thesis by (intro exI [of _ "Suc i + j"]) auto
    qed
    then obtain j where j: "j < length ms" "ms ! j = x" "j \<noteq> i" by blast
    with neg i index_ok_unique [OF assms(1), of j i] show False by auto
  qed
  from other have "k \<notin> msg_id ` set (compact ?pre)" and "k \<notin> msg_id ` set (compact ?post)"
    by (auto simp: compact_def)
  note pre = absent_id [OF this(1)] and post = absent_id [OF this(2)]
  have "compact ms = compact ?pre @ ms ! i # compact ?post"
    by (subst ms) (simp add: compact_def i(4))
  moreover have "compact (ms[i := m]) = compact ?pre @ compact [m] @ compact ?post"
    using i(1) by (simp add: upd_conv_take_nth_drop compact_def)
  ultimately show ?thesis
    using pre post i(3) by (simp add: compact_def)
qed

lemma compact_ids:
  assumes "index_ok ms byID" and "k \<noteq> []"
  shows "map_of byID k = None \<longleftrightarrow> k \<notin> msg_id ` set (compact ms)"
proof -
  have "map_of byID k \<noteq> None \<longleftrightarrow> (\<exists>i < length ms. msg_id (ms ! i) = k \<and> msg_role (ms ! i) \<noteq> RoleRemove)"
    using assms by (auto simp: index_ok_def)
  also have "\<dots> \<longleftrightarrow> k \<in> msg_id ` set (compact ms)"
    by (auto simp: compact_def in_set_conv_nth)
  finally show ?thesis by blast
qed

text \<open>One iteration of the code is one abstract step, and keeps the index exact.\<close>

lemma reduce_message_refines:
  assumes "index_ok ms byID" and "reduce_message m (ms, byID) = (ms', byID')"
  shows "index_ok ms' byID' \<and> compact ms' = put_message m (compact ms)"
proof (cases "is_reset m")
  case True
  with assms(2) show ?thesis
    by (auto simp: reduce_message_def is_reset_def put_message_def index_ok_def compact_def Let_def)
next
  case nr: False
  show ?thesis
  proof (cases "msg_id m = []")
    case True
    with nr assms(2) have eq: "ms' = ms @ [m]" "byID' = byID"
      by (auto simp: reduce_message_def is_reset_def Let_def RemoveAllMessages_def split: if_splits)
    from assms(1) True have "index_ok (ms @ [m]) byID"
      by (auto simp: index_ok_def nth_append less_Suc_eq)
    with eq True nr show ?thesis
      by (auto simp: put_message_def compact_def)
  next
    case id: False
    show ?thesis
    proof (cases "map_of byID (msg_id m)")
      case None
      show ?thesis
      proof (cases "msg_role m = RoleRemove")
        case True
        with None id nr assms(2) have "ms' = ms" "byID' = byID"
          by (auto simp: reduce_message_def is_reset_def Let_def split: if_splits)
        moreover have "filter (\<lambda>x. msg_id x \<noteq> msg_id m) (compact ms) = compact ms"
          using compact_ids [OF assms(1) id] None by (intro absent_id) simp
        ultimately show ?thesis using True id nr assms(1) by (simp add: put_message_def)
      next
        case False
        with None id nr assms(2) have eq: "ms' = ms @ [m]" "byID' = dput (msg_id m) (length ms) byID"
          by (auto simp: reduce_message_def is_reset_def Let_def split: if_splits)
        have fresh: "msg_id m \<notin> msg_id ` set (compact ms)"
          using compact_ids [OF assms(1) id] None by simp
        then have "\<And>i. i < length ms \<Longrightarrow> msg_id (ms ! i) = msg_id m \<Longrightarrow> msg_role (ms ! i) = RoleRemove"
          by (fastforce simp: compact_def image_iff in_set_conv_nth)
        with assms(1) id False have "index_ok ms' byID'"
          unfolding eq index_ok_def by (auto simp: nth_append less_Suc_eq)
        with fresh show ?thesis using eq False nr by (simp add: put_message_def compact_def)
      qed
    next
      case (Some i)
      note i = index_ok_Some [OF assms(1) Some]
      have mem: "msg_id m \<in> msg_id ` set (compact ms)"
        using compact_ids [OF assms(1) id] Some by simp
      show ?thesis
      proof (cases "msg_role m = RoleRemove")
        case True
        with Some id nr assms(2) have eq: "ms' = ms[i := msg_Remove (msg_id m)]" "byID' = ddel (msg_id m) byID"
          by (auto simp: reduce_message_def is_reset_def Let_def split: if_splits)
        have "\<And>j. j < length ms \<Longrightarrow> msg_id (ms ! j) = msg_id m \<Longrightarrow> i \<noteq> j \<Longrightarrow> msg_role (ms ! j) = RoleRemove"
          using i index_ok_unique [OF assms(1) i(1)] by metis
        with assms(1) i have "index_ok ms' byID'"
          unfolding eq index_ok_def by (auto simp: nth_list_update msg_Remove_def)
        moreover have "compact ms' = filter (\<lambda>x. msg_id x \<noteq> msg_id m) (compact ms)"
          unfolding eq compact_update [OF assms(1) Some] by (simp add: msg_Remove_def)
        ultimately show ?thesis using True id nr by (simp add: put_message_def)
      next
        case False
        with Some id nr assms(2) have eq: "ms' = ms[i := m]" "byID' = byID"
          by (auto simp: reduce_message_def is_reset_def Let_def split: if_splits)
        have "index_ok ms' byID'"
          using assms(1) i False unfolding eq index_ok_def
          by (auto simp: nth_list_update)
        moreover have "compact ms' = map (\<lambda>x. if msg_id x = msg_id m then m else x) (compact ms)"
          unfolding eq compact_update [OF assms(1) Some] using False by simp
        ultimately show ?thesis using False id nr mem by (simp add: put_message_def)
      qed
    qed
  qed
qed


lemma fold_reduce_refines:
  assumes "index_ok (fst st) (snd st)"
  shows "index_ok (fst (fold reduce_message ms st)) (snd (fold reduce_message ms st)) \<and>
    compact (fst (fold reduce_message ms st)) = fold put_message ms (compact (fst st))"
  using assms
proof (induction ms arbitrary: st)
  case Nil
  then show ?case by simp
next
  case (Cons m ms)
  have "index_ok (fst (reduce_message m st)) (snd (reduce_message m st)) \<and>
      compact (fst (reduce_message m st)) = put_message m (compact (fst st))"
    using Cons.prems by (intro reduce_message_refines) auto
  with Cons.IH [of "reduce_message m st"] show ?case by simp
qed

theorem deltaReduce_refines:
  assumes "wf_messages ms"
  shows "deltaReduce ms writes = Inr (fold put_message (concat writes) ms)"
  using assms fold_reduce_refines [of "(ms, index_messages 0 ms [])" "concat writes"]
  by (simp add: deltaReduce_def fold_batches_concat index_messages_ok Let_def)

lemma distinct_filter_map_update:
  assumes "distinct (filter (\<lambda>i. i \<noteq> []) (map msg_id ms))"
  shows "distinct (filter (\<lambda>i. i \<noteq> []) (map msg_id (map (\<lambda>x. if msg_id x = msg_id m then m else x) ms)))"
proof -
  have "map msg_id (map (\<lambda>x. if msg_id x = msg_id m then m else x) ms) = map msg_id ms"
    by (induction ms) auto
  with assms show ?thesis by (simp only:)
qed

lemma distinct_ids_filter:
  "distinct (filter (\<lambda>i. i \<noteq> []) (map msg_id ms)) \<Longrightarrow>
   distinct (filter (\<lambda>i. i \<noteq> []) (map msg_id (filter P ms)))"
  by (induction ms) auto

lemma put_message_wf: "wf_messages ms \<Longrightarrow> wf_messages (put_message m ms)"
  by (auto simp: wf_messages_def put_message_def distinct_ids_filter distinct_filter_map_update
      simp del: map_map)

lemma fold_put_message_wf: "wf_messages ms \<Longrightarrow> wf_messages (fold put_message xs ms)"
  by (induction xs arbitrary: ms) (auto intro: put_message_wf)

lemma wf_messages_Nil [simp]: "wf_messages []"
  by (simp add: wf_messages_def)

text \<open>The appending fast path.\<close>

lemma owned_batch_put:
  "owned_batch ms xs = Some ms' \<Longrightarrow> ms' = fold put_message xs ms"
proof (induction xs arbitrary: ms)
  case (Cons x xs)
  then have "msg_role x \<noteq> RoleRemove" and "\<not> (msg_id x \<noteq> [] \<and> msg_id x \<in> msg_id ` set ms)"
    and rec: "owned_batch (ms @ [x]) xs = Some ms'"
    by (auto split: if_splits)
  then have "put_message x ms = ms @ [x]" by (auto simp: put_message_def is_reset_def)
  with Cons.IH [OF rec] show ?case by simp
qed simp

lemma owned_batches_put:
  "owned_batches ms xss = Some ms' \<Longrightarrow> ms' = fold put_message (concat xss) ms"
  by (induction xss arbitrary: ms) (auto split: option.splits dest: owned_batch_put)

lemma DeltaReduceOwned_refines:
  "wf_messages ms \<Longrightarrow> DeltaReduceOwned ms writes = Inr (fold put_message (concat writes) ms)"
  by (auto simp: DeltaReduceOwned_def deltaReduce_refines split: option.split dest: owned_batches_put)

lemma DeltaReduce_refines:
  "wf_messages ms \<Longrightarrow> DeltaReduce ms writes = Inr (fold put_message (concat writes) ms)"
  by (simp add: DeltaReduce_def deltaReduce_refines)


section \<open>The messages field of an agent\<close>

text \<open>
  The dynamic values the agent stores beside the ones of the runtime: a message slice, one
  message (an element of a \<^verbatim>\<open>[]any\<close>), a raw JSON text and everything else.
\<close>

datatype agentVal = AMessages "message list" | AMessage message | AMessagePtr "message option" | ARaw string | AOther nat

type_synonym aval = "agentVal gval"

text \<open>\<^verbatim>\<open>MessageFrom\<close>; \<^verbatim>\<open>json.Marshal\<close> is a parameter.\<close>

definition MessageFrom :: "(aval \<Rightarrow> string res) \<Rightarrow> aval \<Rightarrow> message res" where
  "MessageFrom json_Marshal v = (case v of
      VOpaque (AMessage m) \<Rightarrow> Inr m
    | VOpaque (AMessagePtr p) \<Rightarrow> (case p of None \<Rightarrow> Inr (msg_Human ''null'') | Some m \<Rightarrow> Inr m)
    | VStr t \<Rightarrow> Inr (msg_Human t)
    | _ \<Rightarrow> res_bind (res_wrap ''convert message to JSON'' (json_Marshal v)) (\<lambda>t. Inr (msg_Human t)))"

fun message_items :: "aval list \<Rightarrow> message list res" where
  "message_items [] = Inr []"
| "message_items (VOpaque (AMessage m) # xs) = res_bind (message_items xs) (\<lambda>ms. Inr (msg_Clone m # ms))"
| "message_items (x # xs) = Inl (Errorf ''agent messages[%d] has type %T'')"

definition messagesFrom :: "aval \<Rightarrow> message list res" where
  "messagesFrom v = (case v of
      VNil \<Rightarrow> Inr []
    | VOpaque (AMessages ms) \<Rightarrow> Inr (cloneMessages ms)
    | VSlice xs \<Rightarrow> message_items xs
    | _ \<Rightarrow> Inl (Errorf ''agent messages have type %T''))"

definition messagesView :: "aval \<Rightarrow> message list res" where
  "messagesView v = (case v of VOpaque (AMessages ms) \<Rightarrow> Inr ms | _ \<Rightarrow> messagesFrom v)"

definition cloneMessageValue :: "aval \<Rightarrow> aval" where
  "cloneMessageValue v = (case messagesFrom v of Inl e \<Rightarrow> v | Inr ms \<Rightarrow> VOpaque (AMessages ms))"

definition reduceMessages :: "aval \<Rightarrow> aval list \<Rightarrow> aval res" where
  "reduceMessages current writes =
     res_bind (messagesView current) (\<lambda>left.
     res_bind (map_res messagesView writes) (\<lambda>right.
     res_bind (DeltaReduce left right) (\<lambda>r. Inr (VOpaque (AMessages r)))))"

definition reduceMessagesOwned :: "aval \<Rightarrow> aval list \<Rightarrow> aval res" where
  "reduceMessagesOwned current writes =
     res_bind (messagesView current) (\<lambda>left.
     res_bind (map_res messagesView writes) (\<lambda>right.
     res_bind (DeltaReduceOwned left right) (\<lambda>r. Inr (VOpaque (AMessages r)))))"

definition messages_value :: "aval \<Rightarrow> bool" where
  "messages_value v = (case v of VOpaque (AMessages ms) \<Rightarrow> wf_messages ms | _ \<Rightarrow> False)"

lemma messagesView_eq_From: "messagesView v = messagesFrom v"
  by (simp add: messagesView_def messagesFrom_def split: gval.split agentVal.split)

lemma messagesFrom_slice: "messagesFrom (VOpaque (AMessages ms)) = Inr ms"
  by (simp add: messagesFrom_def)

lemma messagesFrom_clone: "messagesFrom (cloneMessageValue v) = messagesFrom v"
  by (simp add: cloneMessageValue_def messagesFrom_def split: sum.split gval.split agentVal.split)

lemma messages_value_conv: "messages_value v \<longleftrightarrow> (\<exists>ms. v = VOpaque (AMessages ms) \<and> wf_messages ms)"
  by (auto simp: messages_value_def split: gval.splits agentVal.splits)

text \<open>On well-formed states the reducer folds \<open>put_message\<close> over the written messages.\<close>

lemma reduceMessages_spec:
  assumes "wf_messages ms"
  shows "reduceMessages (VOpaque (AMessages ms)) writes =
    res_bind (map_res messagesFrom writes) (\<lambda>right. Inr (VOpaque (AMessages (fold put_message (concat right) ms))))"
  using assms by (simp add: reduceMessages_def
      messagesFrom_slice messagesView_eq_From [abs_def] DeltaReduce_refines)

lemma reduceMessagesOwned_eq:
  "messages_value s \<Longrightarrow> reduceMessagesOwned s writes = reduceMessages s writes"
  by (auto simp: reduceMessagesOwned_def reduceMessages_def messages_value_conv messagesFrom_slice
      messagesView_eq_From DeltaReduce_refines DeltaReduceOwned_refines)

interpretation msgs: batching_reducer reduceMessages cloneMessageValue messages_value
proof unfold_locales
  fix s assume "messages_value s"
  then obtain ms where s: "s = VOpaque (AMessages ms)" and wf: "wf_messages ms"
    by (auto simp: messages_value_conv)
  then show "cloneMessageValue s = s"
    by (simp add: cloneMessageValue_def messagesFrom_def)
  show "reduceMessages s (map cloneMessageValue ws) = reduceMessages s ws" for ws
    using wf by (simp add: s reduceMessages_spec map_res_map messagesFrom_clone)
  show "messages_value s'" if "reduceMessages s ws = Inr s'" for ws s'
    using that wf by (auto simp: s reduceMessages_spec res_simps messages_value_conv fold_put_message_wf)
  show "reduceMessages s' ys = reduceMessages s (xs @ ys)" if "reduceMessages s xs = Inr s'" for s' xs ys
  proof -
    from that wf obtain right where right: "map_res messagesFrom xs = Inr right"
      and s': "s' = VOpaque (AMessages (fold put_message (concat right) ms))"
      by (auto simp: s reduceMessages_spec res_simps)
    show ?thesis
      by (cases "map_res messagesFrom ys")
        (simp_all add: s s' right wf reduceMessages_spec map_res_append fold_put_message_wf)
  qed
qed

interpretation owned: batching_reducer reduceMessagesOwned cloneMessageValue messages_value
proof unfold_locales
  fix s assume s: "messages_value s"
  then show "cloneMessageValue s = s" by (rule msgs.ok_clone)
  show "reduceMessagesOwned s (map cloneMessageValue ws) = reduceMessagesOwned s ws" for ws
    using s by (simp add: reduceMessagesOwned_eq msgs.reduce_clone)
  show ok: "messages_value s'" if "reduceMessagesOwned s ws = Inr s'" for ws s'
    using that s by (auto simp: reduceMessagesOwned_eq intro: msgs.reduce_ok)
  show "reduceMessagesOwned s' ys = reduceMessagesOwned s (xs @ ys)" if "reduceMessagesOwned s xs = Inr s'" for s' xs ys
    using that s ok [OF that] msgs.batching [of s xs s' ys] by (simp add: reduceMessagesOwned_eq)
qed

section \<open>Merge against the delta reducer\<close>

text \<open>Without tombstones and missing identifiers the loop of \<^verbatim>\<open>Merge\<close> is that of \<^verbatim>\<open>deltaReduce\<close>.\<close>

lemma assign_ids_present:
  "\<forall>m \<in> set ms. msg_id m \<noteq> [] \<Longrightarrow> assign_ids w ids n ms = Inr (ms, n)"
  by (induction ms) auto

lemma index_all_messages:
  "\<forall>m \<in> set ms. msg_id m \<noteq> [] \<Longrightarrow> index_all i ms d = index_messages i ms d"
  by (induction ms arbitrary: i d) auto

lemma last_reset_none: "\<forall>m \<in> set ms. \<not> is_reset m \<Longrightarrow> last_reset i a ms = a"
  by (induction ms arbitrary: i a) auto

lemma merge_changes_reduce:
  "\<forall>m \<in> set changes. msg_id m \<noteq> [] \<and> msg_role m \<noteq> RoleRemove \<Longrightarrow>
   merge_changes changes base byID [] = Inr (fst (fold reduce_message changes (base, byID)), [])"
  by (induction changes arbitrary: base byID)
    (auto simp: reduce_message_def split: option.splits)

lemma fold_reduce_no_remove:
  assumes "\<forall>m \<in> set changes. msg_role m \<noteq> RoleRemove" and "\<forall>m \<in> set (fst st). msg_role m \<noteq> RoleRemove"
  shows "\<forall>m \<in> set (fst (fold reduce_message changes st)). msg_role m \<noteq> RoleRemove"
  using assms
proof (induction changes arbitrary: st)
  case (Cons c cs)
  have "set (fst (reduce_message c st)) \<subseteq> insert c (set (fst st))"
    using Cons.prems(1) set_update_subset_insert [of "fst st" _ c]
    by (auto simp: reduce_message_def Let_def split: option.splits)
  with Cons.prems have "\<forall>m \<in> set (fst (reduce_message c st)). msg_role m \<noteq> RoleRemove" by auto
  with Cons.IH [of "reduce_message c st"] Cons.prems(1) show ?case by simp
qed simp

lemma compact_no_remove: "\<forall>m \<in> set ms. msg_role m \<noteq> RoleRemove \<Longrightarrow> compact ms = ms"
  by (simp add: compact_def filter_id_conv)

text \<open>On a well-formed state, and for changes that carry identifiers and no tombstone,
  Merge calls no identifier generator and returns what DeltaReduce returns.\<close>

theorem Merge_eq_DeltaReduce:
  assumes "wf_messages left" and "\<forall>m \<in> set left \<union> set right. msg_id m \<noteq> []"
    and "\<forall>m \<in> set right. msg_role m \<noteq> RoleRemove"
  shows "msg_Merge ids left right = DeltaReduce left [right]"
proof -
  have "last_reset 0 (-1) right = -1"
    using assms(3) by (intro last_reset_none) (simp add: is_reset_def)
  moreover have "merge_changes right left (index_all 0 left []) [] =
      Inr (fst (fold reduce_message right (left, index_messages 0 left [])), [])"
    using assms by (simp add: index_all_messages merge_changes_reduce)
  moreover have "compact (fst (fold reduce_message right (left, index_messages 0 left []))) =
      fst (fold reduce_message right (left, index_messages 0 left []))"
    using assms(1,3) by (intro compact_no_remove fold_reduce_no_remove) (auto simp: wf_messages_def)
  ultimately show ?thesis using assms(2)
    by (simp add: msg_Merge_def assign_ids_present DeltaReduce_def deltaReduce_def)
qed

definition sample_human :: message where
  "sample_human = (msg_Human ''hi'')\<lparr>msg_id := ''m1''\<rparr>"

definition sample_reply :: message where
  "sample_reply = (msg_Assistant ''hello'')\<lparr>msg_id := ''m2''\<rparr>"

lemmas sample_defs = sample_human_def sample_reply_def msg_Human_def msg_Assistant_def msg_Text_def
  empty_message_def empty_block_def

lemma sample_ids [simp]: "msg_id sample_human = ''m1''" "msg_id sample_reply = ''m2''"
    "msg_role sample_human = RoleHuman" "msg_role sample_reply = RoleAssistant"
  by (simp_all add: sample_defs)

theorem Merge_eq_DeltaReduce_witness:
  "msg_Merge (\<lambda>_. Inl ErrEmpty) [sample_human] [sample_reply, sample_human] =
     DeltaReduce [sample_human] [[sample_reply, sample_human]]"
  by (rule Merge_eq_DeltaReduce) (simp_all add: wf_messages_def)

text \<open>Errors and resets of \<^verbatim>\<open>Merge\<close>.\<close>

lemma merge_changes_unknown:
  assumes "map_of byID (msg_id m) = None" and "msg_role m = RoleRemove"
    and "\<forall>x \<in> set xs. msg_id x \<noteq> msg_id m"
  shows "merge_changes (xs @ m # ys) base byID removed = Inl (Wrapf ''%w %q'' ErrRemoveUnknownMessage)"
  using assms
proof (induction xs arbitrary: base byID removed)
  case (Cons x xs)
  then show ?case by (cases "map_of byID (msg_id x)") auto
qed simp

lemma index_all_None:
  "map_of (index_all i ms d) k = None \<longleftrightarrow> map_of d k = None \<and> k \<notin> msg_id ` set ms"
  by (induction ms arbitrary: i d) auto

text \<open>A tombstone for an identifier that neither the state nor an earlier change has is an
  error of Merge, ErrRemoveUnknownMessage, whatever the other changes are.\<close>

theorem Merge_unknown_removal:
  assumes "msg_role m = RoleRemove" and "msg_id m \<notin> msg_id ` (set left \<union> set xs)"
    and "\<forall>x \<in> set left \<union> set (xs @ m # ys). msg_id x \<noteq> [] \<and> \<not> is_reset x"
  shows "msg_Merge ids left (xs @ m # ys) = Inl (Wrapf ''%w %q'' ErrRemoveUnknownMessage)"
proof -
  have "last_reset 0 (-1) (xs @ m # ys) = -1" using assms(3) by (intro last_reset_none) auto
  moreover have "merge_changes (xs @ m # ys) left (index_all 0 left []) [] =
      Inl (Wrapf ''%w %q'' ErrRemoveUnknownMessage)"
    using assms(1,2) by (intro merge_changes_unknown) (auto simp: index_all_None image_iff dest: bspec [OF _ UnI2])
  moreover have "assign_ids ''assign new message id'' ids 0 (xs @ m # ys) = Inr (xs @ m # ys, 0)"
    using assms(3) by (intro assign_ids_present) auto
  ultimately show ?thesis
    using assms(3) by (simp add: msg_Merge_def assign_ids_present)
qed

theorem Merge_unknown_removal_witness:
  "msg_Merge (\<lambda>_. Inl ErrEmpty) [sample_human] ([sample_reply] @ msg_Remove ''m3'' # []) =
     Inl (Wrapf ''%w %q'' ErrRemoveUnknownMessage)"
  by (rule Merge_unknown_removal) (simp_all add: is_reset_def msg_Remove_def RemoveAllMessages_def)

lemma last_reset_append_reset:
  "is_reset m \<Longrightarrow> \<forall>x \<in> set ys. \<not> is_reset x \<Longrightarrow> last_reset i a (xs @ m # ys) = int (i + length xs)"
  by (induction xs arbitrary: i a) (auto simp: last_reset_none)

text \<open>The last reset tombstone of the changes drops the whole state and every change before
  it; the changes after it are the result. DeltaReduce agrees when those changes are well formed.\<close>

theorem Merge_reset:
  assumes "is_reset m" and "\<forall>x \<in> set ys. \<not> is_reset x"
    and "\<forall>x \<in> set left \<union> set xs \<union> set ys. msg_id x \<noteq> []"
  shows "msg_Merge ids left (xs @ m # ys) = Inr ys"
proof -
  from assms(1) have "msg_id m \<noteq> []" by (simp add: is_reset_def RemoveAllMessages_def)
  with assms(3) have "assign_ids ''assign new message id'' ids 0 (xs @ m # ys) = Inr (xs @ m # ys, 0)"
    by (intro assign_ids_present) auto
  moreover have "last_reset 0 (-1) (xs @ m # ys) = int (length xs)"
    using assms(1,2) by (simp add: last_reset_append_reset)
  ultimately show ?thesis
    using assms(3) by (simp add: msg_Merge_def assign_ids_present nat_add_distrib flip: of_nat_Suc)
qed

theorem Merge_reset_witness:
  "msg_Merge (\<lambda>_. Inl ErrEmpty) [sample_human] ([sample_human] @ msg_Remove RemoveAllMessages # [sample_reply]) =
     Inr [sample_reply]"
  by (rule Merge_reset) (simp_all add: is_reset_def msg_Remove_def)

text \<open>C4: the delta reducer implements the abstract message list. On a well-formed state, the index
  map, the tombstones left in place and the final compaction compute the fold of the one-message
  update over the concatenated batches: an unknown identifier appends, a known one is replaced where
  it stands, a tombstone removes it, an unknown tombstone is ignored and a reset clears the list.\<close>

theorem DeltaReduce_refines_put_message:
  "wf_messages state \<Longrightarrow> DeltaReduce state writes = Inr (fold put_message (concat writes) state)"
  by (rule DeltaReduce_refines)

theorem DeltaReduce_refines_put_message_witness:
  "DeltaReduce [sample_human] [[sample_reply], [msg_Remove ''m1'']] =
     Inr (fold put_message (concat [[sample_reply], [msg_Remove ''m1'']]) [sample_human])"
  by (rule DeltaReduce_refines_put_message) (simp add: wf_messages_def)

text \<open>The reducer law the delta channel relies on. Reducing further batches on the result of
  a reduction is reducing all batches at once, and the state stays well formed.\<close>

theorem DeltaReduce_batching:
  assumes "wf_messages state" and "DeltaReduce state xs = Inr state'"
  shows "wf_messages state' \<and> DeltaReduce state' ys = DeltaReduce state (xs @ ys)"
  using assms by (auto simp: DeltaReduce_refines fold_put_message_wf)

theorem DeltaReduce_batching_witness:
  "wf_messages [sample_human, sample_reply] \<and>
   DeltaReduce [sample_human, sample_reply] [[msg_Remove ''m1'']] =
     DeltaReduce [sample_human] ([[sample_reply]] @ [[msg_Remove ''m1'']])"
proof (rule DeltaReduce_batching)
  show wf: "wf_messages [sample_human]" by (simp add: wf_messages_def)
  show "DeltaReduce [sample_human] [[sample_reply]] = Inr [sample_human, sample_reply]"
    using wf by (simp add: DeltaReduce_refines put_message_def is_reset_def)
qed

text \<open>C30: the in-place reducer of retained threads returns what the copying reducer returns.\<close>

theorem DeltaReduceOwned_eq_DeltaReduce:
  "wf_messages state \<Longrightarrow> DeltaReduceOwned state writes = DeltaReduce state writes"
  by (simp add: DeltaReduceOwned_refines DeltaReduce_refines)

theorem DeltaReduceOwned_eq_DeltaReduce_witness:
  "DeltaReduceOwned [sample_human] [[sample_reply], [sample_human]] =
     DeltaReduce [sample_human] [[sample_reply], [sample_human]]"
  by (rule DeltaReduceOwned_eq_DeltaReduce) (simp add: wf_messages_def)

text \<open>
  The channel of the messages field as \<^verbatim>\<open>dagent.New\<close> registers it; \<open>retain\<close> is
  \<^verbatim>\<open>Options.RetainThreadState\<close>.
\<close>

definition messages_delta :: "bool \<Rightarrow> aval delta" where
  "messages_delta retain = \<lparr>d_initial = VOpaque (AMessages []),
     d_reduce = (if retain then reduceMessagesOwned else reduceMessages), d_clone = cloneMessageValue,
     d_snapshotFrequency = 100, d_ownedReducerInput = retain, d_cell = None\<rparr>"

text \<open>A superstep's writes that replay can reproduce: an overwrite carries a message list and no
  update follows it.\<close>

definition replayable :: "aval deltaWrite list \<Rightarrow> bool" where
  "replayable ws \<longleftrightarrow>
     list_all (\<lambda>w. if IsOverwrite w then messages_value (cloneMessageValue (writeValue w)) else True) ws \<and>
     (filter IsOverwrite ws = [] \<or> trailing_updates ws = [])"

lemma replayable_good:
  "replayable ws \<Longrightarrow> msgs.good_writes ws \<and> msgs.overwrite_last ws"
  "replayable ws \<Longrightarrow> owned.good_writes ws \<and> owned.overwrite_last ws"
  by (auto simp: replayable_def msgs.good_writes_def msgs.overwrite_last_def
      owned.good_writes_def owned.overwrite_last_def list_all_iff split: if_splits)



text \<open>Filling in identifiers.\<close>

lemma ensure_ids_map:
  "length (ensure_ids uuids fallback n ms) = length ms"
  "map msg_role (ensure_ids uuids fallback n ms) = map msg_role ms"
  by (induction ms arbitrary: n) auto

lemma ensure_ids_nonempty:
  assumes "\<forall>j. fresh_id uuids fallback j \<noteq> []"
  shows "m \<in> set (ensure_ids uuids fallback n ms) \<Longrightarrow> msg_id m \<noteq> [] \<or> msg_role m = RoleRemove"
  using assms by (induction ms arbitrary: n) (auto split: if_splits)

lemma ensure_ids_origin:
  "m \<in> set (ensure_ids uuids fallback n ms) \<Longrightarrow>
   msg_id m \<in> msg_id ` set ms \<or> (\<exists>j \<ge> n. msg_id m = fresh_id uuids fallback j)"
proof (induction ms arbitrary: n)
  case (Cons x xs)
  show ?case
  proof (cases "msg_id x \<noteq> [] \<or> msg_role x = RoleRemove")
    case True
    with Cons.prems Cons.IH [of n] show ?thesis by auto
  next
    case False
    with Cons.prems have "msg_id m = fresh_id uuids fallback n \<or> m \<in> set (ensure_ids uuids fallback (Suc n) xs)"
      by auto
    with Cons.IH [of "Suc n"] show ?thesis by (meson Suc_leD dual_order.refl image_mono insertI2 list.set_intros(2) set_subset_Cons subsetD)
  qed
qed simp

lemma ensure_ids_distinct:
  assumes "inj (fresh_id uuids fallback)" and "range (fresh_id uuids fallback) \<inter> msg_id ` set ms = {}"
    and "distinct (filter (\<lambda>i. i \<noteq> []) (map msg_id ms))"
  shows "distinct (filter (\<lambda>i. i \<noteq> []) (map msg_id (ensure_ids uuids fallback n ms)))"
  using assms(2,3)
proof (induction ms arbitrary: n)
  case (Cons m ms)
  have IH: "distinct (filter (\<lambda>i. i \<noteq> []) (map msg_id (ensure_ids uuids fallback k ms)))" for k
    using Cons.prems by (intro Cons.IH) (auto split: if_splits)
  show ?case
  proof (cases "msg_id m \<noteq> [] \<or> msg_role m = RoleRemove")
    case True
    have "msg_id m \<noteq> [] \<Longrightarrow> msg_id m \<notin> msg_id ` set (ensure_ids uuids fallback n ms)"
      using Cons.prems by (auto dest!: ensure_ids_origin)
    with True IH [of n] show ?thesis by auto
  next
    case False
    have "fresh_id uuids fallback n \<notin> msg_id ` set (ensure_ids uuids fallback (Suc n) ms)"
    proof
      assume "fresh_id uuids fallback n \<in> msg_id ` set (ensure_ids uuids fallback (Suc n) ms)"
      then consider "fresh_id uuids fallback n \<in> msg_id ` set ms"
        | j where "Suc n \<le> j" "fresh_id uuids fallback n = fresh_id uuids fallback j"
        using ensure_ids_origin by (metis (no_types, lifting) imageE)
      then show False
      proof cases
        case 1
        with Cons.prems(1) show False by (auto simp: disjoint_iff)
      next
        case 2
        with injD [OF assms(1)] show False by fastforce
      qed
    qed
    with False IH [of "Suc n"] show ?thesis by auto
  qed
qed simp

text \<open>EnsureIDs gives every message of a conversation an identifier and keeps their number. With a
  generator whose texts are non-empty, never repeat and are not in use, the result is a state on
  which the reducers are exact.\<close>

theorem EnsureIDs_wf:
  assumes "inj (fresh_id uuids fallback)" and "\<forall>j. fresh_id uuids fallback j \<noteq> []"
    and "range (fresh_id uuids fallback) \<inter> msg_id ` set ms = {}" and "wf_messages ms"
  shows "wf_messages (EnsureIDs uuids fallback ms) \<and> length (EnsureIDs uuids fallback ms) = length ms \<and>
    list_all (\<lambda>m. msg_id m \<noteq> []) (EnsureIDs uuids fallback ms)"
proof -
  have "list_all (\<lambda>r. r \<noteq> RoleRemove) (map msg_role (ensure_ids uuids fallback 0 ms))"
    unfolding ensure_ids_map using assms(4) by (simp add: list_all_iff wf_messages_def)
  then have "\<forall>m \<in> set (ensure_ids uuids fallback 0 ms). msg_role m \<noteq> RoleRemove"
    by (simp add: list_all_iff)
  then show ?thesis
    using assms(1,3,4) ensure_ids_nonempty [OF assms(2)]
    by (auto simp: EnsureIDs_def wf_messages_def ensure_ids_map ensure_ids_distinct list_all_iff)
qed

theorem EnsureIDs_wf_witness:
  "wf_messages (EnsureIDs (\<lambda>j. Inr (replicate (Suc j) CHR ''u'')) (\<lambda>_. []) [sample_human, msg_Human ''x''])"
proof (rule EnsureIDs_wf [THEN conjunct1])
  have f: "fresh_id (\<lambda>j. Inr (replicate (Suc j) CHR ''u'')) (\<lambda>_. []) = (\<lambda>j. replicate (Suc j) CHR ''u'')"
    by (rule ext) (simp add: fresh_id_def)
  show "inj (fresh_id (\<lambda>j. Inr (replicate (Suc j) CHR ''u'')) (\<lambda>_. []))"
    unfolding f by (rule injI) (metis length_replicate nat.inject)
  show "\<forall>j. fresh_id (\<lambda>j. Inr (replicate (Suc j) CHR ''u'')) (\<lambda>_. []) j \<noteq> []"
    unfolding f by simp
  have h: "msg_id (msg_Human ''x'') = []" "msg_role (msg_Human ''x'') = RoleHuman"
    by (simp_all add: sample_defs)
  then show "range (fresh_id (\<lambda>j. Inr (replicate (Suc j) CHR ''u'')) (\<lambda>_. [])) \<inter>
      msg_id ` set [sample_human, msg_Human ''x''] = {}"
    unfolding f by auto
  show "wf_messages [sample_human, msg_Human ''x'']" by (simp add: wf_messages_def h)
qed

end
