(* ===== verification/Checkpoint_Types.thy ===== *)
theory Checkpoint_Types
  imports Go_Values Go_Strings Delta_Channel
begin

text \<open>
  The durable records of \<^verbatim>\<open>dacheckpoint\<close> (\<^verbatim>\<open>checkpoint.go\<close>, \<^verbatim>\<open>clone.go\<close>, \<^verbatim>\<open>id.go\<close>): checkpoint
  configurations, metadata, pending writes and tuples, their copies and orders, the sortable
  identifiers of \<^verbatim>\<open>NewID\<close> and the channel versions of \<^verbatim>\<open>NextVersion\<close>. A nil Go map and an empty
  one read alike and are both the empty list.
\<close>

section \<open>Constants and addresses\<close>

definition LatestVersion :: int where "LatestVersion = 4"

definition ChannelError :: string where "ChannelError = ''__error__''"
definition ChannelScheduled :: string where "ChannelScheduled = ''__scheduled__''"
definition ChannelInterrupt :: string where "ChannelInterrupt = ''__interrupt__''"
definition ChannelResume :: string where "ChannelResume = ''__resume__''"
definition ChannelTasks :: string where "ChannelTasks = ''__pregel_tasks''"

lemmas channel_defs = ChannelError_def ChannelScheduled_def ChannelInterrupt_def ChannelResume_def
  ChannelTasks_def

definition specialWriteIndexes :: "(string, int) dict" where
  "specialWriteIndexes =
     [(ChannelError, -1), (ChannelScheduled, -2), (ChannelInterrupt, -3), (ChannelResume, -4)]"

definition SpecialWriteIndex :: "string \<Rightarrow> int option" where
  "SpecialWriteIndex channel = map_of specialWriteIndexes channel"

record config =
  cf_threadID :: string
  cf_namespace :: string
  cf_checkpointID :: string

definition empty_config :: config where
  "empty_config = \<lparr>cf_threadID = [], cf_namespace = [], cf_checkpointID = []\<rparr>"

definition config_Validate :: "config \<Rightarrow> unit res" where
  "config_Validate c =
     (if cf_threadID c = [] then Inl (Wrapf ''%w: thread id is required'' ErrInvalidConfig) else Inr ())"

section \<open>Records\<close>

type_synonym counters = "(string, deltaSnapshotCounter) dict"

record 'x metadata =
  md_source :: string
  md_step :: int
  md_parents :: "(string, string) dict"
  md_runID :: string
  md_counters :: counters
  md_extra :: "'x vals"

definition empty_metadata :: "'x metadata" where
  "empty_metadata = \<lparr>md_source = [], md_step = 0, md_parents = [], md_runID = [], md_counters = [],
     md_extra = []\<rparr>"

record 'x checkpoint =
  cp_version :: int
  cp_id :: string
  cp_timestamp :: string
  cp_channelValues :: "'x vals"
  cp_channelVersions :: "(string, string) dict"
  cp_versionsSeen :: "(string, (string, string) dict) dict"
  cp_updatedChannels :: "string list"

definition empty_checkpoint :: "'x checkpoint" where
  "empty_checkpoint = \<lparr>cp_version = 0, cp_id = [], cp_timestamp = [], cp_channelValues = [],
     cp_channelVersions = [], cp_versionsSeen = [], cp_updatedChannels = []\<rparr>"

record 'x channelWrite =
  cw_channel :: string
  cw_value :: "'x gval"

record 'x pendingWrite =
  pw_taskID :: string
  pw_taskPath :: string
  pw_index :: int
  pw_channel :: string
  pw_value :: "'x gval"

record 'x tuple =
  tp_config :: config
  tp_checkpoint :: "'x checkpoint"
  tp_metadata :: "'x metadata"
  tp_parent :: "config option"
  tp_pendingWrites :: "'x pendingWrite list"

record 'x deltaHistory =
  dh_seed :: "'x gval"
  dh_hasSeed :: bool
  dh_writes :: "'x pendingWrite list"

definition empty_history :: "'x deltaHistory" where
  "empty_history = \<lparr>dh_seed = VNil, dh_hasSeed = False, dh_writes = []\<rparr>"

record 'x listOptions =
  lo_metadata :: "'x vals"
  lo_before :: "config option"
  lo_limit :: int

definition DefaultListLimit :: int where "DefaultListLimit = 100"

definition Normalized :: "'x listOptions \<Rightarrow> 'x listOptions res" where
  "Normalized options =
     (if lo_limit options < 0 then Inl (Errorf ''checkpoint list limit cannot be negative'')
      else if lo_limit options = 0 then Inr (options\<lparr>lo_limit := DefaultListLimit\<rparr>)
      else Inr options)"

datatype pruneStrategy = PruneKeepLatest | PruneDelete | PruneOther string

section \<open>Deep equality\<close>

text \<open>
  \<^verbatim>\<open>reflect.DeepEqual\<close> on the modelled values: same dynamic type and equal contents, maps by
  key, floats by Go's numeric equality (so a NaN differs from itself). The comparison of
  application values is a parameter.
\<close>

definition f64_nan :: "64 word \<Rightarrow> bool" where
  "f64_nan w \<longleftrightarrow> 0x7FF0000000000000 < and w 0x7FFFFFFFFFFFFFFF"

definition f64_eq :: "64 word \<Rightarrow> 64 word \<Rightarrow> bool" where
  "f64_eq a b \<longleftrightarrow> \<not> f64_nan a \<and> \<not> f64_nan b \<and>
     (a = b \<or> and a 0x7FFFFFFFFFFFFFFF = 0 \<and> and b 0x7FFFFFFFFFFFFFFF = 0)"

definition f32_nan :: "32 word \<Rightarrow> bool" where
  "f32_nan w \<longleftrightarrow> 0x7F800000 < and w 0x7FFFFFFF"

definition f32_eq :: "32 word \<Rightarrow> 32 word \<Rightarrow> bool" where
  "f32_eq a b \<longleftrightarrow> \<not> f32_nan a \<and> \<not> f32_nan b \<and>
     (a = b \<or> and a 0x7FFFFFFF = 0 \<and> and b 0x7FFFFFFF = 0)"

fun deep_equal :: "('x \<Rightarrow> 'x \<Rightarrow> bool) \<Rightarrow> 'x gval \<Rightarrow> 'x gval \<Rightarrow> bool"
  and deep_equal_list :: "('x \<Rightarrow> 'x \<Rightarrow> bool) \<Rightarrow> 'x gval list \<Rightarrow> 'x gval list \<Rightarrow> bool"
  and deep_equal_map :: "('x \<Rightarrow> 'x \<Rightarrow> bool) \<Rightarrow> (string \<times> 'x gval) list \<Rightarrow> (string \<times> 'x gval) list \<Rightarrow> bool" where
  "deep_equal eq VNil w = (case w of VNil \<Rightarrow> True | _ \<Rightarrow> False)"
| "deep_equal eq (VBool a) w = (case w of VBool b \<Rightarrow> a = b | _ \<Rightarrow> False)"
| "deep_equal eq (VStr a) w = (case w of VStr b \<Rightarrow> a = b | _ \<Rightarrow> False)"
| "deep_equal eq (VBytes a) w = (case w of VBytes b \<Rightarrow> a = b | _ \<Rightarrow> False)"
| "deep_equal eq (VInt a) w = (case w of VInt b \<Rightarrow> a = b | _ \<Rightarrow> False)"
| "deep_equal eq (VUint a) w = (case w of VUint b \<Rightarrow> a = b | _ \<Rightarrow> False)"
| "deep_equal eq (VFloat32 a) w = (case w of VFloat32 b \<Rightarrow> f32_eq a b | _ \<Rightarrow> False)"
| "deep_equal eq (VFloat64 a) w = (case w of VFloat64 b \<Rightarrow> f64_eq a b | _ \<Rightarrow> False)"
| "deep_equal eq (VSlice a) w = (case w of VSlice b \<Rightarrow> deep_equal_list eq a b | _ \<Rightarrow> False)"
| "deep_equal eq (VMap a) w = (case w of VMap b \<Rightarrow> length a = length b \<and> deep_equal_map eq a b | _ \<Rightarrow> False)"
| "deep_equal eq (VSnapshot a) w = (case w of VSnapshot b \<Rightarrow> deep_equal eq a b | _ \<Rightarrow> False)"
| "deep_equal eq (VOverwrite a) w = (case w of VOverwrite b \<Rightarrow> deep_equal eq a b | _ \<Rightarrow> False)"
| "deep_equal eq (VBatch a) w = (case w of VBatch b \<Rightarrow> deep_equal_list eq a b | _ \<Rightarrow> False)"
| "deep_equal eq (VOpaque a) w = (case w of VOpaque b \<Rightarrow> eq a b | _ \<Rightarrow> False)"
| "deep_equal_list eq [] bs = (bs = [])"
| "deep_equal_list eq (a # as) bs =
     (case bs of [] \<Rightarrow> False | b # bs' \<Rightarrow> deep_equal eq a b \<and> deep_equal_list eq as bs')"
| "deep_equal_map eq [] b = True"
| "deep_equal_map eq (kv # as) b =
     ((case map_of b (fst kv) of None \<Rightarrow> False | Some w \<Rightarrow> deep_equal eq (snd kv) w) \<and> deep_equal_map eq as b)"

definition metadataMatches :: "('x \<Rightarrow> 'x \<Rightarrow> bool) \<Rightarrow> 'x metadata \<Rightarrow> 'x vals \<Rightarrow> bool" where
  "metadataMatches eq metadata flt =
     (if flt = [] then True
      else
        let values0 = [(''source'', VStr (md_source metadata)),
              (''step'', VInt (word_of_int (md_step metadata))), (''run_id'', VStr (md_runID metadata))];
            values = fold (\<lambda>(k, v). dput k v) (md_extra metadata) values0
        in list_all (\<lambda>(key, want). deep_equal eq (dget VNil values key) want) flt)"

text \<open>\<^verbatim>\<open>sortWrites\<close>: a stable sort by task path, task identifier and index.\<close>

definition write_order :: "'x pendingWrite \<Rightarrow> string \<times> string \<times> int" where
  "write_order w = (pw_taskPath w, pw_taskID w, pw_index w)"

definition sortWrites :: "'x pendingWrite list \<Rightarrow> 'x pendingWrite list" where
  "sortWrites ws = sort_key write_order ws"

section \<open>Copies\<close>

definition cloneStringMap :: "(string, string) dict \<Rightarrow> (string, string) dict" where
  "cloneStringMap d = map (\<lambda>(k, v). (k, v)) d"

definition cloneStringAnyMap :: "'x vals \<Rightarrow> 'x vals" where
  "cloneStringAnyMap d = map (\<lambda>(k, v). (k, clone_any v)) d"

definition cloneCheckpoint :: "'x checkpoint \<Rightarrow> 'x checkpoint" where
  "cloneCheckpoint c = c\<lparr>cp_channelValues := cloneStringAnyMap (cp_channelValues c),
     cp_channelVersions := cloneStringMap (cp_channelVersions c),
     cp_versionsSeen := map (\<lambda>(k, vs). (k, cloneStringMap vs)) (cp_versionsSeen c),
     cp_updatedChannels := [] @ cp_updatedChannels c\<rparr>"

definition cloneMetadata :: "'x metadata \<Rightarrow> 'x metadata" where
  "cloneMetadata m = m\<lparr>md_parents := cloneStringMap (md_parents m),
     md_counters := map (\<lambda>(k, c). (k, c)) (md_counters m),
     md_extra := cloneStringAnyMap (md_extra m)\<rparr>"

lemma cloneStringMap_id [simp]: "cloneStringMap d = d"
  by (simp add: cloneStringMap_def)

lemma cloneStringAnyMap_id [simp]: "cloneStringAnyMap d = d"
  by (simp add: cloneStringAnyMap_def)

lemma cloneCheckpoint_id [simp]: "cloneCheckpoint c = c"
  by (simp add: cloneCheckpoint_def)

lemma cloneMetadata_id [simp]: "cloneMetadata m = m"
  by (simp add: cloneMetadata_def)

section \<open>Identifiers\<close>

definition gregorianUnixOffset100ns :: "64 word" where
  "gregorianUnixOffset100ns = 0x01b21dd213814000"

text \<open>
  \<^verbatim>\<open>NewID\<close>: \<open>unixNano\<close> is the clock reading, \<open>prev\<close> the shared \<^verbatim>\<open>idClock\<close>, \<open>random\<close> the six bytes of
  \<^verbatim>\<open>crypto/rand\<close> or its error. The new clock value is returned beside the identifier.
\<close>

definition id_clock :: "int \<Rightarrow> 64 word \<Rightarrow> 64 word" where
  "id_clock unixNano prev =
     (let now = word_of_int (if unixNano < 0 then - (- unixNano div 100) else unixNano div 100) +
            gregorianUnixOffset100ns
      in if now \<le> prev then prev + 1 else now)"

definition id_text :: "64 word \<Rightarrow> int \<Rightarrow> nat list \<Rightarrow> string" where
  "id_text now step random =
     hex_bytes (be_bytes 4 (unat (drop_bit 28 now) mod 2 ^ 32)) @ ''-'' @
     hex_bytes (be_bytes 2 (unat (drop_bit 12 now) mod 2 ^ 16)) @ ''-'' @
     hex_bytes (be_bytes 2 (unat (or (and now 0x0fff) 0x6000))) @ ''-'' @
     hex_bytes (be_bytes 2 (unat (or (and (word_of_int step) 0x3fff) 0x8000 :: 16 word))) @ ''-'' @
     hex_bytes random"

definition NewID :: "int \<Rightarrow> nat list res \<Rightarrow> int \<Rightarrow> 64 word \<Rightarrow> 64 word \<times> string res" where
  "NewID unixNano random step prev =
     (let now = id_clock unixNano prev
      in (now, res_bind (res_wrap ''generate checkpoint id'' random) (\<lambda>r. Inr (id_text now step r))))"

text \<open>
  \<^verbatim>\<open>NextVersion\<close>: \<^verbatim>\<open>big.Int.SetString\<close> reads an optional sign and decimal digits; the random
  fraction printed by \<^verbatim>\<open>strconv.FormatFloat\<close> is a parameter.
\<close>

definition parse_bigint :: "string \<Rightarrow> int option" where
  "parse_bigint s =
     (let negative = (s \<noteq> [] \<and> hd s = CHR ''-'');
          digits = (if s \<noteq> [] \<and> (hd s = CHR ''-'' \<or> hd s = CHR ''+'') then tl s else s)
      in if digits = [] then None
         else map_option (\<lambda>n. if negative then - int n else int n) (parse_digits 0 digits))"

definition bigint_string :: "int \<Rightarrow> string" where
  "bigint_string i = (if i < 0 then CHR ''-'' # dec_string (nat (- i)) else dec_string (nat i))"

definition version_prefix :: "string \<Rightarrow> string" where
  "version_prefix v = takeWhile (\<lambda>c. c \<noteq> CHR ''.'') v"

definition NextVersion :: "string res \<Rightarrow> string \<Rightarrow> string res" where
  "NextVersion fraction current =
     (case (if current = [] then Some 0 else parse_bigint (version_prefix current)) of
        None \<Rightarrow> Inl (Errorf ''parse channel version %q'')
      | Some integer \<Rightarrow>
          let prefix = pad_left (CHR ''0'') 32 (bigint_string (integer + 1))
          in res_bind (res_wrap ''generate channel version'' fraction)
               (\<lambda>f. Inr (prefix @ ''.'' @ pad_left (CHR ''0'') 16 f)))"

section \<open>Identifiers sort by creation\<close>

lemma id_clock_greater: "prev < - 1 \<Longrightarrow> prev < id_clock t prev"
proof -
  assume "prev < - 1"
  then have "unat prev < 2 ^ 64 - 1"
    by (simp add: word_less_nat_alt unsigned_minus_1_eq_mask mask_eq_exp_minus_1)
  then have "prev < prev + 1" by (simp add: word_less_nat_alt unat_word_ariths)
  then show ?thesis by (auto simp: id_clock_def Let_def)
qed

text \<open>The time fields of the identifier as numbers.\<close>

lemma id_time_fields:
  fixes now :: "64 word"
  shows "unat (drop_bit 28 now) = unat now div 2 ^ 28" "unat (drop_bit 12 now) = unat now div 2 ^ 12"
    "unat (or (and now 0x0fff) 0x6000) = unat now mod 2 ^ 12 + 0x6000"
proof -
  show "unat (drop_bit 28 now) = unat now div 2 ^ 28" "unat (drop_bit 12 now) = unat now div 2 ^ 12"
    by (simp_all only: unat_drop_bit_eq) (simp_all only: drop_bit_eq_div)
  have m: "(0x0fff :: 64 word) = mask 12" by (simp add: mask_eq_exp_minus_1)
  have disj: "and (and now 0x0fff) (0x6000 :: 64 word) = 0"
  proof (rule bit_word_eqI)
    fix n
    have "(0x6000 :: 64 word) = push_bit 12 6" by (simp add: push_bit_eq_mult)
    moreover have "and now 0x0fff = take_bit 12 now" by (simp add: m flip: take_bit_eq_mask)
    ultimately show "bit (and (and now 0x0fff) (0x6000 :: 64 word)) n \<longleftrightarrow> bit (0 :: 64 word) n"
      by (simp only: bit_and_iff bit_take_bit_iff bit_push_bit_iff bit_0_eq bot_apply bot_bool_def) auto
  qed
  have "or (and now 0x0fff) 0x6000 = and now 0x0fff + (0x6000 :: 64 word)"
    using disj by (rule disjunctive_add_eq_or [symmetric])
  moreover have "unat (and now 0x0fff) = unat now mod 2 ^ 12"
    by (simp add: m unat_mod_distrib take_bit_eq_mod flip: take_bit_eq_mask)
  moreover have "unat (and now 0x0fff + (0x6000 :: 64 word)) = unat (and now 0x0fff) + 0x6000"
    using calculation(2) by (simp add: unat_word_ariths)
  ultimately show "unat (or (and now 0x0fff) 0x6000) = unat now mod 2 ^ 12 + 0x6000" by simp
qed

lemma id_text_less:
  assumes "a < b" and "unat b < 2 ^ 60"
  shows "id_text a s r < id_text b s' r'"
proof -
  let ?a = "unat a" and ?b = "unat b"
  have ab: "?a < ?b" using assms(1) by (simp add: word_less_nat_alt)
  have hi: "?b div 2 ^ 28 < 2 ^ 32" using assms(2) by (simp add: less_mult_imp_div_less)
  have hi': "?a div 2 ^ 28 < 2 ^ 32" using assms(2) ab by (simp add: less_mult_imp_div_less)
  have split_hi: "x div 2 ^ 28 = x div 2 ^ 12 div 2 ^ 16" for x :: nat
    by (simp add: div_mult2_eq [symmetric])
  consider (hi) "?a div 2 ^ 28 < ?b div 2 ^ 28"
    | (mid) "?a div 2 ^ 28 = ?b div 2 ^ 28" "?a div 2 ^ 12 mod 2 ^ 16 < ?b div 2 ^ 12 mod 2 ^ 16"
    | (lo) "?a div 2 ^ 28 = ?b div 2 ^ 28" "?a div 2 ^ 12 mod 2 ^ 16 = ?b div 2 ^ 12 mod 2 ^ 16"
       "?a mod 2 ^ 12 < ?b mod 2 ^ 12"
  proof -
    from div_mod_less [OF ab, of "2 ^ 12"] show thesis
    proof
      assume "?a div 2 ^ 12 < ?b div 2 ^ 12"
      from div_mod_less [OF this, of "2 ^ 16"] show thesis
        unfolding split_hi [symmetric] using hi mid by blast
    next
      assume "?a div 2 ^ 12 = ?b div 2 ^ 12 \<and> ?a mod 2 ^ 12 < ?b mod 2 ^ 12"
      then show thesis using lo split_hi by simp
    qed
  qed
  then show ?thesis
  proof cases
    case hi
    have "hex_bytes (be_bytes 4 (?a div 2 ^ 28)) < hex_bytes (be_bytes 4 (?b div 2 ^ 28))"
      using hi \<open>?b div 2 ^ 28 < 2 ^ 32\<close> by (intro hex_be_less) simp_all
    with hi' \<open>?b div 2 ^ 28 < 2 ^ 32\<close> show ?thesis
      by (simp add: id_text_def id_time_fields less_append_iff)
  next
    case mid
    have "hex_bytes (be_bytes 2 (?a div 2 ^ 12 mod 2 ^ 16)) < hex_bytes (be_bytes 2 (?b div 2 ^ 12 mod 2 ^ 16))"
      using mid(2) by (intro hex_be_less) simp_all
    with mid(1) show ?thesis
      by (simp add: id_text_def id_time_fields less_append_iff)
  next
    case lo
    have "?b mod 2 ^ 12 < 2 ^ 12" by simp
    then have "hex_bytes (be_bytes 2 (?a mod 2 ^ 12 + 0x6000)) < hex_bytes (be_bytes 2 (?b mod 2 ^ 12 + 0x6000))"
      using lo(3) by (intro hex_be_less) simp_all
    with lo(1,2) show ?thesis
      by (simp add: id_text_def id_time_fields less_append_iff)
  qed
qed

lemma NewID_Inr:
  "NewID t r s prev = (c, Inr i) \<longleftrightarrow> (\<exists>b. r = Inr b \<and> c = id_clock t prev \<and> i = id_text c s b)"
  by (cases r; cases "c = id_clock t prev") (simp_all add: NewID_def Let_def eq_commute)

text \<open>C31: identifiers are lexicographically ordered by creation. An identifier made after another one
  from the same process clock sorts strictly after it, whatever the wall clock read, the step
  and the random bytes, as long as the clock stays below its 60 bits (until the year 5236).\<close>

theorem NewID_increasing:
  assumes "NewID t r s prev = (c, Inr i)" and "NewID t' r' s' c = (c', Inr i')"
    and "unat c' < 2 ^ 60" and "c < - 1"
  shows "i < i'"
proof -
  from assms(1) obtain b where i: "i = id_text c s b" by (metis NewID_Inr)
  from assms(2) obtain b' where i': "i' = id_text c' s' b'" and c': "c' = id_clock t' c"
    by (metis NewID_Inr)
  from id_clock_greater [OF assms(4), of t'] assms(3) show ?thesis
    unfolding i i' c' by (intro id_text_less)
qed

theorem NewID_increasing_witness:
  "id_text (id_clock 0 0) 0 [0, 0, 0, 0, 0, 0] <
     id_text (id_clock (- 5) (id_clock 0 0)) 7 [255, 0, 0, 0, 0, 0]"
proof (rule NewID_increasing)
  show "NewID 0 (Inr [0, 0, 0, 0, 0, 0]) 0 0 = (id_clock 0 0, Inr (id_text (id_clock 0 0) 0 [0, 0, 0, 0, 0, 0]))"
    by (simp add: NewID_def Let_def)
  show "NewID (- 5) (Inr [255, 0, 0, 0, 0, 0]) 7 (id_clock 0 0) =
      (id_clock (- 5) (id_clock 0 0), Inr (id_text (id_clock (- 5) (id_clock 0 0)) 7 [255, 0, 0, 0, 0, 0]))"
    by (simp add: NewID_def Let_def)
  show "unat (id_clock (- 5) (id_clock 0 0)) < 2 ^ 60"
    by (simp add: id_clock_def gregorianUnixOffset100ns_def)
  show "id_clock 0 0 < - 1"
    by (simp add: id_clock_def gregorianUnixOffset100ns_def word_less_nat_alt
        unsigned_minus_1_eq_mask mask_eq_exp_minus_1)
qed

section \<open>Channel versions count up\<close>

definition version_number :: "string \<Rightarrow> int option" where
  "version_number v = (if v = [] then Some 0 else parse_bigint (version_prefix v))"

lemma digit_char_ne:
  assumes "d < 10"
  shows "digit_char d \<noteq> CHR ''.''" "digit_char d \<noteq> CHR ''-''" "digit_char d \<noteq> CHR ''+''"
proof -
  have "(of_char (digit_char d) :: nat) \<ge> 48" using assms by (simp add: of_char_digit)
  moreover have "(of_char (CHR ''.'') :: nat) < 48" "(of_char (CHR ''-'') :: nat) < 48"
    "(of_char (CHR ''+'') :: nat) < 48" by code_simp+
  ultimately show "digit_char d \<noteq> CHR ''.''" "digit_char d \<noteq> CHR ''-''" "digit_char d \<noteq> CHR ''+''"
    by auto
qed

lemma padded_digits:
  assumes "c \<in> set (pad_left (CHR ''0'') w (dec_string n))"
  shows "c \<noteq> CHR ''.''" "c \<noteq> CHR ''-''" "c \<noteq> CHR ''+''"
proof -
  from assms have "c = digit_char 0 \<or> c \<in> set (dec_string n)"
    by (auto simp: pad_left_def digit_char_0)
  then obtain d where "d < 10" "c = digit_char d" using set_dec_string by fastforce
  with digit_char_ne show "c \<noteq> CHR ''.''" "c \<noteq> CHR ''-''" "c \<noteq> CHR ''+''" by auto
qed

lemma dec_string_Nil [simp]: "dec_string n \<noteq> []"
  by (simp add: dec_string.simps [of n])

lemma parse_bigint_padded: "parse_bigint (pad_left (CHR ''0'') w (dec_string n)) = Some (int n)"
proof -
  let ?s = "pad_left (CHR ''0'') w (dec_string n)"
  have ne: "?s \<noteq> []" by (simp add: pad_left_def)
  then have "hd ?s \<in> set ?s" by (rule hd_in_set)
  from padded_digits [OF this] ne show ?thesis
    by (simp add: parse_bigint_def parse_digits_padded)
qed

text \<open>A new channel version carries the successor of the number of the current version, so
  versions of a channel never repeat: the number of the result is one more than the number of the
  input (zero for the empty version), for every non-negative current number.\<close>

theorem NextVersion_number:
  assumes "version_number current = Some k" and "0 \<le> k" and "NextVersion (Inr fraction) current = Inr v"
  shows "version_number v = Some (k + 1)"
proof -
  let ?p = "pad_left (CHR ''0'') 32 (dec_string (nat (k + 1)))"
  from assms have v: "v = ?p @ ''.'' @ pad_left (CHR ''0'') 16 fraction"
    by (auto simp: NextVersion_def version_number_def bigint_string_def Let_def split: option.splits)
  have "takeWhile (\<lambda>c. c \<noteq> CHR ''.'') (?p @ ''.'' @ pad_left (CHR ''0'') 16 fraction) = ?p"
    using padded_digits(1) by (subst takeWhile_append2) auto
  then have "version_prefix v = ?p" by (simp add: v version_prefix_def)
  moreover have "v \<noteq> []" by (simp add: v)
  ultimately show ?thesis
    using assms(2) by (simp add: version_number_def parse_bigint_padded)
qed

theorem NextVersion_number_witness:
  "version_number (''00000000000000000000000000000008.00000000000000.5'') = Some (7 + 1)"
proof (rule NextVersion_number [of "''7.25''" 7 "''0.5''"])
  show "version_number ''7.25'' = Some 7" by code_simp
  show "NextVersion (Inr ''0.5'') ''7.25'' = Inr ''00000000000000000000000000000008.00000000000000.5''"
    by code_simp
qed simp

end
