(* ===== verification/State_Machine.thy ===== *)
theory State_Machine
  imports Checkpoint_Types
begin

text \<open>
  The state machine of \<^verbatim>\<open>internal/graph/state.go\<close>: the kinds of fields, the schema, and the live
  fields a superstep updates. Function values that may be nil are options, and calling a nil one is
  the error \<open>NilCall\<close> (a panic in Go). Updating calls return the machine they leave behind, since Go
  mutates the fields in place and keeps the fields already updated when a later one fails.
\<close>

section \<open>Fields and schemas\<close>

datatype fieldKind = FieldLast | FieldAggregate | FieldDelta | FieldEphemeral | FieldUnknown "8 word"

record 'x field =
  f_kind :: fieldKind
  f_initial :: "'x gval option"
  f_reducer :: "'x gval reducer option"
  f_clone :: "('x gval \<Rightarrow> 'x gval) option"
  f_readView :: "('x gval \<Rightarrow> 'x gval) option"
  f_ownedReducerInput :: bool
  f_snapshotFrequency :: "64 word"

definition LastValue :: "('x gval \<Rightarrow> 'x gval) option \<Rightarrow> 'x field" where
  "LastValue clone = \<lparr>f_kind = FieldLast, f_initial = None, f_reducer = None, f_clone = clone,
     f_readView = clone, f_ownedReducerInput = False, f_snapshotFrequency = 0\<rparr>"

definition Aggregate ::
  "'x gval option \<Rightarrow> 'x gval reducer option \<Rightarrow> ('x gval \<Rightarrow> 'x gval) option \<Rightarrow> 'x field" where
  "Aggregate initial reducer clone = \<lparr>f_kind = FieldAggregate, f_initial = initial,
     f_reducer = reducer, f_clone = clone, f_readView = clone, f_ownedReducerInput = False,
     f_snapshotFrequency = 0\<rparr>"

definition Delta ::
  "'x gval option \<Rightarrow> 'x gval reducer option \<Rightarrow> ('x gval \<Rightarrow> 'x gval) option \<Rightarrow> 64 word \<Rightarrow> 'x field" where
  "Delta initial reducer clone snapshotFrequency = \<lparr>f_kind = FieldDelta, f_initial = initial,
     f_reducer = reducer, f_clone = clone, f_readView = clone, f_ownedReducerInput = False,
     f_snapshotFrequency = snapshotFrequency\<rparr>"

definition Ephemeral :: "('x gval \<Rightarrow> 'x gval) option \<Rightarrow> 'x field" where
  "Ephemeral clone = \<lparr>f_kind = FieldEphemeral, f_initial = None, f_reducer = None, f_clone = clone,
     f_readView = clone, f_ownedReducerInput = False, f_snapshotFrequency = 0\<rparr>"

definition WithReadView :: "'x field \<Rightarrow> ('x gval \<Rightarrow> 'x gval) option \<Rightarrow> 'x field" where
  "WithReadView f view = f\<lparr>f_readView := view\<rparr>"

definition field_WithOwnedReducerInput :: "'x field \<Rightarrow> 'x field" where
  "field_WithOwnedReducerInput f = f\<lparr>f_ownedReducerInput := True\<rparr>"

definition identityClone :: "'x gval \<Rightarrow> 'x gval" where "identityClone v = v"

definition field_validate :: "'x field \<Rightarrow> unit res" where
  "field_validate f =
     (if f_clone f = None \<or> f_readView f = None then Inl (Errorf ''state field: cloner is required'')
      else case f_kind f of
        FieldLast \<Rightarrow> Inr ()
      | FieldEphemeral \<Rightarrow> Inr ()
      | FieldAggregate \<Rightarrow>
          if f_initial f = None \<or> f_reducer f = None
          then Inl (Errorf ''state field: aggregate requires initial value and reducer'') else Inr ()
      | FieldDelta \<Rightarrow>
          if f_initial f = None \<or> f_reducer f = None
          then Inl (Errorf ''state field: delta requires initial value and reducer'')
          else if f_snapshotFrequency f = 0
          then Inl (Wrapf ''state field'' ErrInvalidSnapshotFrequency) else Inr ()
      | FieldUnknown b \<Rightarrow> Inl (Errorf ''state field: unknown field kind''))"

record 'x schema =
  sc_fields :: "(string, 'x field) dict"
  sc_allowUnknown :: bool

fun validate_fields :: "(string \<times> 'x field) list \<Rightarrow> unit res" where
  "validate_fields [] = Inr ()"
| "validate_fields ((key, f) # rest) =
     (if key = [] then Inl (Errorf ''state schema contains an empty key'')
      else res_bind (field_validate f) (\<lambda>_. validate_fields rest))"

definition schema_Validate :: "'x schema \<Rightarrow> unit res" where
  "schema_Validate s = validate_fields (sc_fields s)"

section \<open>The live fields\<close>

record 'x fieldState =
  fs_spec :: "'x field"
  fs_value :: "'x gval"
  fs_available :: bool
  fs_delta :: "'x gval delta option"

record 'x stateMachine =
  sm_schema :: "'x schema"
  sm_fields :: "(string, 'x fieldState) dict"

definition new_fieldState :: "'x field \<Rightarrow> 'x fieldState" where
  "new_fieldState spec = \<lparr>fs_spec = spec, fs_value = VNil, fs_available = False, fs_delta = None\<rparr>"

text \<open>An update value as a channel write.\<close>

fun delta_write :: "'x gval \<Rightarrow> 'x gval deltaWrite" where
  "delta_write (VOverwrite v) = OverwriteValue v"
| "delta_write v = UpdateValue v"

definition seed_of :: "'x gval \<Rightarrow> 'x gval checkpointValue" where
  "seed_of v = (case v of VSnapshot s \<Rightarrow> SnapshotCheckpoint s | _ \<Rightarrow> LegacyCheckpoint v)"

definition delta_seed :: "'x gval option \<Rightarrow> 'x deltaHistory option \<Rightarrow> 'x gval checkpointValue" where
  "delta_seed stored history =
     (case stored of Some value \<Rightarrow> seed_of value
      | None \<Rightarrow> (case history of
            Some h \<Rightarrow> if dh_hasSeed h then seed_of (dh_seed h) else MissingCheckpoint
          | None \<Rightarrow> MissingCheckpoint))"

definition new_delta :: "'x field \<Rightarrow> 'x gval delta res" where
  "new_delta spec =
     NewDelta (f_initial spec) (f_reducer spec) (f_clone spec)
       (Some (WithSnapshotFrequency (f_snapshotFrequency spec)) #
         (if f_ownedReducerInput spec then [Some Delta_Channel.WithOwnedReducerInput] else []))"

definition restore_delta :: "'x field \<Rightarrow> 'x gval option \<Rightarrow> 'x deltaHistory option \<Rightarrow> 'x gval delta res" where
  "restore_delta spec stored history =
     res_bind (new_delta spec) (\<lambda>delta.
     res_bind (res_wrap ''restore state field'' (Restore delta (delta_seed stored history))) (\<lambda>restored.
       case stored of
         Some value \<Rightarrow> Inr restored
       | None \<Rightarrow>
          (case history of
             None \<Rightarrow> Inr restored
           | Some h \<Rightarrow>
              (case delta_Replay restored (map (\<lambda>w. delta_write (pw_value w)) (dh_writes h)) of
                 (ch, Inl e) \<Rightarrow> Inl (Wrapf ''replay state field'' e)
               | (ch, Inr u) \<Rightarrow> Inr ch))))"

definition new_field :: "'x field \<Rightarrow> 'x gval option \<Rightarrow> 'x deltaHistory option \<Rightarrow> 'x fieldState res" where
  "new_field spec stored history =
     (case f_kind spec of
        FieldAggregate \<Rightarrow>
          (case stored of
             Some value \<Rightarrow> res_bind (call1 (f_clone spec) value) (\<lambda>v.
               Inr ((new_fieldState spec)\<lparr>fs_available := True, fs_value := v\<rparr>))
           | None \<Rightarrow> (case f_initial spec of
               None \<Rightarrow> Inl NilCall
             | Some i \<Rightarrow> Inr ((new_fieldState spec)\<lparr>fs_available := True, fs_value := i\<rparr>)))
      | FieldDelta \<Rightarrow>
          res_bind (restore_delta spec stored history) (\<lambda>ch.
            Inr ((new_fieldState spec)\<lparr>fs_delta := Some ch\<rparr>))
      | FieldUnknown b \<Rightarrow> Inr (new_fieldState spec)
      | _ \<Rightarrow>
          (case stored of
             Some value \<Rightarrow> res_bind (call1 (f_clone spec) value) (\<lambda>v.
               Inr ((new_fieldState spec)\<lparr>fs_value := v, fs_available := True\<rparr>))
           | None \<Rightarrow> Inr (new_fieldState spec)))"

definition unknown_spec :: "'x field" where
  "unknown_spec = LastValue (Some identityClone)"

text \<open>The bodies of the two loops: over the schema's fields, then over the stored values.\<close>

definition add_schema_field ::
  "'x vals \<Rightarrow> (string, 'x deltaHistory) dict \<Rightarrow> string \<times> 'x field \<Rightarrow>
   (string, 'x fieldState) dict \<Rightarrow> (string, 'x fieldState) dict res" where
  "add_schema_field stored histories kf fs =
     res_bind (new_field (snd kf) (map_of stored (fst kf)) (map_of histories (fst kf))) (\<lambda>f.
       Inr (dput (fst kf) f fs))"

definition add_stored_field ::
  "bool \<Rightarrow> string \<times> 'x gval \<Rightarrow> (string, 'x fieldState) dict \<Rightarrow> (string, 'x fieldState) dict res" where
  "add_stored_field allowUnknown kv fs =
     (if map_of fs (fst kv) \<noteq> None then Inr fs
      else if \<not> allowUnknown then Inl (Wrapf ''%w %q'' ErrUnknownStateField)
      else Inr (dput (fst kv) ((new_fieldState unknown_spec)\<lparr>fs_value := snd kv, fs_available := True\<rparr>) fs))"

definition newStateMachine ::
  "'x schema \<Rightarrow> 'x vals \<Rightarrow> (string, 'x deltaHistory) dict \<Rightarrow> 'x stateMachine res" where
  "newStateMachine schema stored histories =
     res_bind (schema_Validate schema) (\<lambda>_.
     res_bind (fold_res (add_schema_field stored histories) (sc_fields schema) []) (\<lambda>fields.
     res_bind (fold_res (add_stored_field (sc_allowUnknown schema)) stored fields) (\<lambda>fs.
       Inr \<lparr>sm_schema = schema, sm_fields = fs\<rparr>)))"

text \<open>The value of one field as nodes and routers see it; \<open>None\<close> when it is absent.\<close>

definition field_view :: "'x fieldState \<Rightarrow> 'x gval option res" where
  "field_view f =
     (if f_kind (fs_spec f) = FieldDelta then
        (case fs_delta f of
           None \<Rightarrow> Inl NilCall
         | Some ch \<Rightarrow>
            (case delta_View ch of
               Inl e \<Rightarrow> if errors_is e ErrEmpty then Inr None else Inl e
             | Inr v \<Rightarrow> res_bind (call1 (f_readView (fs_spec f)) v) (\<lambda>r. Inr (Some r))))
      else if fs_available f then res_bind (call1 (f_readView (fs_spec f)) (fs_value f)) (\<lambda>r. Inr (Some r))
      else Inr None)"

definition sm_values :: "'x stateMachine \<Rightarrow> 'x vals res" where
  "sm_values m =
     fold_res (\<lambda>(key, f) vs. res_bind (field_view f) (\<lambda>r.
       case r of None \<Rightarrow> Inr vs | Some v \<Rightarrow> Inr (dput key v vs))) (sm_fields m) []"

section \<open>Updates\<close>

definition is_overwrite :: "'x gval \<Rightarrow> bool" where
  "is_overwrite v \<longleftrightarrow> (case v of VOverwrite w \<Rightarrow> True | _ \<Rightarrow> False)"

definition overwritten :: "'x gval \<Rightarrow> 'x gval" where
  "overwritten v = (case v of VOverwrite w \<Rightarrow> w | _ \<Rightarrow> VNil)"

definition fieldState_apply :: "'x fieldState \<Rightarrow> 'x gval list \<Rightarrow> 'x fieldState \<times> bool res" where
  "fieldState_apply f writes =
     (case scan_unique ErrInvalidStateUpdate is_overwrite 0 (-1) writes of
        Inl e \<Rightarrow> (f, Inl e)
      | Inr overwriteIndex \<Rightarrow>
        if f_kind (fs_spec f) = FieldDelta then
          (case fs_delta f of
             None \<Rightarrow> (f, Inl NilCall)
           | Some ch \<Rightarrow>
              (case delta_Apply ch (map delta_write writes) of
                 (ch', Inl e) \<Rightarrow> (f\<lparr>fs_delta := Some ch'\<rparr>, Inl e)
               | (ch', Inr _) \<Rightarrow> (f\<lparr>fs_delta := Some ch'\<rparr>, Inr (overwriteIndex \<ge> 0))))
        else if overwriteIndex \<ge> 0 then
          (case call1 (f_clone (fs_spec f)) (overwritten (writes ! nat overwriteIndex)) of
             Inl e \<Rightarrow> (f, Inl e)
           | Inr v \<Rightarrow> (f\<lparr>fs_value := v, fs_available := True\<rparr>, Inr True))
        else (case f_kind (fs_spec f) of
          FieldAggregate \<Rightarrow>
            (case (f_initial (fs_spec f), f_clone (fs_spec f), f_reducer (fs_spec f)) of
               (Some initial, Some clone, Some reducer) \<Rightarrow>
                 (let base = (if fs_available f then clone (fs_value f) else initial)
                  in case reducer base (map clone writes) of
                       Inl e \<Rightarrow> (f, Inl e)
                     | Inr next_value \<Rightarrow> (f\<lparr>fs_value := next_value, fs_available := True\<rparr>, Inr False))
             | _ \<Rightarrow> (f, Inl NilCall))
        | FieldUnknown b \<Rightarrow> (f, Inr False)
        | _ \<Rightarrow>
            if length writes \<noteq> 1 then (f, Inl ErrInvalidStateUpdate)
            else (case call1 (f_clone (fs_spec f)) (writes ! 0) of
                    Inl e \<Rightarrow> (f, Inl e)
                  | Inr v \<Rightarrow> (f\<lparr>fs_value := v, fs_available := True\<rparr>, Inr False))))"

text \<open>Grouping: the writes of each key, update by update, batches expanded.\<close>

definition expand :: "'x gval \<Rightarrow> 'x gval list" where
  "expand v = (case v of VBatch vs \<Rightarrow> vs | _ \<Rightarrow> [v])"

definition group_update ::
  "'x vals \<Rightarrow> (string, 'x gval list) dict \<Rightarrow> (string, 'x gval list) dict" where
  "group_update update grouped =
     fold (\<lambda>key g. dput key (dget [] g key @ expand (dget VNil update key)) g) (sorted_keys update) grouped"

definition group_updates :: "'x vals list \<Rightarrow> (string, 'x gval list) dict" where
  "group_updates updates = fold group_update updates []"

fun apply_keys ::
  "string list \<Rightarrow> (string, 'x gval list) dict \<Rightarrow> 'x stateMachine \<Rightarrow> (string, bool) dict \<Rightarrow>
   'x stateMachine \<times> (string, bool) dict res" where
  "apply_keys [] grouped m overwrites = (m, Inr overwrites)"
| "apply_keys (key # keys) grouped m overwrites =
     (if map_of (sm_fields m) key = None \<and> \<not> sc_allowUnknown (sm_schema m)
      then (m, Inl (Wrapf ''%w %q'' ErrUnknownStateField))
      else
        let f = (case map_of (sm_fields m) key of Some f \<Rightarrow> f | None \<Rightarrow> new_fieldState unknown_spec)
        in case fieldState_apply f (dget [] grouped key) of
             (f', Inl e) \<Rightarrow> (m\<lparr>sm_fields := dput key f' (sm_fields m)\<rparr>, Inl (Wrapf ''state field'' e))
           | (f', Inr wrote) \<Rightarrow>
               apply_keys keys grouped (m\<lparr>sm_fields := dput key f' (sm_fields m)\<rparr>) (dput key wrote overwrites))"

definition sm_apply :: "'x stateMachine \<Rightarrow> 'x vals list \<Rightarrow> 'x stateMachine \<times> (string, bool) dict res" where
  "sm_apply m updates =
     (let grouped = group_updates updates in apply_keys (sorted_keys grouped) grouped m [])"

definition consume_field :: "'x fieldState \<Rightarrow> 'x fieldState" where
  "consume_field f =
     (if f_kind (fs_spec f) = FieldEphemeral then f\<lparr>fs_value := VNil, fs_available := False\<rparr> else f)"

definition consumeEphemeral :: "'x stateMachine \<Rightarrow> 'x stateMachine" where
  "consumeEphemeral m = m\<lparr>sm_fields := map (\<lambda>(key, f). (key, consume_field f)) (sm_fields m)\<rparr>"

section \<open>Checkpoints\<close>

definition field_checkpoint :: "bool \<Rightarrow> 'x fieldState \<Rightarrow> 'x gval option res" where
  "field_checkpoint snapshot f =
     (case f_kind (fs_spec f) of
        FieldDelta \<Rightarrow>
          if snapshot then
            (case fs_delta f of
               None \<Rightarrow> Inl NilCall
             | Some ch \<Rightarrow> res_bind (delta_Get ch) (\<lambda>v. Inr (Some (VSnapshot v))))
          else Inr None
      | FieldEphemeral \<Rightarrow> Inr None
      | _ \<Rightarrow>
          if fs_available f then res_bind (call1 (f_clone (fs_spec f)) (fs_value f)) (\<lambda>v. Inr (Some v))
          else Inr None)"

definition checkpointValues :: "'x stateMachine \<Rightarrow> (string, bool) dict \<Rightarrow> 'x vals res" where
  "checkpointValues m snapshots =
     fold_res (\<lambda>(key, f) vs. res_bind (field_checkpoint (dget False snapshots key) f) (\<lambda>r.
       case r of None \<Rightarrow> Inr vs | Some v \<Rightarrow> Inr (dput key v vs))) (sm_fields m) []"

definition deltaFields :: "'x stateMachine \<Rightarrow> (string, 64 word) dict" where
  "deltaFields m =
     map (\<lambda>(key, f). (key, f_snapshotFrequency (fs_spec f)))
       (filter (\<lambda>(key, f). f_kind (fs_spec f) = FieldDelta \<and>
          (case fs_delta f of None \<Rightarrow> False | Some ch \<Rightarrow> IsAvailable ch)) (sm_fields m))"

section \<open>What grouping computes\<close>

text \<open>The writes of one key over a list of updates, in update order.\<close>

definition writes_of :: "'x vals list \<Rightarrow> string \<Rightarrow> 'x gval list" where
  "writes_of updates k = concat (map (\<lambda>u. case map_of u k of None \<Rightarrow> [] | Some v \<Rightarrow> expand v) updates)"

definition written :: "'x vals list \<Rightarrow> string \<Rightarrow> bool" where
  "written updates k \<longleftrightarrow> (\<exists>u \<in> set updates. map_of u k \<noteq> None)"

lemma fold_dput_append:
  assumes "distinct ks"
  shows "map_of (fold (\<lambda>key g. dput key (dget [] g key @ f key) g) ks g) k =
    (if k \<in> set ks then Some (dget [] g k @ f k) else map_of g k)"
  using assms
proof (induction ks arbitrary: g)
  case (Cons a ks)
  then show ?case by (auto simp: dget_def)
qed simp

lemma group_update_spec:
  assumes "distinct (dkeys u)"
  shows "map_of (group_update u g) k =
    (case map_of u k of None \<Rightarrow> map_of g k | Some v \<Rightarrow> Some (dget [] g k @ expand v))"
proof -
  have "map_of (group_update u g) k =
      (if k \<in> fst ` set u then Some (dget [] g k @ expand (dget VNil u k)) else map_of g k)"
    using assms by (simp add: group_update_def fold_dput_append)
  then show ?thesis by (cases "map_of u k") (simp_all add: mem_keys_iff)
qed

lemma distinct_group_update: "distinct (dkeys g) \<Longrightarrow> distinct (dkeys (group_update u g))"
  unfolding group_update_def by (rule fold_invariant [where Q = "\<lambda>_. True"]) auto

lemma fold_group_update_spec:
  assumes "\<forall>u \<in> set us. distinct (dkeys u)"
  shows "map_of (fold group_update us g) k =
    (if written us k \<or> map_of g k \<noteq> None then Some (dget [] g k @ writes_of us k) else None)"
  using assms
proof (induction us arbitrary: g)
  case Nil
  then show ?case by (auto simp: written_def writes_of_def dget_def)
next
  case (Cons u us)
  have *: "map_of (group_update u g) k =
      (case map_of u k of None \<Rightarrow> map_of g k | Some v \<Rightarrow> Some (dget [] g k @ expand v))"
    using Cons.prems by (simp add: group_update_spec)
  show ?case
    using Cons.prems Cons.IH [of "group_update u g"] *
    by (cases "map_of u k") (auto simp: written_def writes_of_def dget_def)
qed

lemma group_updates_spec:
  assumes "\<forall>u \<in> set us. distinct (dkeys u)"
  shows "map_of (group_updates us) k = (if written us k then Some (writes_of us k) else None)"
  using assms by (simp add: group_updates_def fold_group_update_spec dget_def)

lemma distinct_group_updates: "distinct (dkeys (group_updates us))"
  unfolding group_updates_def
  by (rule fold_invariant [where Q = "\<lambda>_. True"]) (auto intro: distinct_group_update)

lemma keys_group_updates:
  assumes "\<forall>u \<in> set us. distinct (dkeys u)"
  shows "k \<in> set (sorted_keys (group_updates us)) \<longleftrightarrow> written us k"
proof -
  have "k \<in> set (sorted_keys (group_updates us)) \<longleftrightarrow> map_of (group_updates us) k \<noteq> None"
    by (simp add: map_of_eq_None_iff)
  then show ?thesis using assms by (simp add: group_updates_spec)
qed

section \<open>What one superstep does to every field\<close>

definition field_or_new :: "'x stateMachine \<Rightarrow> string \<Rightarrow> 'x fieldState" where
  "field_or_new m k = (case map_of (sm_fields m) k of Some f \<Rightarrow> f | None \<Rightarrow> new_fieldState unknown_spec)"

lemma apply_keys_Cons:
  assumes "apply_keys (key # keys) grouped m ow = (m', Inr ow')"
  obtains f' wrote where "fieldState_apply (field_or_new m key) (dget [] grouped key) = (f', Inr wrote)"
    and "map_of (sm_fields m) key \<noteq> None \<or> sc_allowUnknown (sm_schema m)"
    and "apply_keys keys grouped (m\<lparr>sm_fields := dput key f' (sm_fields m)\<rparr>) (dput key wrote ow) = (m', Inr ow')"
  using assms
  by (auto simp: field_or_new_def Let_def split: if_splits prod.splits sum.splits)

lemma field_or_new_dput:
  "field_or_new (m\<lparr>sm_fields := dput k f (sm_fields m)\<rparr>) k' = (if k' = k then f else field_or_new m k')"
  by (simp add: field_or_new_def)

text \<open>A successful run over distinct keys applies to each of them its own writes, once.\<close>

lemma apply_keys_success:
  assumes "apply_keys keys grouped m ow = (m', Inr ow')" and "distinct keys"
  shows "sm_schema m' = sm_schema m \<and>
    map_of (sm_fields m') k =
      (if k \<in> set keys then Some (fst (fieldState_apply (field_or_new m k) (dget [] grouped k)))
       else map_of (sm_fields m) k) \<and>
    (if k \<in> set keys then
       snd (fieldState_apply (field_or_new m k) (dget [] grouped k)) = Inr (dget False ow' k) \<and>
       map_of ow' k \<noteq> None \<and>
       (map_of (sm_fields m) k = None \<longrightarrow> sc_allowUnknown (sm_schema m))
     else map_of ow' k = map_of ow k)"
  using assms
proof (induction keys arbitrary: m ow)
  case (Cons key keys)
  from Cons.prems(1) obtain f' wrote where
    ap: "fieldState_apply (field_or_new m key) (dget [] grouped key) = (f', Inr wrote)"
    and kn: "map_of (sm_fields m) key \<noteq> None \<or> sc_allowUnknown (sm_schema m)"
    and rest: "apply_keys keys grouped (m\<lparr>sm_fields := dput key f' (sm_fields m)\<rparr>) (dput key wrote ow) = (m', Inr ow')"
    by (rule apply_keys_Cons)
  from Cons.prems(2) have "distinct keys" and "key \<notin> set keys" by auto
  with Cons.IH [OF rest] ap kn show ?case
    by (auto simp: field_or_new_dput split: if_splits)
qed simp

lemma sm_apply_success:
  assumes "sm_apply m updates = (m', Inr overwrites)" and "\<forall>u \<in> set updates. distinct (dkeys u)"
  shows "map_of (sm_fields m') k =
      (if written updates k
       then Some (fst (fieldState_apply (field_or_new m k) (writes_of updates k)))
       else map_of (sm_fields m) k) \<and>
    (if written updates k
     then snd (fieldState_apply (field_or_new m k) (writes_of updates k)) = Inr (dget False overwrites k) \<and>
       (map_of (sm_fields m) k \<noteq> None \<or> sc_allowUnknown (sm_schema m))
     else map_of overwrites k = None)"
proof -
  have g: "dget [] (group_updates updates) k = (if written updates k then writes_of updates k else [])"
    using assms(2) by (simp add: dget_def group_updates_spec)
  have "apply_keys (sorted_keys (group_updates updates)) (group_updates updates) m [] = (m', Inr overwrites)"
    using assms(1) by (simp add: sm_apply_def Let_def)
  from apply_keys_success [OF this, of k] show ?thesis
    using g keys_group_updates [OF assms(2), of k] by (auto simp: distinct_group_updates)
qed

text \<open>C6: one superstep, field by field. When applying the updates succeeds, every field that some update
  writes gets exactly its own writes, in update order with batches expanded, in one call of the
  field's update; every other field is untouched; and the reported overwrite flags are those of
  the fields. A key outside the schema is accepted only when unknown keys are.\<close>

theorem sm_apply_fields:
  assumes "sm_apply m updates = (m', Inr overwrites)" and "\<forall>u \<in> set updates. distinct (dkeys u)"
  shows "map_of (sm_fields m') k =
      (if written updates k
       then Some (fst (fieldState_apply (field_or_new m k) (writes_of updates k)))
       else map_of (sm_fields m) k) \<and>
    (if written updates k
     then snd (fieldState_apply (field_or_new m k) (writes_of updates k)) = Inr (dget False overwrites k) \<and>
       (map_of (sm_fields m) k \<noteq> None \<or> sc_allowUnknown (sm_schema m))
     else map_of overwrites k = None)"
  using assms by (rule sm_apply_success)

lemma sm_apply_schema:
  assumes "sm_apply m updates = (m', Inr overwrites)"
  shows "sm_schema m' = sm_schema m"
  using assms apply_keys_success
  by (fastforce simp: sm_apply_def Let_def distinct_group_updates)

text \<open>The iteration order of Go's maps does not matter.\<close>

lemma apply_keys_cong:
  "(\<And>k. dget [] g k = dget [] g' k) \<Longrightarrow> apply_keys keys g m ow = apply_keys keys g' m ow"
  by (induction keys arbitrary: m ow) (auto simp: Let_def split: prod.split sum.split option.split)

text \<open>C35: a superstep does not depend on the order in which Go ranges over the update maps.\<close>

theorem sm_apply_order_independent:
  assumes "list_all2 same_map us vs"
    and "\<forall>u \<in> set us \<union> set vs. distinct (dkeys u)"
  shows "sm_apply m us = sm_apply m vs"
proof -
  from assms(1) have "written us k = written vs k \<and> writes_of us k = writes_of vs k" for k
    by (induction rule: list_all2_induct) (auto simp: written_def writes_of_def same_map_def)
  with assms(2) have eq: "map_of (group_updates us) = map_of (group_updates vs)"
    by (intro ext) (simp add: group_updates_spec)
  then have "sorted_keys (group_updates us) = sorted_keys (group_updates vs)"
    by (intro sorted_keys_cong) (auto simp: distinct_group_updates)
  moreover have "dget [] (group_updates us) k = dget [] (group_updates vs) k" for k
    using eq by (simp add: dget_def)
  ultimately show ?thesis
    using apply_keys_cong [of "group_updates us" "group_updates vs"] by (simp add: sm_apply_def Let_def)
qed

section \<open>The invariant of the machine\<close>

text \<open>
  A well-formed field has a valid specification, carries a delta channel exactly when it is a delta
  field, and that channel was built from the specification and has a value.
\<close>

definition channel_of_spec :: "'x field \<Rightarrow> 'x gval delta \<Rightarrow> bool" where
  "channel_of_spec spec ch \<longleftrightarrow> f_initial spec = Some (d_initial ch) \<and> f_reducer spec = Some (d_reduce ch) \<and>
     f_clone spec = Some (d_clone ch) \<and> f_snapshotFrequency spec = d_snapshotFrequency ch \<and>
     f_ownedReducerInput spec = d_ownedReducerInput ch"

definition field_wf :: "'x fieldState \<Rightarrow> bool" where
  "field_wf f \<longleftrightarrow> field_validate (fs_spec f) = Inr () \<and>
     (case fs_delta f of
        None \<Rightarrow> f_kind (fs_spec f) \<noteq> FieldDelta
      | Some ch \<Rightarrow> f_kind (fs_spec f) = FieldDelta \<and> channel_of_spec (fs_spec f) ch \<and> d_cell ch \<noteq> None)"

definition machine_wf :: "'x stateMachine \<Rightarrow> bool" where
  "machine_wf m \<longleftrightarrow> distinct (dkeys (sm_fields m)) \<and> list_all (\<lambda>(k, f). field_wf f) (sm_fields m)"

lemma field_validate_cloners:
  "field_validate spec = Inr () \<Longrightarrow> \<exists>c v. f_clone spec = Some c \<and> f_readView spec = Some v"
  by (auto simp: field_validate_def split: if_splits)

lemma machine_wf_lookup: "machine_wf m \<Longrightarrow> map_of (sm_fields m) k = Some f \<Longrightarrow> field_wf f"
  by (auto simp: machine_wf_def list_all_iff dest: map_of_SomeD)

lemma machine_wf_iff:
  "machine_wf m \<longleftrightarrow> distinct (dkeys (sm_fields m)) \<and> (\<forall>k f. map_of (sm_fields m) k = Some f \<longrightarrow> field_wf f)"
  by (auto simp: machine_wf_def list_all_iff map_of_Some_iff dest: map_of_SomeD)

lemma new_fieldState_unknown_wf: "field_wf ((new_fieldState unknown_spec)\<lparr>fs_value := v, fs_available := a\<rparr>)"
  by (simp add: field_wf_def new_fieldState_def unknown_spec_def LastValue_def field_validate_def)

lemma new_fieldState_unknown_wf' [simp]: "field_wf (new_fieldState unknown_spec)"
  using new_fieldState_unknown_wf [of False VNil] by (simp add: new_fieldState_def)

lemma new_delta_spec:
  assumes "field_validate spec = Inr ()" and "f_kind spec = FieldDelta"
  shows "\<exists>ch. new_delta spec = Inr ch \<and> channel_of_spec spec ch \<and> d_cell ch = None"
proof -
  from assms obtain i r c where "f_initial spec = Some i" "f_reducer spec = Some r" "f_clone spec = Some c"
    and "f_snapshotFrequency spec \<noteq> 0"
    by (auto simp: field_validate_def split: if_splits)
  then show ?thesis
    by (simp add: new_delta_def NewDelta_def channel_of_spec_def)
qed

lemma Restore_spec:
  "Restore ch v = Inr ch' \<Longrightarrow> same_spec ch ch' \<and> d_cell ch' \<noteq> None"
  by (cases v) (auto simp: same_spec_iff specCopy_def)

lemma delta_Replay_keeps:
  "d_cell ch \<noteq> None \<Longrightarrow> same_spec ch (fst (delta_Replay ch ws)) \<and> d_cell (fst (delta_Replay ch ws)) \<noteq> None"
  by (auto simp: delta_Replay_def same_spec_iff Let_def split: sum.splits prod.splits)

lemma delta_Apply_keeps:
  "d_cell ch \<noteq> None \<Longrightarrow> d_cell (fst (delta_Apply ch ws)) \<noteq> None"
  by (auto simp: delta_Apply_def Let_def split: sum.splits)

lemma same_spec_channel: "same_spec ch ch' \<Longrightarrow> channel_of_spec spec ch \<longleftrightarrow> channel_of_spec spec ch'"
  by (simp add: channel_of_spec_def same_spec_iff)

lemma restore_delta_wf:
  assumes "field_validate spec = Inr ()" and "f_kind spec = FieldDelta"
    and "restore_delta spec stored history = Inr ch"
  shows "channel_of_spec spec ch \<and> d_cell ch \<noteq> None"
proof -
  from assms(1,2) obtain ch0 where ch0: "new_delta spec = Inr ch0" "channel_of_spec spec ch0"
    using new_delta_spec by blast
  from assms(3) ch0(1) obtain ch1 where ch1: "Restore ch0 (delta_seed stored history) = Inr ch1"
    and *: "ch = ch1 \<or> (\<exists>ws. ch = fst (delta_Replay ch1 ws))"
    by (auto simp: restore_delta_def res_simps split: option.splits prod.splits sum.splits)
      (metis fst_conv)
  from Restore_spec [OF ch1] * delta_Replay_keeps ch0(2) show ?thesis
    by (metis same_spec_channel)
qed

lemma new_field_wf:
  assumes "field_validate spec = Inr ()" and "new_field spec stored history = Inr f"
  shows "field_wf f \<and> fs_spec f = spec"
proof (cases "f_kind spec = FieldDelta")
  case True
  with assms restore_delta_wf show ?thesis
    by (fastforce simp: new_field_def res_simps field_wf_def new_fieldState_def)
next
  case False
  with assms show ?thesis
    by (auto simp: new_field_def res_simps field_wf_def new_fieldState_def
        split: fieldKind.splits option.splits)
qed

lemma validate_fields_all: "validate_fields fs = Inr () \<Longrightarrow> (k, f) \<in> set fs \<Longrightarrow> field_validate f = Inr ()"
proof (induction fs rule: validate_fields.induct)
  case (2 key g rest)
  then show ?case by (cases "field_validate g") (auto split: if_splits)
qed simp

definition fields_wf :: "(string, 'x fieldState) dict \<Rightarrow> bool" where
  "fields_wf fs \<longleftrightarrow> distinct (dkeys fs) \<and> (\<forall>k f. map_of fs k = Some f \<longrightarrow> field_wf f)"

lemma fields_wf_dput: "fields_wf fs \<Longrightarrow> field_wf f \<Longrightarrow> fields_wf (dput k f fs)"
  by (auto simp: fields_wf_def)

lemma newStateMachine_loops:
  assumes "newStateMachine schema stored histories = Inr m"
  obtains fields where "validate_fields (sc_fields schema) = Inr ()"
    and "fold_res (add_schema_field stored histories) (sc_fields schema) [] = Inr fields"
    and "fold_res (add_stored_field (sc_allowUnknown schema)) stored fields = Inr (sm_fields m)"
    and "sm_schema m = schema"
  using assms by (auto simp: newStateMachine_def schema_Validate_def res_simps)

lemma newStateMachine_wf:
  assumes "newStateMachine schema stored histories = Inr m"
  shows "machine_wf m"
proof -
  from assms obtain fields where val: "validate_fields (sc_fields schema) = Inr ()"
    and f1: "fold_res (add_schema_field stored histories) (sc_fields schema) [] = Inr fields"
    and f2: "fold_res (add_stored_field (sc_allowUnknown schema)) stored fields = Inr (sm_fields m)"
    by (rule newStateMachine_loops)
  have "fields_wf fields"
  proof (rule fold_res_invariant [OF f1])
    show "fields_wf []" by (simp add: fields_wf_def)
  next
    fix x a b
    assume x: "x \<in> set (sc_fields schema)" and "fields_wf a" and "add_schema_field stored histories x a = Inr b"
    moreover from x have "field_validate (snd x) = Inr ()"
      using validate_fields_all [OF val, of "fst x" "snd x"] by simp
    ultimately show "fields_wf b"
      by (auto simp: add_schema_field_def res_simps intro!: fields_wf_dput dest: new_field_wf)
  qed
  then have "fields_wf (sm_fields m)"
  proof (rule fold_res_invariant [OF f2])
    fix x a b
    assume "fields_wf a" and "add_stored_field (sc_allowUnknown schema) x a = Inr b"
    then show "fields_wf b"
      by (auto simp: add_stored_field_def new_fieldState_unknown_wf split: if_splits intro: fields_wf_dput)
  qed
  then show ?thesis by (simp add: machine_wf_iff fields_wf_def)
qed

lemma fieldState_apply_wf: "field_wf f \<Longrightarrow> field_wf (fst (fieldState_apply f writes))"
proof (cases "scan_unique ErrInvalidStateUpdate is_overwrite 0 (-1) writes")
  case (Inr ow)
  assume wf: "field_wf f"
  show ?thesis
  proof (cases "fs_delta f")
    case None
    with Inr wf show ?thesis
      by (auto simp: fieldState_apply_def field_wf_def Let_def
          split: fieldKind.splits sum.splits option.splits if_splits)
  next
    case (Some ch)
    with wf have k: "f_kind (fs_spec f) = FieldDelta" and "channel_of_spec (fs_spec f) ch" "d_cell ch \<noteq> None"
      by (auto simp: field_wf_def)
    with delta_Apply_same_spec [of ch "map delta_write writes"] delta_Apply_keeps [of ch "map delta_write writes"]
    have "channel_of_spec (fs_spec f) (fst (delta_Apply ch (map delta_write writes))) \<and>
        d_cell (fst (delta_Apply ch (map delta_write writes))) \<noteq> None"
      by (metis same_spec_channel)
    with Inr Some wf k show ?thesis
      by (cases "delta_Apply ch (map delta_write writes)")
        (auto simp: fieldState_apply_def field_wf_def split: sum.splits)
  qed
qed (simp add: fieldState_apply_def)

lemma apply_keys_wf: "machine_wf m \<Longrightarrow> machine_wf (fst (apply_keys keys grouped m ow))"
proof (induction keys arbitrary: m ow)
  case (Cons key keys)
  let ?f = "case map_of (sm_fields m) key of Some f \<Rightarrow> f | None \<Rightarrow> new_fieldState unknown_spec"
  have "field_wf ?f" using Cons.prems by (auto intro: machine_wf_lookup split: option.splits)
  then have "field_wf (fst (fieldState_apply ?f (dget [] grouped key)))" by (rule fieldState_apply_wf)
  with Cons.prems have
    "machine_wf (m\<lparr>sm_fields := dput key (fst (fieldState_apply ?f (dget [] grouped key))) (sm_fields m)\<rparr>)"
    by (auto simp: machine_wf_iff split: if_splits)
  with Cons show ?case
    by (cases "fieldState_apply ?f (dget [] grouped key)") (auto simp: Let_def split: sum.splits)
qed simp

lemma sm_apply_wf: "machine_wf m \<Longrightarrow> machine_wf (fst (sm_apply m updates))"
  by (simp add: sm_apply_def Let_def apply_keys_wf)

lemma map_of_consumeEphemeral [simp]:
  "map_of (sm_fields (consumeEphemeral m)) k = map_option consume_field (map_of (sm_fields m) k)"
  by (simp add: consumeEphemeral_def map_of_map_val)

lemma consume_field_wf: "field_wf f \<Longrightarrow> field_wf (consume_field f)"
  by (auto simp: consume_field_def field_wf_def split: option.splits)

lemma dkeys_consumeEphemeral [simp]: "dkeys (sm_fields (consumeEphemeral m)) = dkeys (sm_fields m)"
  using dkeys_map_val [of "\<lambda>_. consume_field" "sm_fields m"] by (simp add: consumeEphemeral_def)

lemma consumeEphemeral_wf: "machine_wf m \<Longrightarrow> machine_wf (consumeEphemeral m)"
  by (auto simp: machine_wf_iff consume_field_wf simp del: map_map dest: map_of_SomeD)

section \<open>Reading the machine\<close>

text \<open>The loops that collect one optional value per field.\<close>

lemma collect_fields:
  assumes "distinct (dkeys fs)" and "\<And>k f. (k, f) \<in> set fs \<Longrightarrow> g k f = Inr (h k f)"
  shows "\<exists>vs. fold_res (\<lambda>(key, f) vs. res_bind (g key f) (\<lambda>r.
       case r of None \<Rightarrow> Inr vs | Some v \<Rightarrow> Inr (dput key v vs))) fs d = Inr vs \<and>
     (\<forall>k. map_of vs k = (case map_of fs k of None \<Rightarrow> map_of d k
        | Some f \<Rightarrow> (case h k f of None \<Rightarrow> map_of d k | Some v \<Rightarrow> Some v)))"
  using assms
proof (induction fs arbitrary: d)
  case (Cons kf fs)
  obtain key f where kf: "kf = (key, f)" by (cases kf)
  let ?d = "case h key f of None \<Rightarrow> d | Some v \<Rightarrow> dput key v d"
  have g: "g key f = Inr (h key f)" using Cons.prems(2) kf by simp
  have step: "(case h key f of None \<Rightarrow> Inr d | Some v \<Rightarrow> Inr (dput key v d)) = (Inr ?d :: _ res)"
    by (simp split: option.split)
  from Cons.IH [of ?d] Cons.prems obtain vs where vs:
    "fold_res (\<lambda>(key, f) vs. res_bind (g key f) (\<lambda>r.
       case r of None \<Rightarrow> Inr vs | Some v \<Rightarrow> Inr (dput key v vs))) fs ?d = Inr vs"
    "\<And>k. map_of vs k = (case map_of fs k of None \<Rightarrow> map_of ?d k
        | Some f \<Rightarrow> (case h k f of None \<Rightarrow> map_of ?d k | Some v \<Rightarrow> Some v))"
    by auto
  have none: "map_of fs key = None" using Cons.prems(1) kf by (simp add: map_of_eq_None_iff)
  show ?case
    using vs none by (intro exI [of _ vs]) (auto simp: kf g step split: option.splits)
qed simp

definition seen :: "'x fieldState \<Rightarrow> 'x gval option" where
  "seen f = (if f_kind (fs_spec f) = FieldDelta
     then map_option (the (f_readView (fs_spec f))) (d_cell (the (fs_delta f)))
     else if fs_available f then Some (the (f_readView (fs_spec f)) (fs_value f)) else None)"

lemma field_view_seen: "field_wf f \<Longrightarrow> field_view f = Inr (seen f)"
  using field_validate_cloners [of "fs_spec f"]
  by (auto simp: field_view_def seen_def field_wf_def delta_View_def split: option.splits)

lemma sm_values_seen:
  assumes "machine_wf m"
  shows "\<exists>vs. sm_values m = Inr vs \<and> (\<forall>k. map_of vs k = Option.bind (map_of (sm_fields m) k) seen)"
  unfolding sm_values_def
  using collect_fields [of "sm_fields m" "\<lambda>_. field_view" "\<lambda>_. seen" "[]"] assms
  by (fastforce simp: machine_wf_def list_all_iff field_view_seen bind_eq_None_conv split: option.splits)

definition durable :: "bool \<Rightarrow> 'x fieldState \<Rightarrow> 'x gval option" where
  "durable snapshot f = (case f_kind (fs_spec f) of
     FieldDelta \<Rightarrow> if snapshot then map_option (\<lambda>v. VSnapshot (the (f_clone (fs_spec f)) v)) (d_cell (the (fs_delta f))) else None
   | FieldEphemeral \<Rightarrow> None
   | _ \<Rightarrow> if fs_available f then Some (the (f_clone (fs_spec f)) (fs_value f)) else None)"

lemma field_checkpoint_durable: "field_wf f \<Longrightarrow> field_checkpoint s f = Inr (durable s f)"
  using field_validate_cloners [of "fs_spec f"]
  by (auto simp: field_checkpoint_def durable_def field_wf_def delta_Get_def channel_of_spec_def
      split: option.splits fieldKind.splits)

lemma checkpointValues_durable:
  assumes "machine_wf m"
  shows "\<exists>vs. checkpointValues m snapshots = Inr vs \<and>
    (\<forall>k. map_of vs k = Option.bind (map_of (sm_fields m) k) (durable (dget False snapshots k)))"
  unfolding checkpointValues_def
  using collect_fields [of "sm_fields m" "\<lambda>k. field_checkpoint (dget False snapshots k)"
      "\<lambda>k. durable (dget False snapshots k)" "[]"] assms
  by (fastforce simp: machine_wf_def list_all_iff field_checkpoint_durable split: option.splits)

section \<open>Every reachable machine can be read and checkpointed\<close>

text \<open>The life of a machine: it is built from a schema and stored values, then updated and consumed in
  any order; a failing update leaves the machine it has reached.\<close>

inductive machine_reach :: "'x schema \<Rightarrow> 'x stateMachine \<Rightarrow> bool" for schema where
  reach_start: "newStateMachine schema stored histories = Inr m \<Longrightarrow> machine_reach schema m"
| reach_update: "machine_reach schema m \<Longrightarrow> sm_apply m updates = (m', r) \<Longrightarrow> machine_reach schema m'"
| reach_consume: "machine_reach schema m \<Longrightarrow> machine_reach schema (consumeEphemeral m)"

lemma machine_reach_wf: "machine_reach schema m \<Longrightarrow> machine_wf m"
proof (induction rule: machine_reach.induct)
  case (reach_start stored histories m)
  then show ?case by (rule newStateMachine_wf)
next
  case (reach_update m updates m' r)
  then show ?case using sm_apply_wf [of m updates] by simp
next
  case (reach_consume m)
  then show ?case by (simp add: consumeEphemeral_wf)
qed

text \<open>C27: no reachable state machine has a nil function, a missing channel or an empty delta field:
  reading its values and building its checkpoint values never fails, whichever snapshots are
  requested, and even after an update that failed half-way.\<close>

theorem machine_reach_readable:
  assumes "machine_reach schema m"
  shows "\<exists>vs cs. sm_values m = Inr vs \<and> checkpointValues m snapshots = Inr cs"
  using sm_values_seen [OF machine_reach_wf [OF assms]]
    checkpointValues_durable [OF machine_reach_wf [OF assms]] by blast

lemma fieldState_apply_ephemeral:
  assumes "fieldState_apply f writes = (f', Inr b)" and "f_kind (fs_spec f) = FieldEphemeral"
  shows "fs_spec f' = fs_spec f \<and> fs_available f'"
  using assms by (auto simp: fieldState_apply_def split: sum.splits if_splits)

text \<open>An ephemeral field lives for one superstep. After the values read by a superstep are consumed
  and its updates applied, the field is visible exactly when this superstep wrote it, and no checkpoint
  ever stores it.\<close>

theorem ephemeral_lifetime:
  assumes "machine_wf m" and "map_of (sm_fields m) k = Some f" and "f_kind (fs_spec f) = FieldEphemeral"
    and "\<forall>u \<in> set updates. distinct (dkeys u)"
    and "sm_apply (consumeEphemeral m) updates = (m', Inr overwrites)"
    and "sm_values m' = Inr vs" and "checkpointValues m' snapshots = Inr cs"
  shows "(map_of vs k \<noteq> None \<longleftrightarrow> written updates k) \<and> map_of cs k = None"
proof -
  let ?f = "consume_field f"
  have f: "field_or_new (consumeEphemeral m) k = ?f"
    and kind: "f_kind (fs_spec ?f) = FieldEphemeral" and av: "\<not> fs_available ?f"
    using assms(2,3) by (auto simp: field_or_new_def consume_field_def)
  have wf: "machine_wf m'"
    using sm_apply_wf [OF consumeEphemeral_wf [OF assms(1)], of updates] assms(5) by simp
  obtain f' where f': "map_of (sm_fields m') k = Some f'" "f_kind (fs_spec f') = FieldEphemeral"
    "fs_available f' \<longleftrightarrow> written updates k"
  proof (cases "written updates k")
    case True
    with sm_apply_success [OF assms(5,4), of k] f
    have "map_of (sm_fields m') k = Some (fst (fieldState_apply ?f (writes_of updates k)))"
      and "snd (fieldState_apply ?f (writes_of updates k)) = Inr (dget False overwrites k)" by auto
    then show thesis using that fieldState_apply_ephemeral [OF _ kind] kind True
      by (metis prod.collapse)
  next
    case False
    with sm_apply_success [OF assms(5,4), of k] assms(2) have "map_of (sm_fields m') k = Some ?f" by simp
    with that kind av False show thesis by blast
  qed
  have "map_of vs k = Option.bind (map_of (sm_fields m') k) seen"
    using sm_values_seen [OF wf] assms(6) by auto
  moreover have "map_of cs k = Option.bind (map_of (sm_fields m') k) (durable (dget False snapshots k))"
    using checkpointValues_durable [OF wf, of snapshots] assms(7) by auto
  ultimately show ?thesis using f' by (auto simp: seen_def durable_def)
qed

text \<open>A last-value field rejects concurrent writes. Any number of plain writes other than one is
  ErrInvalidStateUpdate and leaves the field as it was; one plain write replaces the value; a single
  overwrite among any writes wins.\<close>

theorem last_value_update:
  assumes "f_kind (fs_spec f) = FieldLast" and "f_clone (fs_spec f) = Some clone"
  shows "fieldState_apply f writes =
    (case filter is_overwrite writes of
       [] \<Rightarrow> (case writes of
            [w] \<Rightarrow> (f\<lparr>fs_value := clone w, fs_available := True\<rparr>, Inr False)
          | _ \<Rightarrow> (f, Inl ErrInvalidStateUpdate))
     | [w] \<Rightarrow> (f\<lparr>fs_value := clone (overwritten w), fs_available := True\<rparr>, Inr True)
     | _ \<Rightarrow> (f, Inl ErrInvalidStateUpdate))"
proof (cases rule: filter_count_cases [of is_overwrite writes])
  case none
  with assms show ?thesis by (auto simp: fieldState_apply_def split: list.split)
next
  case (one w)
  from scan_unique_one [OF one, of ErrInvalidStateUpdate 0] obtain j where
    "scan_unique ErrInvalidStateUpdate is_overwrite 0 (-1) writes = Inr (int j)" "writes ! j = w"
    by auto
  with assms one show ?thesis by (simp add: fieldState_apply_def)
next
  case many
  then obtain a b xs where "filter is_overwrite writes = a # b # xs"
    by (auto simp: Suc_le_length_iff simp flip: Suc_le_eq)
  with many show ?thesis by (simp add: fieldState_apply_def scan_unique_many)
qed

section \<open>A sample machine\<close>

definition sample_add :: "nat gval reducer" where
  "sample_add current writes = Inr (VSlice ((case current of VSlice xs \<Rightarrow> xs | _ \<Rightarrow> []) @ writes))"

definition sample_schema :: "nat schema" where
  "sample_schema = \<lparr>sc_fields =
     [(''log'', Delta (Some (VSlice [])) (Some sample_add) (Some identityClone) 2),
      (''last'', LastValue (Some identityClone)),
      (''tmp'', Ephemeral (Some identityClone))], sc_allowUnknown = False\<rparr>"

definition sample_machine :: "nat stateMachine" where
  "sample_machine = (case newStateMachine sample_schema [] [] of Inr m \<Rightarrow> m)"

lemmas sample_machine_defs = sample_machine_def sample_schema_def newStateMachine_def schema_Validate_def
  field_validate_def Delta_def LastValue_def Ephemeral_def add_schema_field_def new_field_def
  restore_delta_def new_delta_def NewDelta_def delta_seed_def new_fieldState_def specCopy_def

lemma sample_machine_eq:
  "newStateMachine sample_schema [] [] = Inr sample_machine"
  by (simp add: sample_machine_defs)

lemma sample_machine_fields:
  "sm_fields sample_machine =
    [(''log'', (new_fieldState (Delta (Some (VSlice [])) (Some sample_add) (Some identityClone) 2))
        \<lparr>fs_delta := Some \<lparr>d_initial = VSlice [], d_reduce = sample_add, d_clone = identityClone,
           d_snapshotFrequency = 2, d_ownedReducerInput = False, d_cell = Some (VSlice [])\<rparr>\<rparr>),
     (''last'', new_fieldState (LastValue (Some identityClone))),
     (''tmp'', new_fieldState (Ephemeral (Some identityClone)))]"
  by (simp add: sample_machine_defs)

lemma sample_machine_schema: "sm_schema sample_machine = sample_schema"
  by (simp add: sample_machine_defs)

definition sample_updates :: "nat vals list" where
  "sample_updates = [[(''log'', VInt 1), (''tmp'', VInt 7)], [(''last'', VStr ''x''), (''log'', VBatch [VInt 2, VInt 3])]]"

lemma sample_apply:
  "sm_apply sample_machine sample_updates =
     (fst (sm_apply sample_machine sample_updates), Inr [(''last'', False), (''log'', False), (''tmp'', False)])"
proof (rule prod_eqI)
  show "snd (sm_apply sample_machine sample_updates) =
      snd (fst (sm_apply sample_machine sample_updates), Inr [(''last'', False), (''log'', False), (''tmp'', False)])"
    by code_simp
qed simp

lemma sample_writes: "writes_of sample_updates ''log'' = [VInt 1, VInt 2, VInt 3]" "written sample_updates ''log''"
  by code_simp+

theorem sm_apply_fields_witness:
  "map_of (sm_fields (fst (sm_apply sample_machine sample_updates))) ''log'' =
     Some (fst (fieldState_apply (field_or_new sample_machine ''log'') [VInt 1, VInt 2, VInt 3]))"
  using sm_apply_fields [OF sample_apply, of "''log''"] sample_writes by (simp add: sample_updates_def)

theorem sm_apply_order_independent_witness:
  "sm_apply sample_machine [[(''log'', VInt 1), (''tmp'', VInt 7)]] =
   sm_apply sample_machine [[(''tmp'', VInt 7), (''log'', VInt 1)]]"
  by (rule sm_apply_order_independent) (auto simp: same_map_def)

theorem machine_reach_readable_witness:
  "\<exists>vs cs. sm_values (fst (sm_apply sample_machine sample_updates)) = Inr vs \<and>
     checkpointValues (fst (sm_apply sample_machine sample_updates)) [(''log'', True)] = Inr cs"
proof (rule machine_reach_readable)
  show "machine_reach sample_schema (fst (sm_apply sample_machine sample_updates))"
    by (rule reach_update [OF reach_start [OF sample_machine_eq] sample_apply])
qed

lemma sample_ephemeral_apply:
  "sm_apply (consumeEphemeral sample_machine) [[(''tmp'', VInt 7)]] =
     (fst (sm_apply (consumeEphemeral sample_machine) [[(''tmp'', VInt 7)]]), Inr [(''tmp'', False)])"
proof (rule prod_eqI)
  show "snd (sm_apply (consumeEphemeral sample_machine) [[(''tmp'', VInt 7)]]) =
      snd (fst (sm_apply (consumeEphemeral sample_machine) [[(''tmp'', VInt 7)]]), Inr [(''tmp'', False)])"
    by code_simp
qed simp

theorem ephemeral_lifetime_witness:
  "map_of [(''log'', VSlice []), (''tmp'', VInt 7 :: nat gval)] ''tmp'' \<noteq> None \<and>
   map_of [(''log'', VSnapshot (VSlice [])) :: string \<times> nat gval] ''tmp'' = None"
proof -
  let ?m = "fst (sm_apply (consumeEphemeral sample_machine) [[(''tmp'', VInt 7)]])"
  have v: "sm_values ?m = Inr [(''log'', VSlice []), (''tmp'', VInt 7)]" by code_simp
  have c: "checkpointValues ?m [(''log'', True)] = Inr [(''log'', VSnapshot (VSlice []))]" by code_simp
  have "machine_wf sample_machine" using sample_machine_eq by (rule newStateMachine_wf)
  from ephemeral_lifetime [OF this _ _ _ sample_ephemeral_apply v c, of "''tmp''"] show ?thesis
    by (simp add: sample_machine_fields new_fieldState_def Ephemeral_def)
qed

theorem last_value_update_witness:
  "fieldState_apply (new_fieldState (LastValue (Some identityClone))) [VNil, VInt (1 :: 64 word) :: nat gval] =
     (new_fieldState (LastValue (Some identityClone)), Inl ErrInvalidStateUpdate)"
  using last_value_update [of "new_fieldState (LastValue (Some identityClone))" identityClone "[VNil, VInt (1 :: 64 word) :: nat gval]"]
  by (simp add: new_fieldState_def LastValue_def is_overwrite_def)

end
