(* ===== verification/Bounded_Heap.thy ===== *)
theory Bounded_Heap
  imports Dago_Prelude
begin

text \<open>
  The bounded selections of \<^verbatim>\<open>dacheckpoint/memory.go\<close> and \<^verbatim>\<open>dastore/store.go\<close>: a max-heap of at most
  \<open>limit\<close> elements kept with \<^verbatim>\<open>container/heap\<close>, from which the largest element is evicted when a
  smaller one comes. The heap operations are those of the Go library, on a list and with the
  element order \<open>lt\<close> of the client (the heap's \<^verbatim>\<open>Less\<close> is the reversed order).

  The locale \<open>weak_order\<close> is what a client promises about its order; the theorem it gives is that
  a bounded selection returns the first \<open>limit\<close> elements of the sorted input.
\<close>

section \<open>The heap operations\<close>

definition swap :: "'a list \<Rightarrow> nat \<Rightarrow> nat \<Rightarrow> 'a list" where
  "swap xs i j = xs[i := xs ! j, j := xs ! i]"

function heap_up :: "('a \<Rightarrow> 'a \<Rightarrow> bool) \<Rightarrow> 'a list \<Rightarrow> nat \<Rightarrow> 'a list" where
  "heap_up lt xs j =
     (let i = (j - 1) div 2
      in if i = j \<or> \<not> lt (xs ! i) (xs ! j) then xs else heap_up lt (swap xs i j) i)"
  by auto
termination
  by (relation "measure (\<lambda>(lt, xs, j). j)") auto

function heap_down :: "('a \<Rightarrow> 'a \<Rightarrow> bool) \<Rightarrow> 'a list \<Rightarrow> nat \<Rightarrow> nat \<Rightarrow> 'a list \<times> nat" where
  "heap_down lt xs i n =
     (let j1 = 2 * i + 1; j2 = j1 + 1
      in if n \<le> j1 then (xs, i)
         else
           let j = (if j2 < n \<and> lt (xs ! j1) (xs ! j2) then j2 else j1)
           in if \<not> lt (xs ! i) (xs ! j) then (xs, i) else heap_down lt (swap xs i j) j n)"
  by auto
termination
  by (relation "measure (\<lambda>(lt, xs, i, n). n - i)") (auto split: if_splits)

declare heap_up.simps [simp del] heap_down.simps [simp del]

definition heap_Push :: "('a \<Rightarrow> 'a \<Rightarrow> bool) \<Rightarrow> 'a list \<Rightarrow> 'a \<Rightarrow> 'a list" where
  "heap_Push lt xs x = heap_up lt (xs @ [x]) (length xs)"

definition heap_Fix :: "('a \<Rightarrow> 'a \<Rightarrow> bool) \<Rightarrow> 'a list \<Rightarrow> nat \<Rightarrow> 'a list" where
  "heap_Fix lt xs i =
     (let (ys, j) = heap_down lt xs i (length xs) in if j > i then ys else heap_up lt ys i)"

text \<open>Adding to a selection; reading the root of an empty heap is an index panic.\<close>

definition bounded_Add :: "('a \<Rightarrow> 'a \<Rightarrow> bool) \<Rightarrow> int \<Rightarrow> 'a \<Rightarrow> 'a list \<Rightarrow> 'a list res" where
  "bounded_Add lt limit x items =
     (if int (length items) < limit then Inr (heap_Push lt items x)
      else if items = [] then Inl (Errorf ''index out of range'')
      else if lt x (items ! 0) then Inr (heap_Fix lt (items[0 := x]) 0)
      else Inr items)"

text \<open>\<^verbatim>\<open>sort.Slice\<close> by the order, as an insertion sort.\<close>

fun insert_by :: "('a \<Rightarrow> 'a \<Rightarrow> bool) \<Rightarrow> 'a \<Rightarrow> 'a list \<Rightarrow> 'a list" where
  "insert_by lt x [] = [x]"
| "insert_by lt x (y # ys) = (if lt x y then x # y # ys else y # insert_by lt x ys)"

definition sort_by :: "('a \<Rightarrow> 'a \<Rightarrow> bool) \<Rightarrow> 'a list \<Rightarrow> 'a list" where
  "sort_by lt xs = fold (insert_by lt) xs []"

definition bounded_select :: "('a \<Rightarrow> 'a \<Rightarrow> bool) \<Rightarrow> int \<Rightarrow> 'a list \<Rightarrow> 'a list res" where
  "bounded_select lt limit xs =
     res_bind (fold_res (bounded_Add lt limit) xs []) (\<lambda>items. Inr (sort_by lt items))"

section \<open>Swaps\<close>

lemma length_swap [simp]: "length (swap xs i j) = length xs"
  by (simp add: swap_def)

lemma mset_swap [simp]: "i < length xs \<Longrightarrow> j < length xs \<Longrightarrow> mset (swap xs i j) = mset xs"
  by (simp add: swap_def Multiset.mset_swap)

lemma nth_swap:
  "i < length xs \<Longrightarrow> j < length xs \<Longrightarrow> k < length xs \<Longrightarrow>
   swap xs i j ! k = (if k = j then xs ! i else if k = i then xs ! j else xs ! k)"
  by (auto simp: swap_def nth_list_update)

section \<open>The heap property\<close>

definition parent :: "nat \<Rightarrow> nat" where
  "parent k = (k - 1) div 2"

definition heap_ok :: "('a \<Rightarrow> 'a \<Rightarrow> bool) \<Rightarrow> 'a list \<Rightarrow> bool" where
  "heap_ok lt xs \<longleftrightarrow> (\<forall>k. 0 < k \<and> k < length xs \<longrightarrow> \<not> lt (xs ! parent k) (xs ! k))"

text \<open>The property with one defect: between \<open>j\<close> and its parent, or between \<open>i\<close> and its children.\<close>

definition heap_but_up :: "('a \<Rightarrow> 'a \<Rightarrow> bool) \<Rightarrow> 'a list \<Rightarrow> nat \<Rightarrow> bool" where
  "heap_but_up lt xs j \<longleftrightarrow>
     (\<forall>k. 0 < k \<and> k < length xs \<and> k \<noteq> j \<longrightarrow> \<not> lt (xs ! parent k) (xs ! k)) \<and>
     (\<forall>k. 0 < k \<and> k < length xs \<and> parent k = j \<and> 0 < j \<longrightarrow> \<not> lt (xs ! parent j) (xs ! k))"

definition heap_but_down :: "('a \<Rightarrow> 'a \<Rightarrow> bool) \<Rightarrow> 'a list \<Rightarrow> nat \<Rightarrow> bool" where
  "heap_but_down lt xs i \<longleftrightarrow>
     (\<forall>k. 0 < k \<and> k < length xs \<and> parent k \<noteq> i \<longrightarrow> \<not> lt (xs ! parent k) (xs ! k)) \<and>
     (\<forall>k. 0 < k \<and> k < length xs \<and> parent k = i \<and> 0 < i \<longrightarrow> \<not> lt (xs ! parent i) (xs ! k))"

lemma heap_but_upD:
  assumes "heap_but_up lt xs j" and "0 < k" and "k < length xs"
  shows "k \<noteq> j \<Longrightarrow> \<not> lt (xs ! parent k) (xs ! k)"
    and "parent k = j \<Longrightarrow> 0 < j \<Longrightarrow> \<not> lt (xs ! parent j) (xs ! k)"
  using assms unfolding heap_but_up_def by blast+

lemma heap_but_downD:
  assumes "heap_but_down lt xs i" and "0 < k" and "k < length xs"
  shows "parent k \<noteq> i \<Longrightarrow> \<not> lt (xs ! parent k) (xs ! k)"
    and "parent k = i \<Longrightarrow> 0 < i \<Longrightarrow> \<not> lt (xs ! parent i) (xs ! k)"
  using assms unfolding heap_but_down_def by blast+

lemma parent_less: "0 < k \<Longrightarrow> parent k < k"
  by (simp add: parent_def)

lemma parent_children: "0 < k \<Longrightarrow> parent k = i \<longleftrightarrow> k = 2 * i + 1 \<or> k = 2 * i + 2"
  by (auto simp: parent_def)

locale weak_order =
  fixes lt :: "'a \<Rightarrow> 'a \<Rightarrow> bool"
  assumes asym: "lt a b \<Longrightarrow> \<not> lt b a"
    and neg_trans: "\<not> lt a b \<Longrightarrow> \<not> lt b c \<Longrightarrow> \<not> lt a c"
begin

lemma irrefl: "\<not> lt a a"
  using asym by blast

lemma lt_le_trans: "lt a b \<Longrightarrow> \<not> lt c b \<Longrightarrow> lt a c"
  using neg_trans by blast

lemma heap_root_max:
  assumes "heap_ok lt xs" and "k < length xs"
  shows "\<not> lt (xs ! 0) (xs ! k)"
  using assms(2)
proof (induction k rule: less_induct)
  case (less k)
  show ?case
  proof (cases "k = 0")
    case True
    then show ?thesis by (simp add: irrefl)
  next
    case False
    then have "\<not> lt (xs ! 0) (xs ! parent k)" using less parent_less [of k] by simp
    moreover have "\<not> lt (xs ! parent k) (xs ! k)" using assms(1) less.prems False by (simp add: heap_ok_def)
    ultimately show ?thesis by (rule neg_trans)
  qed
qed

lemma up_step:
  assumes "heap_but_up lt xs j" and "j < length xs" and "0 < j" and "lt (xs ! parent j) (xs ! j)"
  shows "heap_but_up lt (swap xs (parent j) j) (parent j)"
  unfolding heap_but_up_def
proof (intro conjI allI impI)
  let ?p = "parent j" and ?ys = "swap xs (parent j) j"
  have p: "?p < j" using assms(3) by (rule parent_less)
  note nth = nth_swap [of ?p xs j]
  fix k
  {
    assume k: "0 < k \<and> k < length ?ys \<and> k \<noteq> ?p"
    then have pk: "parent k < k" by (simp add: parent_less)
    show "\<not> lt (?ys ! parent k) (?ys ! k)"
    proof (cases "k = j")
      case True
      then show ?thesis using assms p nth asym by (simp add: irrefl)
    next
      case False
      then have ok: "\<not> lt (xs ! parent k) (xs ! k)"
        using heap_but_upD(1) [OF assms(1)] k by simp
      consider "parent k = j" | "parent k = ?p" | "parent k \<noteq> j" "parent k \<noteq> ?p" by blast
      then show ?thesis
      proof cases
        case 1
        with assms k have "\<not> lt (xs ! ?p) (xs ! k)" using heap_but_upD(2) [OF assms(1)] by simp
        with 1 False k p assms(2) nth show ?thesis by simp
      next
        case 2
        with ok have "\<not> lt (xs ! j) (xs ! k)" using neg_trans [OF asym [OF assms(4)]] by simp
        with 2 False k p assms(2) nth show ?thesis by simp
      next
        case 3
        with ok False k p pk assms(2) nth show ?thesis by simp
      qed
    qed
  }
  {
    assume k: "0 < k \<and> k < length ?ys \<and> parent k = ?p \<and> 0 < ?p"
    have pp: "parent ?p < ?p" using k by (simp add: parent_less)
    have okp: "\<not> lt (xs ! parent ?p) (xs ! ?p)"
      using heap_but_upD(1) [OF assms(1), of ?p] assms(2) k p by simp
    show "\<not> lt (?ys ! parent ?p) (?ys ! k)"
    proof (cases "k = j")
      case True
      with okp k p pp assms(2) nth show ?thesis by simp
    next
      case False
      then have "\<not> lt (xs ! ?p) (xs ! k)" using heap_but_upD(1) [OF assms(1), of k] k by simp
      with okp have "\<not> lt (xs ! parent ?p) (xs ! k)" by (rule neg_trans)
      moreover have "k \<noteq> ?p" using k parent_less [of k] by auto
      ultimately show ?thesis using False k p pp assms(2) nth by simp
    qed
  }
qed

lemma heap_up_ok:
  "heap_but_up lt xs j \<Longrightarrow> j < length xs \<Longrightarrow>
   heap_ok lt (heap_up lt xs j) \<and> mset (heap_up lt xs j) = mset xs"
proof (induction j arbitrary: xs rule: less_induct)
  case (less j)
  show ?case
  proof (cases "parent j = j \<or> \<not> lt (xs ! parent j) (xs ! j)")
    case True
    then have "heap_up lt xs j = xs" by (simp add: heap_up.simps [of lt xs j] Let_def parent_def)
    moreover have "heap_ok lt xs"
      unfolding heap_ok_def
    proof (intro allI impI)
      fix k assume k: "0 < k \<and> k < length xs"
      show "\<not> lt (xs ! parent k) (xs ! k)"
        using True heap_but_upD(1) [OF less.prems(1), of k] k parent_less [of k] by (cases "k = j") auto
    qed
    ultimately show ?thesis by simp
  next
    case False
    then have j: "0 < j" by (cases j) (auto simp: parent_def)
    from False have "heap_up lt xs j = heap_up lt (swap xs (parent j) j) (parent j)"
      by (subst heap_up.simps) (simp add: Let_def parent_def)
    moreover have "heap_but_up lt (swap xs (parent j) j) (parent j)"
      using less.prems j False by (intro up_step) auto
    ultimately show ?thesis
      using less.IH [OF parent_less [OF j], of "swap xs (parent j) j"] less.prems(2) parent_less [OF j] by simp
  qed
qed

lemma heap_Push_ok:
  assumes "heap_ok lt xs"
  shows "heap_ok lt (heap_Push lt xs x) \<and> mset (heap_Push lt xs x) = mset (x # xs)"
proof -
  have "heap_but_up lt (xs @ [x]) (length xs)"
    unfolding heap_but_up_def
  proof (intro conjI allI impI)
    fix k assume k: "0 < k \<and> k < length (xs @ [x]) \<and> k \<noteq> length xs"
    with assms parent_less [of k] show "\<not> lt ((xs @ [x]) ! parent k) ((xs @ [x]) ! k)"
      by (simp add: heap_ok_def nth_append)
  next
    fix k assume "0 < k \<and> k < length (xs @ [x]) \<and> parent k = length xs \<and> 0 < length xs"
    then show "\<not> lt ((xs @ [x]) ! parent (length xs)) ((xs @ [x]) ! k)"
      using parent_less [of k] by auto
  qed
  from heap_up_ok [OF this] show ?thesis by (simp add: heap_Push_def)
qed

lemma down_step:
  assumes "heap_but_down lt xs i" and "parent j = i" and "0 < j" and "j < length xs"
    and "lt (xs ! i) (xs ! j)"
    and best: "\<And>k. 0 < k \<Longrightarrow> k < length xs \<Longrightarrow> parent k = i \<Longrightarrow> \<not> lt (xs ! j) (xs ! k)"
  shows "heap_but_down lt (swap xs i j) j"
  unfolding heap_but_down_def
proof (intro conjI allI impI)
  have i: "i < j" using assms(2,3) parent_less by blast
  note nth = nth_swap [of i xs j]
  fix k
  {
    assume k: "0 < k \<and> k < length (swap xs i j) \<and> parent k \<noteq> j"
    then have pk: "parent k < k" by (simp add: parent_less)
    show "\<not> lt (swap xs i j ! parent k) (swap xs i j ! k)"
    proof (cases "parent k = i")
      case True
      show ?thesis
      proof (cases "k = j")
        case True
        then show ?thesis using assms i nth asym by simp
      next
        case False
        with True k best [of k] i assms(4) nth pk show ?thesis by simp
      qed
    next
      case False
      then have ok: "\<not> lt (xs ! parent k) (xs ! k)" using heap_but_downD(1) [OF assms(1), of k] k by simp
      show ?thesis
      proof (cases "k = i")
        case True
        then have "\<not> lt (xs ! parent i) (xs ! j)"
          using heap_but_downD(2) [OF assms(1), of j] assms(2-4) k by simp
        with True False k i assms(4) nth pk show ?thesis by simp
      next
        case False
        then have "k \<noteq> j" using \<open>parent k \<noteq> i\<close> assms(2) by auto
        with ok False \<open>parent k \<noteq> i\<close> k i assms(4) nth pk show ?thesis by simp
      qed
    qed
  }
  {
    assume k: "0 < k \<and> k < length (swap xs i j) \<and> parent k = j \<and> 0 < j"
    then have "\<not> lt (xs ! j) (xs ! k)" using heap_but_downD(1) [OF assms(1), of k] i by simp
    moreover have "j < k" using k parent_less by blast
    ultimately show "\<not> lt (swap xs i j ! parent j) (swap xs i j ! k)"
      using assms(2,4) i k nth by simp
  }
qed

lemma heap_down_ok:
  "heap_but_down lt xs i \<Longrightarrow> i < length xs \<Longrightarrow> heap_down lt xs i (length xs) = (ys, j) \<Longrightarrow>
   heap_ok lt ys \<and> mset ys = mset xs \<and> i \<le> j"
proof (induction "length xs - i" arbitrary: xs i rule: less_induct)
  case less
  let ?n = "length xs" and ?j1 = "2 * i + 1" and ?j2 = "2 * i + 2"
  let ?j = "if ?j2 < ?n \<and> lt (xs ! ?j1) (xs ! ?j2) then ?j2 else ?j1"
  have done_ok: "heap_ok lt xs" if "\<And>k. 0 < k \<Longrightarrow> k < ?n \<Longrightarrow> parent k = i \<Longrightarrow> \<not> lt (xs ! i) (xs ! k)"
    unfolding heap_ok_def using that heap_but_downD(1) [OF less.prems(1)] by blast
  consider (leaf) "?n \<le> ?j1" | (stop) "\<not> ?n \<le> ?j1" "\<not> lt (xs ! i) (xs ! ?j)"
    | (go) "\<not> ?n \<le> ?j1" "lt (xs ! i) (xs ! ?j)" by blast
  then show ?case
  proof cases
    case leaf
    then have "ys = xs" "j = i" using less.prems(3) by (simp_all add: heap_down.simps [of lt xs i])
    moreover have "heap_ok lt xs" using leaf by (intro done_ok) (auto simp: parent_children)
    ultimately show ?thesis by simp
  next
    case stop
    then have "ys = xs" "j = i" using less.prems(3)
      by (auto simp: heap_down.simps [of lt xs i] Let_def split: if_splits)
    moreover have "heap_ok lt xs"
    proof (rule done_ok)
      fix k assume "0 < k" "k < ?n" "parent k = i"
      then have k: "k = ?j1 \<or> k = ?j2 \<and> ?j2 < ?n" by (auto simp: parent_children)
      show "\<not> lt (xs ! i) (xs ! k)"
      proof (rule neg_trans [OF stop(2)])
        show "\<not> lt (xs ! ?j) (xs ! k)" using k asym irrefl by (cases "?j2 < ?n \<and> lt (xs ! ?j1) (xs ! ?j2)") auto
      qed
    qed
    ultimately show ?thesis by simp
  next
    case go
    have jn: "?j < ?n" "0 < ?j" "parent ?j = i" using go(1) by (auto simp: parent_def)
    have "heap_but_down lt (swap xs i ?j) ?j"
    proof (rule down_step [OF less.prems(1) jn(3,2,1) go(2)])
      fix k assume "0 < k" "k < ?n" "parent k = i"
      then have k: "k = ?j1 \<or> k = ?j2 \<and> ?j2 < ?n" by (auto simp: parent_children)
      then show "\<not> lt (xs ! ?j) (xs ! k)"
        using asym irrefl by (cases "?j2 < ?n \<and> lt (xs ! ?j1) (xs ! ?j2)") auto
    qed
    moreover have "heap_down lt xs i ?n = heap_down lt (swap xs i ?j) ?j ?n"
      using go by (subst heap_down.simps) (auto simp: Let_def split: if_splits)
    moreover have "i < ?j" by simp
    ultimately have "heap_ok lt ys \<and> mset ys = mset (swap xs i ?j) \<and> ?j \<le> j"
      using less.prems jn less.hyps [of "swap xs i ?j" ?j] by simp
    with jn less.prems(2) \<open>i < ?j\<close> show ?thesis by simp
  qed
qed

lemma heap_Fix_root_ok:
  assumes "heap_ok lt xs" and "xs \<noteq> []"
  shows "heap_ok lt (heap_Fix lt (xs[0 := x]) 0) \<and>
    mset (heap_Fix lt (xs[0 := x]) 0) = mset (x # tl xs)"
proof -
  have n: "0 < length (xs[0 := x])" using assms(2) by simp
  obtain ys j where d: "heap_down lt (xs[0 := x]) 0 (length (xs[0 := x])) = (ys, j)" by fastforce
  have "heap_but_down lt (xs[0 := x]) 0"
    using assms(1) by (auto simp: heap_but_down_def heap_ok_def nth_list_update)
  from heap_down_ok [OF this n d] have "heap_ok lt ys \<and> mset ys = mset (xs[0 := x])" by simp
  moreover have "heap_up lt ys 0 = ys" by (subst heap_up.simps) simp
  moreover have "mset (xs[0 := x]) = mset (x # tl xs)" using assms(2) by (cases xs) auto
  ultimately show ?thesis using d by (simp add: heap_Fix_def)
qed

text \<open>Sorting by the order.\<close>

definition ordered :: "'a list \<Rightarrow> bool" where
  "ordered xs \<longleftrightarrow> sorted_wrt (\<lambda>a b. \<not> lt b a) xs"

lemma mset_insert_by [simp]: "mset (insert_by lt x xs) = mset (x # xs)"
  by (induction xs) auto

lemma set_insert_by [simp]: "set (insert_by lt x xs) = insert x (set xs)"
  by (induction xs) auto

lemma length_insert_by [simp]: "length (insert_by lt x xs) = Suc (length xs)"
  by (induction xs) auto

lemma ordered_insert_by: "ordered xs \<Longrightarrow> ordered (insert_by lt x xs)"
proof (induction xs)
  case (Cons y ys)
  show ?case
  proof (cases "lt x y")
    case True
    have "\<not> lt z x" if "z \<in> set ys" for z
      using Cons.prems that True neg_trans [of z y x] asym by (auto simp: ordered_def)
    with True Cons.prems show ?thesis by (auto simp: ordered_def dest: asym)
  next
    case False
    with Cons show ?thesis by (auto simp: ordered_def)
  qed
qed (simp add: ordered_def)

lemma sort_by_snoc: "sort_by lt (xs @ [x]) = insert_by lt x (sort_by lt xs)"
  by (simp add: sort_by_def)

lemma sort_by_ok: "ordered (sort_by lt xs) \<and> mset (sort_by lt xs) = mset xs"
proof (induction xs rule: rev_induct)
  case (snoc x xs)
  then show ?case by (simp add: sort_by_snoc ordered_insert_by)
qed (simp add: sort_by_def ordered_def)

text \<open>Elements of a selection are pairwise comparable.\<close>

definition comparable :: "'a set \<Rightarrow> bool" where
  "comparable A \<longleftrightarrow> (\<forall>a \<in> A. \<forall>b \<in> A. a \<noteq> b \<longrightarrow> lt a b \<or> lt b a)"

lemma ordered_unique:
  "ordered xs \<Longrightarrow> ordered ys \<Longrightarrow> mset xs = mset ys \<Longrightarrow> comparable (set xs) \<Longrightarrow> xs = ys"
proof (induction xs arbitrary: ys)
  case (Cons x xs)
  then obtain y ys' where ys: "ys = y # ys'" by (cases ys) auto
  have set_eq: "insert x (set xs) = insert y (set ys')"
    using arg_cong [OF Cons.prems(3), of set_mset] by (simp add: ys)
  have "x = y"
  proof (rule ccontr)
    assume ne: "x \<noteq> y"
    then have "y \<in> set xs" "x \<in> set ys'" using set_eq by auto
    then have "\<not> lt y x" "\<not> lt x y" using Cons.prems(1,2) by (auto simp: ordered_def ys)
    with Cons.prems(4) ne set_eq show False by (auto simp: comparable_def)
  qed
  with Cons ys show ?case by (auto simp: ordered_def comparable_def)
qed simp

lemma take_insert_by: "take n (insert_by lt x xs) = take n (insert_by lt x (take n xs))"
proof (induction xs arbitrary: n)
  case (Cons y ys)
  then show ?case by (cases n) (auto simp: take_Cons' )
qed simp

lemma insert_by_last:
  assumes "ordered T" and "T \<noteq> []"
  shows "take (length T) (insert_by lt x T) =
    (if lt x (last T) then insert_by lt x (butlast T) else T)"
  using assms
proof (induction T)
  case (Cons y ys)
  show ?case
  proof (cases "ys = []")
    case True
    then show ?thesis by simp
  next
    case False
    then have IH: "take (length ys) (insert_by lt x ys) =
        (if lt x (last ys) then insert_by lt x (butlast ys) else ys)"
      using Cons by (simp add: ordered_def)
    show ?thesis
    proof (cases "lt x y")
      case True
      have "\<not> lt (last ys) y" using Cons.prems(1) False by (simp add: ordered_def)
      then have "lt x (last ys)" using True lt_le_trans by blast
      with True False show ?thesis by (simp add: take_Cons' butlast_conv_take)
    next
      case ge: False
      with IH False show ?thesis by simp
    qed
  qed
qed simp

lemma insert_by_butlast_mset:
  "T \<noteq> [] \<Longrightarrow> mset (insert_by lt x (butlast T)) = mset (x # T) - {# last T #}"
  by (cases T rule: rev_cases) auto

text \<open>The heap holds the smallest elements seen so far.\<close>

definition selects :: "nat \<Rightarrow> 'a list \<Rightarrow> 'a list \<Rightarrow> bool" where
  "selects n seen items \<longleftrightarrow> heap_ok lt items \<and> mset items = mset (take n (sort_by lt seen))"

lemma selects_step:
  assumes "selects n seen items" and "0 < n" and "comparable (set (seen @ [x]))"
  shows "\<exists>items'. bounded_Add lt (int n) x items = Inr items' \<and> selects n (seen @ [x]) items'"
proof -
  let ?S = "sort_by lt seen" and ?T = "take n (sort_by lt seen)"
  have heap: "heap_ok lt items" and ms: "mset items = mset ?T"
    using assms(1) by (auto simp: selects_def)
  have len: "length items = min n (length seen)"
    using arg_cong [OF ms, of size] sort_by_ok [of seen] by (metis length_take mset_eq_length size_mset min.commute)
  have lenS: "length ?S = length seen" using sort_by_ok [of seen] by (metis size_mset)
  show ?thesis
  proof (cases "length items < n")
    case True
    with len have lt_n: "length seen < n" by simp
    have "mset (heap_Push lt items x) = mset (take n (sort_by lt (seen @ [x])))"
      using heap_Push_ok [OF heap, of x] ms lt_n lenS by (simp add: sort_by_snoc)
    with True heap_Push_ok [OF heap, of x] show ?thesis by (simp add: bounded_Add_def selects_def)
  next
    case False
    with len have full: "length items = n" "n \<le> length seen" by auto
    with assms(2) have ne: "items \<noteq> []" and Tne: "?T \<noteq> []" and lenT: "length ?T = n"
      using lenS by auto
    have ordT: "ordered ?T" using sort_by_ok [of seen] by (simp add: ordered_def sorted_wrt_take)
    have take_eq: "take n (sort_by lt (seen @ [x])) =
        (if lt x (last ?T) then insert_by lt x (butlast ?T) else ?T)"
      using insert_by_last [OF ordT Tne, of x] lenT by (simp add: sort_by_snoc take_insert_by [of n x ?S])
    have root: "items ! 0 = last ?T"
    proof (rule ccontr)
      assume neq: "items ! 0 \<noteq> last ?T"
      have in_T: "items ! 0 \<in> set ?T" using ne ms by (metis mset_eq_setD nth_mem length_greater_0_conv)
      have "last ?T \<in> set items" using Tne ms by (metis last_in_set mset_eq_setD)
      then obtain k where "k < length items" "items ! k = last ?T" by (auto simp: in_set_conv_nth)
      with heap_root_max [OF heap] have a: "\<not> lt (items ! 0) (last ?T)" by metis
      have "?T = butlast ?T @ [last ?T]" using Tne by simp
      with in_T neq have "items ! 0 \<in> set (butlast ?T)" by (metis UnE empty_iff empty_set set_ConsD set_append)
      then have b: "\<not> lt (last ?T) (items ! 0)"
        using ordT Tne by (metis \<open>?T = butlast ?T @ [last ?T]\<close> ordered_def sorted_wrt_append list.set_intros(1))
      have "set ?T \<subseteq> set seen" using sort_by_ok [of seen] by (metis mset_eq_setD set_take_subset)
      with in_T last_in_set [OF Tne] have "items ! 0 \<in> set seen" "last ?T \<in> set seen" by blast+
      with assms(3) neq a b show False by (metis UnCI comparable_def set_append)
    qed
    show ?thesis
    proof (cases "lt x (last ?T)")
      case True
      have "mset (x # tl items) = mset (x # items) - {# items ! 0 #}"
        using ne by (cases items) auto
      then have "mset (heap_Fix lt (items[0 := x]) 0) = mset (take n (sort_by lt (seen @ [x])))"
        using heap_Fix_root_ok [OF heap ne, of x] True take_eq root ms insert_by_butlast_mset [OF Tne, of x]
        by simp
      with True False ne root heap_Fix_root_ok [OF heap ne, of x] full show ?thesis
        by (simp add: bounded_Add_def selects_def)
    next
      case lt: False
      with False ne root heap ms take_eq full show ?thesis by (simp add: bounded_Add_def selects_def)
    qed
  qed
qed

lemma fold_selects:
  assumes "selects n seen items" and "0 < n" and "comparable (set (seen @ xs))"
  shows "\<exists>items'. fold_res (bounded_Add lt (int n)) xs items = Inr items' \<and> selects n (seen @ xs) items'"
  using assms
proof (induction xs arbitrary: seen items)
  case (Cons x xs)
  have "comparable (set (seen @ [x]))" using Cons.prems(3) by (auto simp: comparable_def)
  from selects_step [OF Cons.prems(1,2) this] obtain i1 where
    "bounded_Add lt (int n) x items = Inr i1" "selects n (seen @ [x]) i1" by blast
  with Cons.IH [of "seen @ [x]" i1] Cons.prems(2,3) show ?case by simp
qed simp

lemma selects_sorted:
  assumes "selects n seen items" and "comparable (set seen)"
  shows "sort_by lt items = take n (sort_by lt seen)"
proof (rule ordered_unique)
  show "ordered (sort_by lt items)" using sort_by_ok by blast
  show "ordered (take n (sort_by lt seen))" using sort_by_ok [of seen] by (simp add: ordered_def sorted_wrt_take)
  show ms: "mset (sort_by lt items) = mset (take n (sort_by lt seen))"
    using assms(1) sort_by_ok [of items] by (simp add: selects_def)
  have "set (take n (sort_by lt seen)) \<subseteq> set seen" using sort_by_ok [of seen] by (metis mset_eq_setD set_take_subset)
  with assms(2) show "comparable (set (sort_by lt items))" unfolding mset_eq_setD [OF ms] comparable_def by blast
qed

text \<open>An element that was seen and is not selected cannot come back.\<close>

lemma selects_evicted:
  assumes "selects n seen items" and "0 < n" and "x \<in> set seen" and "x \<notin> set items"
  shows "length items = n \<and> \<not> lt x (items ! 0)"
proof -
  let ?S = "sort_by lt seen"
  have ms: "mset items = mset (take n ?S)" using assms(1) by (simp add: selects_def)
  have "x \<in> set ?S" using assms(3) sort_by_ok [of seen] by (metis mset_eq_setD)
  moreover have "x \<notin> set (take n ?S)" using assms(4) ms by (metis mset_eq_setD)
  ultimately have x: "x \<in> set (drop n ?S)" by (metis UnE append_take_drop_id set_append)
  then have "n < length ?S" by (metis drop_eq_Nil empty_iff empty_set not_le)
  then have len: "length items = n" using arg_cong [OF ms, of size] by simp
  with assms(2) have "items ! 0 \<in> set (take n ?S)" using ms by (metis mset_eq_setD nth_mem)
  moreover have "sorted_wrt (\<lambda>a b. \<not> lt b a) (take n ?S @ drop n ?S)"
    using sort_by_ok [of seen] by (simp add: ordered_def)
  ultimately show ?thesis using x len unfolding sorted_wrt_append by blast
qed

lemma bounded_select_first:
  assumes "0 < limit" and "comparable (set xs)"
  shows "bounded_select lt limit xs = Inr (take (nat limit) (sort_by lt xs))"
proof -
  have "selects (nat limit) [] []" by (simp add: selects_def heap_ok_def sort_by_def)
  from fold_selects [OF this, of xs] assms obtain items where
    items: "fold_res (bounded_Add lt limit) xs [] = Inr items" "selects (nat limit) xs items" by auto
  with assms(2) show ?thesis by (simp add: bounded_select_def selects_sorted)
qed

end

end
