(* ===== verification/Memory_Saver.thy ===== *)
theory Memory_Saver
  imports Checkpoint_Types Bounded_Heap
begin

text \<open>
  \<^verbatim>\<open>MemorySaver\<close> of \<^verbatim>\<open>dacheckpoint/memory.go\<close>: checkpoints, versioned channel blobs and pending writes
  kept in three maps. Every exported method is atomic under the saver's mutex and is one function
  from the saver before the call to the saver after it and the Go result; \<open>ctx\<close> is the value of
  \<^verbatim>\<open>ctx.Err()\<close> at the call.

  The two loops that follow parent identifiers run with as much fuel as there are records: a chain
  that is longer visits a record twice and never ends, which is the value \<open>Diverges\<close>.
\<close>

section \<open>State\<close>

record memoryKey =
  mk_threadID :: string
  mk_namespace :: string
  mk_id :: string

definition memoryKeyLess :: "memoryKey \<Rightarrow> memoryKey \<Rightarrow> bool" where
  "memoryKeyLess l r =
     (if mk_threadID l \<noteq> mk_threadID r then mk_threadID l < mk_threadID r
      else if mk_namespace l \<noteq> mk_namespace r then mk_namespace l < mk_namespace r
      else mk_id l > mk_id r)"

record blobKey =
  bk_threadID :: string
  bk_namespace :: string
  bk_channel :: string
  bk_version :: string

record 'x memoryRecord =
  mr_checkpoint :: "'x checkpoint"
  mr_metadata :: "'x metadata"
  mr_parentID :: string

text \<open>A blob is its value when present (\<^verbatim>\<open>memoryBlob\<close>); a write key is a task and an index.\<close>

type_synonym 'x memoryBlob = "'x gval option"
type_synonym writeKey = "string \<times> int"

record 'x memorySaver =
  ms_records :: "(memoryKey, 'x memoryRecord) dict"
  ms_blobs :: "(blobKey, 'x memoryBlob) dict"
  ms_writes :: "(memoryKey, (writeKey, 'x pendingWrite) dict) dict"

definition NewMemorySaver :: "'x memorySaver" where
  "NewMemorySaver = \<lparr>ms_records = [], ms_blobs = [], ms_writes = []\<rparr>"

definition memory_key :: "config \<Rightarrow> string \<Rightarrow> memoryKey" where
  "memory_key c i = \<lparr>mk_threadID = cf_threadID c, mk_namespace = cf_namespace c, mk_id = i\<rparr>"

definition blob_key :: "config \<Rightarrow> string \<Rightarrow> string \<Rightarrow> blobKey" where
  "blob_key c channel version =
     \<lparr>bk_threadID = cf_threadID c, bk_namespace = cf_namespace c, bk_channel = channel, bk_version = version\<rparr>"

type_synonym goctx = "gerr option"

definition ctx_err :: "goctx \<Rightarrow> unit res" where
  "ctx_err ctx = (case ctx of None \<Rightarrow> Inr () | Some e \<Rightarrow> Inl e)"

section \<open>Put and PutWrites\<close>

definition memory_Put ::
  "goctx \<Rightarrow> config \<Rightarrow> 'x checkpoint \<Rightarrow> 'x metadata \<Rightarrow> (string, string) dict \<Rightarrow>
   'x memorySaver \<Rightarrow> 'x memorySaver \<times> config res" where
  "memory_Put ctx cfg value0 metadata newVersions s =
     (case res_bind (ctx_err ctx) (\<lambda>_. config_Validate cfg) of
        Inl e \<Rightarrow> (s, Inl e)
      | Inr _ \<Rightarrow>
        if cp_id value0 = [] then (s, Inl (Errorf ''put checkpoint: id is required''))
        else
          let value = (if cp_version value0 = 0 then value0\<lparr>cp_version := LatestVersion\<rparr> else value0);
              copy = cloneCheckpoint value;
              values = cp_channelValues copy;
              stored = copy\<lparr>cp_channelValues := []\<rparr>;
              blobs = fold (\<lambda>(channel, version).
                 dput (blob_key cfg channel version) (map_option clone_any (map_of values channel)))
                 newVersions (ms_blobs s);
              record = \<lparr>mr_checkpoint = stored, mr_metadata = cloneMetadata metadata,
                 mr_parentID = cf_checkpointID cfg\<rparr>
          in (s\<lparr>ms_blobs := blobs, ms_records := dput (memory_key cfg (cp_id value)) record (ms_records s)\<rparr>,
              Inr \<lparr>cf_threadID = cf_threadID cfg, cf_namespace = cf_namespace cfg, cf_checkpointID = cp_id value\<rparr>))"

definition assigned_index :: "nat \<Rightarrow> 'x channelWrite \<Rightarrow> int" where
  "assigned_index index write =
     (case SpecialWriteIndex (cw_channel write) of Some special \<Rightarrow> special | None \<Rightarrow> int index)"

fun put_writes ::
  "string \<Rightarrow> string \<Rightarrow> nat \<Rightarrow> 'x channelWrite list \<Rightarrow> (writeKey, 'x pendingWrite) dict \<Rightarrow>
   (writeKey, 'x pendingWrite) dict" where
  "put_writes taskID taskPath index [] ws = ws"
| "put_writes taskID taskPath index (write # rest) ws =
     (let assigned = assigned_index index write; key = (taskID, assigned)
      in if assigned \<ge> 0 \<and> map_of ws key \<noteq> None then put_writes taskID taskPath (Suc index) rest ws
         else put_writes taskID taskPath (Suc index) rest
           (dput key \<lparr>pw_taskID = taskID, pw_taskPath = taskPath, pw_index = assigned,
              pw_channel = cw_channel write, pw_value = clone_any (cw_value write)\<rparr> ws))"

definition memory_PutWrites ::
  "goctx \<Rightarrow> config \<Rightarrow> string \<Rightarrow> string \<Rightarrow> 'x channelWrite list \<Rightarrow> 'x memorySaver \<Rightarrow>
   'x memorySaver \<times> unit res" where
  "memory_PutWrites ctx cfg taskID taskPath writes s =
     (case res_bind (ctx_err ctx) (\<lambda>_. config_Validate cfg) of
        Inl e \<Rightarrow> (s, Inl e)
      | Inr _ \<Rightarrow>
        if cf_checkpointID cfg = [] \<or> taskID = []
        then (s, Inl (Errorf ''put checkpoint writes: checkpoint id and task id are required''))
        else
          let key = memory_key cfg (cf_checkpointID cfg)
          in (s\<lparr>ms_writes := dput key (put_writes taskID taskPath 0 writes (dget [] (ms_writes s) key)) (ms_writes s)\<rparr>,
              Inr ()))"

section \<open>Reading\<close>

text \<open>The largest identifier of a thread and namespace, empty when there is none.\<close>

definition latest_id :: "config \<Rightarrow> 'x memorySaver \<Rightarrow> string" where
  "latest_id cfg s =
     fold (\<lambda>(key, r) i.
       if mk_threadID key = cf_threadID cfg \<and> mk_namespace key = cf_namespace cfg \<and> mk_id key > i
       then mk_id key else i) (ms_records s) []"

definition pendingWritesLocked :: "memoryKey \<Rightarrow> 'x memorySaver \<Rightarrow> 'x pendingWrite list" where
  "pendingWritesLocked key s =
     sortWrites (map (\<lambda>(k, w). w\<lparr>pw_value := clone_any (pw_value w)\<rparr>) (dget [] (ms_writes s) key))"

definition blob_value :: "config \<Rightarrow> string \<Rightarrow> string \<Rightarrow> 'x memorySaver \<Rightarrow> 'x gval option" where
  "blob_value cfg channel version s =
     (case map_of (ms_blobs s) (blob_key cfg channel version) of
        None \<Rightarrow> None | Some blob \<Rightarrow> map_option clone_any blob)"

definition channel_values :: "config \<Rightarrow> (string, string) dict \<Rightarrow> 'x memorySaver \<Rightarrow> 'x vals" where
  "channel_values cfg versions s =
     fold (\<lambda>(channel, version) vs.
       case blob_value cfg channel version s of None \<Rightarrow> vs | Some v \<Rightarrow> dput channel v vs) versions []"

definition getTupleLocked :: "config \<Rightarrow> 'x memorySaver \<Rightarrow> 'x tuple option" where
  "getTupleLocked cfg s =
     (let i = (if cf_checkpointID cfg = [] then latest_id cfg s else cf_checkpointID cfg)
      in if i = [] then None
         else
           let key = memory_key cfg i
           in case map_of (ms_records s) key of
                None \<Rightarrow> None
              | Some record \<Rightarrow>
                  let copy = cloneCheckpoint (mr_checkpoint record);
                      checkpoint = copy\<lparr>cp_channelValues := channel_values cfg (cp_channelVersions copy) s\<rparr>
                  in Some \<lparr>tp_config = cfg\<lparr>cf_checkpointID := i\<rparr>, tp_checkpoint = checkpoint,
                       tp_metadata = cloneMetadata (mr_metadata record),
                       tp_parent = (if mr_parentID record = [] then None
                         else Some (cfg\<lparr>cf_checkpointID := mr_parentID record\<rparr>)),
                       tp_pendingWrites = pendingWritesLocked key s\<rparr>)"

definition memory_GetTuple :: "goctx \<Rightarrow> config \<Rightarrow> 'x memorySaver \<Rightarrow> 'x tuple option res" where
  "memory_GetTuple ctx cfg s =
     res_bind (ctx_err ctx) (\<lambda>_. res_bind (config_Validate cfg) (\<lambda>_. Inr (getTupleLocked cfg s)))"

definition listed ::
  "('x \<Rightarrow> 'x \<Rightarrow> bool) \<Rightarrow> config option \<Rightarrow> 'x listOptions \<Rightarrow> memoryKey \<times> 'x memoryRecord \<Rightarrow> bool" where
  "listed eq cfg options kr =
     (let key = fst kr
      in (case cfg of None \<Rightarrow> True
          | Some c \<Rightarrow> mk_threadID key = cf_threadID c \<and> mk_namespace key = cf_namespace c \<and>
              (cf_checkpointID c = [] \<or> mk_id key = cf_checkpointID c)) \<and>
         (case lo_before options of None \<Rightarrow> True
          | Some b \<Rightarrow> cf_checkpointID b = [] \<or> mk_id key < cf_checkpointID b) \<and>
         metadataMatches eq (mr_metadata (snd kr)) (lo_metadata options))"

definition memory_List ::
  "('x \<Rightarrow> 'x \<Rightarrow> bool) \<Rightarrow> goctx \<Rightarrow> config option \<Rightarrow> 'x listOptions \<Rightarrow> 'x memorySaver \<Rightarrow> 'x tuple list res" where
  "memory_List eq ctx cfg options0 s =
     res_bind (ctx_err ctx) (\<lambda>_.
     res_bind (Normalized options0) (\<lambda>options.
     res_bind (case cfg of None \<Rightarrow> Inr () | Some c \<Rightarrow> config_Validate c) (\<lambda>_.
     res_bind (bounded_select memoryKeyLess (lo_limit options)
         (map fst (filter (listed eq cfg options) (ms_records s)))) (\<lambda>keys.
     map_res (\<lambda>key.
       case getTupleLocked \<lparr>cf_threadID = mk_threadID key, cf_namespace = mk_namespace key,
              cf_checkpointID = mk_id key\<rparr> s of
         None \<Rightarrow> Inl NilCall | Some t \<Rightarrow> Inr t) keys))))"

section \<open>Threads\<close>

definition remove_keys :: "memoryKey list \<Rightarrow> (memoryKey, 'v) dict \<Rightarrow> (memoryKey, 'v) dict" where
  "remove_keys keys d = fold ddel keys d"

definition memory_DeleteThread :: "goctx \<Rightarrow> string \<Rightarrow> 'x memorySaver \<Rightarrow> 'x memorySaver \<times> unit res" where
  "memory_DeleteThread ctx threadID s =
     (case ctx of
        Some e \<Rightarrow> (s, Inl e)
      | None \<Rightarrow>
        let doomed = filter (\<lambda>key. mk_threadID key = threadID) (dkeys (ms_records s))
        in (s\<lparr>ms_records := remove_keys doomed (ms_records s), ms_writes := remove_keys doomed (ms_writes s),
              ms_blobs := filter (\<lambda>(k, b). bk_threadID k \<noteq> threadID) (ms_blobs s)\<rparr>, Inr ()))"

definition copy_record ::
  "string \<Rightarrow> string \<Rightarrow> 'x memorySaver \<Rightarrow> memoryKey \<times> 'x memoryRecord \<Rightarrow> 'x memorySaver \<Rightarrow> 'x memorySaver" where
  "copy_record source target old kr s =
     (let key = fst kr; record = snd kr; copyKey = key\<lparr>mk_threadID := target\<rparr>
      in if mk_threadID key \<noteq> source then s
         else
           let s1 = s\<lparr>ms_records := dput copyKey
                 \<lparr>mr_checkpoint = cloneCheckpoint (mr_checkpoint record),
                  mr_metadata = cloneMetadata (mr_metadata record), mr_parentID = mr_parentID record\<rparr>
                 (ms_records s)\<rparr>
           in case map_of (ms_writes old) key of
                None \<Rightarrow> s1
              | Some writes \<Rightarrow>
                  s1\<lparr>ms_writes := dput copyKey
                    (map (\<lambda>(k, w). (k, w\<lparr>pw_value := clone_any (pw_value w)\<rparr>)) writes) (ms_writes s1)\<rparr>)"

definition memory_CopyThread ::
  "goctx \<Rightarrow> string \<Rightarrow> string \<Rightarrow> 'x memorySaver \<Rightarrow> 'x memorySaver \<times> unit res" where
  "memory_CopyThread ctx source target s =
     (case ctx of
        Some e \<Rightarrow> (s, Inl e)
      | None \<Rightarrow>
        if source = [] \<or> target = [] \<or> source = target
        then (s, Inl (Errorf ''copy checkpoint thread: distinct source and target ids are required''))
        else if \<exists>key \<in> set (dkeys (ms_records s)). mk_threadID key = target
        then (s, Inl (Errorf ''copy checkpoint thread: target already exists''))
        else
          let s1 = fold (copy_record source target s) (ms_records s) s
          in (s1\<lparr>ms_blobs := fold (\<lambda>(key, blob).
                if bk_threadID key = source
                then dput (key\<lparr>bk_threadID := target\<rparr>) (map_option clone_any blob) else id)
                (ms_blobs s) (ms_blobs s1)\<rparr>, Inr ()))"

text \<open>The parent chain that \<^verbatim>\<open>Prune\<close> keeps.\<close>

fun keep_chain :: "nat \<Rightarrow> (memoryKey, 'x memoryRecord) dict \<Rightarrow> string \<Rightarrow> string \<Rightarrow> string \<Rightarrow> memoryKey list res" where
  "keep_chain fuel records threadID namespace i =
     (if i = [] then Inr []
      else
        let key = \<lparr>mk_threadID = threadID, mk_namespace = namespace, mk_id = i\<rparr>
        in case map_of records key of
             None \<Rightarrow> Inr []
           | Some record \<Rightarrow>
              (case fuel of
                 0 \<Rightarrow> Inl Diverges
               | Suc fuel' \<Rightarrow>
                   res_bind (keep_chain fuel' records threadID namespace (mr_parentID record))
                     (\<lambda>rest. Inr (key # rest))))"

declare keep_chain.simps [simp del]

definition latest_by_namespace :: "string \<Rightarrow> (memoryKey, 'x memoryRecord) dict \<Rightarrow> (string, string) dict" where
  "latest_by_namespace threadID records =
     fold (\<lambda>(key, r) latest.
       if mk_threadID key = threadID \<and> mk_id key > dget [] latest (mk_namespace key)
       then dput (mk_namespace key) (mk_id key) latest else latest) records []"

definition referenced_blobs :: "string \<Rightarrow> (memoryKey, 'x memoryRecord) dict \<Rightarrow> blobKey list" where
  "referenced_blobs threadID records =
     concat (map (\<lambda>(key, r). map (\<lambda>(channel, version).
         \<lparr>bk_threadID = threadID, bk_namespace = mk_namespace key, bk_channel = channel, bk_version = version\<rparr>)
         (cp_channelVersions (mr_checkpoint r)))
       (filter (\<lambda>(key, r). mk_threadID key = threadID) records))"

definition prune_thread :: "string \<Rightarrow> 'x memorySaver \<Rightarrow> 'x memorySaver res" where
  "prune_thread threadID s =
     res_bind (map_res (\<lambda>(namespace, i).
         keep_chain (length (ms_records s)) (ms_records s) threadID namespace i)
       (latest_by_namespace threadID (ms_records s))) (\<lambda>chains.
       let keep = concat chains;
           doomed = filter (\<lambda>key. mk_threadID key = threadID \<and> key \<notin> set keep) (dkeys (ms_records s));
           records = remove_keys doomed (ms_records s);
           referenced = referenced_blobs threadID records
       in Inr (s\<lparr>ms_records := records, ms_writes := remove_keys doomed (ms_writes s),
            ms_blobs := filter (\<lambda>(k, b). bk_threadID k \<noteq> threadID \<or> k \<in> set referenced) (ms_blobs s)\<rparr>))"

fun delete_threads :: "goctx \<Rightarrow> string list \<Rightarrow> 'x memorySaver \<Rightarrow> 'x memorySaver \<times> unit res" where
  "delete_threads ctx [] s = (s, Inr ())"
| "delete_threads ctx (t # ts) s =
     (case memory_DeleteThread ctx t s of
        (s', Inl e) \<Rightarrow> (s', Inl e) | (s', Inr _) \<Rightarrow> delete_threads ctx ts s')"

fun prune_threads :: "string list \<Rightarrow> 'x memorySaver \<Rightarrow> 'x memorySaver \<times> unit res" where
  "prune_threads [] s = (s, Inr ())"
| "prune_threads (t # ts) s =
     (case prune_thread t s of Inl e \<Rightarrow> (s, Inl e) | Inr s' \<Rightarrow> prune_threads ts s')"

definition memory_Prune ::
  "goctx \<Rightarrow> string list \<Rightarrow> pruneStrategy \<Rightarrow> 'x memorySaver \<Rightarrow> 'x memorySaver \<times> unit res" where
  "memory_Prune ctx threadIDs strategy s =
     (case strategy of
        PruneDelete \<Rightarrow> delete_threads ctx threadIDs s
      | PruneOther x \<Rightarrow> (s, Inl (Wrapf ''%w %q'' ErrUnsupportedPrune))
      | PruneKeepLatest \<Rightarrow> prune_threads threadIDs s)"

section \<open>Delta histories\<close>

type_synonym 'x histories = "(string, 'x deltaHistory) dict"

definition add_seed :: "config \<Rightarrow> 'x memoryRecord \<Rightarrow> 'x memorySaver \<Rightarrow> string \<Rightarrow> 'x histories \<Rightarrow> 'x histories" where
  "add_seed cfg record s channel result =
     (case map_of (cp_channelVersions (mr_checkpoint record)) channel of
        None \<Rightarrow> result
      | Some version \<Rightarrow>
         (case blob_value cfg channel version s of
            None \<Rightarrow> result
          | Some v \<Rightarrow> dput channel
              ((dget empty_history result channel)\<lparr>dh_seed := v, dh_hasSeed := True\<rparr>) result))"

definition seeded :: "config \<Rightarrow> 'x memoryRecord \<Rightarrow> 'x memorySaver \<Rightarrow> string \<Rightarrow> bool" where
  "seeded cfg record s channel =
     (case map_of (cp_channelVersions (mr_checkpoint record)) channel of
        None \<Rightarrow> False | Some version \<Rightarrow> blob_value cfg channel version s \<noteq> None)"

definition add_write :: "string list \<Rightarrow> 'x pendingWrite \<Rightarrow> 'x histories \<Rightarrow> 'x histories" where
  "add_write remaining w result =
     (if pw_channel w \<in> set remaining then
        let h = dget empty_history result (pw_channel w)
        in dput (pw_channel w) (h\<lparr>dh_writes := dh_writes h @ [w]\<rparr>) result
      else result)"

fun history_loop ::
  "nat \<Rightarrow> config \<Rightarrow> 'x memorySaver \<Rightarrow> string \<Rightarrow> string list \<Rightarrow> 'x histories \<Rightarrow> 'x histories res" where
  "history_loop fuel cfg s currentID remaining result =
     (if currentID = [] \<or> remaining = [] then Inr result
      else
        let key = memory_key cfg currentID
        in case map_of (ms_records s) key of
             None \<Rightarrow> Inr result
           | Some record \<Rightarrow>
              (case fuel of
                 0 \<Rightarrow> Inl Diverges
               | Suc fuel' \<Rightarrow>
                  let seeds = fold (add_seed cfg record s) remaining result;
                      result' = fold (add_write remaining) (rev (pendingWritesLocked key s)) seeds;
                      remaining' = filter (\<lambda>c. \<not> seeded cfg record s c) remaining
                  in history_loop fuel' cfg s (mr_parentID record) remaining' result'))"

declare history_loop.simps [simp del]

definition memory_GetDeltaChannelHistory ::
  "goctx \<Rightarrow> config \<Rightarrow> string list \<Rightarrow> 'x memorySaver \<Rightarrow> 'x histories res" where
  "memory_GetDeltaChannelHistory ctx cfg channels s =
     res_bind (ctx_err ctx) (\<lambda>_.
     res_bind (config_Validate cfg) (\<lambda>_.
       if channels = [] then Inr []
       else
         let targetID = (if cf_checkpointID cfg = [] then latest_id cfg s else cf_checkpointID cfg)
         in case map_of (ms_records s) (memory_key cfg targetID) of
              None \<Rightarrow> Inr []
            | Some target \<Rightarrow>
                res_bind (history_loop (length (ms_records s)) cfg s (mr_parentID target)
                    (remdups channels) (dict_of channels (\<lambda>_. empty_history))) (\<lambda>result.
                  Inr (map (\<lambda>(channel, h). (channel, h\<lparr>dh_writes := rev (dh_writes h)\<rparr>)) result))))"

section \<open>The order of listings\<close>

lemma memoryKeyLess_lex:
  "memoryKeyLess l r \<longleftrightarrow> mk_threadID l < mk_threadID r \<or> mk_threadID l = mk_threadID r \<and>
     (mk_namespace l < mk_namespace r \<or> mk_namespace l = mk_namespace r \<and> mk_id r < mk_id l)"
  by (auto simp: memoryKeyLess_def)

lemma not_memoryKeyLess:
  "\<not> memoryKeyLess l r \<longleftrightarrow> mk_threadID r < mk_threadID l \<or> mk_threadID l = mk_threadID r \<and>
     (mk_namespace r < mk_namespace l \<or> mk_namespace l = mk_namespace r \<and> mk_id l \<le> mk_id r)"
  by (auto simp: memoryKeyLess_lex not_less le_less)

interpretation mkl: weak_order memoryKeyLess
proof unfold_locales
  fix a b c :: memoryKey
  show "memoryKeyLess a b \<Longrightarrow> \<not> memoryKeyLess b a" by (auto simp: memoryKeyLess_lex)
  show "\<not> memoryKeyLess a b \<Longrightarrow> \<not> memoryKeyLess b c \<Longrightarrow> \<not> memoryKeyLess a c"
    unfolding not_memoryKeyLess by (auto intro: order.strict_trans order.trans)
qed

lemma memoryKeyLess_total: "a \<noteq> b \<Longrightarrow> memoryKeyLess a b \<or> memoryKeyLess b a"
  by (cases a; cases b) (auto simp: memoryKeyLess_lex)

lemma mkl_comparable [simp]: "mkl.comparable A"
  by (auto simp: mkl.comparable_def dest: memoryKeyLess_total)

section \<open>Removing keys\<close>

lemma map_of_remove_keys [simp]:
  "map_of (remove_keys keys d) k = (if k \<in> set keys then None else map_of d k)"
  unfolding remove_keys_def by (induction keys arbitrary: d) auto

section \<open>The latest checkpoint\<close>

definition ids_of :: "config \<Rightarrow> 'x memorySaver \<Rightarrow> string set" where
  "ids_of cfg s = {i. map_of (ms_records s) (memory_key cfg i) \<noteq> None}"

lemma memory_key_inject [simp]: "memory_key c i = memory_key c j \<longleftrightarrow> i = j"
  by (simp add: memory_key_def)

lemma memory_key_thread [simp]: "mk_threadID (memory_key c i) = cf_threadID c"
    "mk_namespace (memory_key c i) = cf_namespace c" "mk_id (memory_key c i) = i"
  by (simp_all add: memory_key_def)

lemma memory_key_iff: "k = memory_key c i \<longleftrightarrow>
    mk_threadID k = cf_threadID c \<and> mk_namespace k = cf_namespace c \<and> mk_id k = i"
  by (cases k) (auto simp: memory_key_def)

lemma finite_ids_of [simp]: "finite (ids_of cfg s)"
proof -
  have "ids_of cfg s \<subseteq> mk_id ` fst ` set (ms_records s)"
  proof
    fix i assume "i \<in> ids_of cfg s"
    then have "memory_key cfg i \<in> fst ` set (ms_records s)"
      unfolding ids_of_def mem_keys_iff by simp
    then show "i \<in> mk_id ` fst ` set (ms_records s)" by (metis image_eqI memory_key_thread(3))
  qed
  then show ?thesis by (rule finite_subset) simp
qed

lemma latest_fold:
  fixes rs :: "(memoryKey \<times> 'x memoryRecord) list"
  shows "fold (\<lambda>(key, r) i. if mk_threadID key = cf_threadID cfg \<and> mk_namespace key = cf_namespace cfg \<and> mk_id key > i
       then mk_id key else i) rs a =
     Max (insert a {i. memory_key cfg i \<in> fst ` set rs})"
proof (induction rs arbitrary: a)
  case (Cons kr rs)
  obtain k r where kr: "kr = (k, r)" by (cases kr)
  have fin: "finite {i. memory_key cfg i \<in> fst ` set rs}"
  proof (rule finite_subset)
    show "{i. memory_key cfg i \<in> fst ` set rs} \<subseteq> mk_id ` fst ` set rs"
      by (metis (no_types, lifting) image_eqI mem_Collect_eq memory_key_thread(3) subsetI)
  qed simp
  show ?case
  proof (cases "mk_threadID k = cf_threadID cfg \<and> mk_namespace k = cf_namespace cfg")
    case True
    then have "k = memory_key cfg (mk_id k)" by (simp add: memory_key_iff)
    then have "{i. memory_key cfg i \<in> fst ` set (kr # rs)} = insert (mk_id k) {i. memory_key cfg i \<in> fst ` set rs}"
      by (auto simp: kr)
    with True fin Cons.IH show ?thesis
      by (cases "{i. memory_key cfg i \<in> fst ` set rs} = {}") (auto simp: kr max_def)
  next
    case False
    then have "{i. memory_key cfg i \<in> fst ` set (kr # rs)} = {i. memory_key cfg i \<in> fst ` set rs}"
      by (auto simp: kr)
    with False Cons.IH show ?thesis by (auto simp: kr)
  qed
qed simp

lemma latest_id_Max: "latest_id cfg s = Max (insert [] (ids_of cfg s))"
  using latest_fold [of cfg "ms_records s" "[]"]
  by (simp add: latest_id_def ids_of_def mem_keys_iff del: map_of_eq_None_iff)

lemma latest_id_cases: "latest_id cfg s = [] \<or> latest_id cfg s \<in> ids_of cfg s"
  using Max_in [of "insert [] (ids_of cfg s)"] by (auto simp: latest_id_Max)

lemma latest_id_ge: "i \<in> ids_of cfg s \<Longrightarrow> i \<le> latest_id cfg s"
  by (simp add: latest_id_Max)

section \<open>Threads do not interfere\<close>

definition same_thread :: "string \<Rightarrow> 'x memorySaver \<Rightarrow> 'x memorySaver \<Rightarrow> bool" where
  "same_thread t s s' \<longleftrightarrow>
     (\<forall>k. mk_threadID k = t \<longrightarrow> map_of (ms_records s) k = map_of (ms_records s') k \<and>
        map_of (ms_writes s) k = map_of (ms_writes s') k) \<and>
     (\<forall>k. bk_threadID k = t \<longrightarrow> map_of (ms_blobs s) k = map_of (ms_blobs s') k)"

lemma same_thread_ids: "same_thread (cf_threadID cfg) s s' \<Longrightarrow> ids_of cfg s = ids_of cfg s'"
  by (simp add: same_thread_def ids_of_def)

lemma same_thread_latest: "same_thread (cf_threadID cfg) s s' \<Longrightarrow> latest_id cfg s = latest_id cfg s'"
  by (simp add: latest_id_Max same_thread_ids)

lemma same_thread_pending:
  "same_thread (cf_threadID cfg) s s' \<Longrightarrow>
   pendingWritesLocked (memory_key cfg i) s = pendingWritesLocked (memory_key cfg i) s'"
  by (simp add: same_thread_def pendingWritesLocked_def dget_def)

lemma same_thread_blob:
  "same_thread (cf_threadID cfg) s s' \<Longrightarrow> blob_value cfg c v s = blob_value cfg c v s'"
  by (simp add: same_thread_def blob_value_def blob_key_def)

lemma same_thread_tuple:
  assumes "same_thread (cf_threadID cfg) s s'"
  shows "getTupleLocked cfg s = getTupleLocked cfg s'"
proof -
  have "channel_values cfg vs s = channel_values cfg vs s'" for vs
    using assms by (simp add: channel_values_def same_thread_blob)
  moreover have "map_of (ms_records s) (memory_key cfg i) = map_of (ms_records s') (memory_key cfg i)" for i
    using assms by (simp add: same_thread_def)
  ultimately show ?thesis
    using assms by (simp add: getTupleLocked_def same_thread_latest same_thread_pending Let_def cong: option.case_cong)
qed

lemma map_of_filter_pair:
  "map_of (filter (\<lambda>(k, b). P k) d) k = (if P k then map_of d k else None)"
  by (induction d) auto

text \<open>Deleting a thread removes every checkpoint of it and touches no other thread.\<close>

theorem memory_DeleteThread_isolates:
  assumes "memory_DeleteThread None t s = (s', r)"
  shows "r = Inr () \<and>
    (\<forall>cfg. getTupleLocked cfg s' = (if cf_threadID cfg = t then None else getTupleLocked cfg s))"
proof -
  have s': "s' = s\<lparr>ms_records := remove_keys (filter (\<lambda>key. mk_threadID key = t) (dkeys (ms_records s))) (ms_records s),
      ms_writes := remove_keys (filter (\<lambda>key. mk_threadID key = t) (dkeys (ms_records s))) (ms_writes s),
      ms_blobs := filter (\<lambda>(k, b). bk_threadID k \<noteq> t) (ms_blobs s)\<rparr>" and r: "r = Inr ()"
    using assms by (auto simp: memory_DeleteThread_def Let_def)
  have "getTupleLocked cfg s' = (if cf_threadID cfg = t then None else getTupleLocked cfg s)" for cfg
  proof (cases "cf_threadID cfg = t")
    case True
    then have none: "map_of (ms_records s') (memory_key cfg i) = None" for i
      by (auto simp: s' mem_keys_iff)
    with True show ?thesis by (simp add: getTupleLocked_def Let_def)
  next
    case False
    then have "same_thread (cf_threadID cfg) s' s"
      by (auto simp: same_thread_def s' map_of_filter_pair)
    with False show ?thesis by (simp add: same_thread_tuple)
  qed
  with r show ?thesis by blast
qed

section \<open>Put and GetTuple\<close>

lemma map_of_fold_case_dput:
  assumes "distinct (dkeys kvs)"
  shows "map_of (fold (\<lambda>(k, v) d. case f k v of None \<Rightarrow> d | Some w \<Rightarrow> dput k w d) kvs d) k =
    (case map_of kvs k of None \<Rightarrow> map_of d k
     | Some v \<Rightarrow> (case f k v of None \<Rightarrow> map_of d k | Some w \<Rightarrow> Some w))"
  using assms
proof (induction kvs arbitrary: d)
  case (Cons kv kvs)
  obtain a b where "kv = (a, b)" by (cases kv)
  moreover from Cons.prems \<open>kv = (a, b)\<close> have "map_of kvs a = None" by (simp add: map_of_eq_None_iff)
  ultimately show ?case using Cons by (auto split: option.splits)
qed simp

lemma channel_values_lookup:
  assumes "distinct (dkeys versions)"
  shows "map_of (channel_values cfg versions s) c =
    Option.bind (map_of versions c) (\<lambda>v. blob_value cfg c v s)"
  using map_of_fold_case_dput [OF assms, of "\<lambda>c v. blob_value cfg c v s" "[]" c]
  by (simp add: channel_values_def split: option.splits)

lemma put_blobs_lookup:
  assumes "distinct (dkeys nv)"
  shows "map_of (fold (\<lambda>(channel, version).
       dput (blob_key cfg channel version) (f channel)) nv d) (blob_key cfg c v) =
    (if map_of nv c = Some v then Some (f c) else map_of d (blob_key cfg c v))"
  using assms
proof (induction nv arbitrary: d)
  case (Cons kv nv)
  obtain a b where ab: "kv = (a, b)" by (cases kv)
  with Cons.prems have "map_of nv a = None" by (simp add: map_of_eq_None_iff)
  with Cons ab show ?case by (auto simp: blob_key_def)
qed simp

lemma checked_iff: "res_bind (ctx_err ctx) (\<lambda>_. config_Validate cfg) = Inr u \<longleftrightarrow> ctx = None \<and> cf_threadID cfg \<noteq> []"
  by (cases ctx) (simp_all add: ctx_err_def config_Validate_def)


section \<open>PutWrites\<close>

lemma put_writes_keeps:
  "map_of ws (t', n) = Some w \<Longrightarrow> 0 \<le> n \<Longrightarrow> map_of (put_writes t p i writes ws) (t', n) = Some w"
proof (induction writes arbitrary: i ws)
  case (Cons x xs)
  show ?case
  proof (cases "assigned_index i x \<ge> 0 \<and> map_of ws (t, assigned_index i x) \<noteq> None")
    case True
    with Cons show ?thesis by (simp add: Let_def)
  next
    case False
    with Cons.prems have "(t', n) \<noteq> (t, assigned_index i x)" by auto
    with False Cons show ?thesis by (auto simp: Let_def)
  qed
qed simp

lemma put_writes_other:
  "fst k \<noteq> t \<Longrightarrow> map_of (put_writes t p i writes ws) k = map_of ws k"
proof (induction writes arbitrary: i ws)
  case (Cons x xs)
  then show ?case by (auto simp: Let_def)
qed simp

text \<open>Ordinary pending writes are write-once. A write already stored for a task and a non-negative index
  survives every later PutWrites to any checkpoint, whatever values it carries; only the reserved
  negative indexes of control channels are replaced.\<close>

theorem memory_PutWrites_first_wins:
  assumes "memory_PutWrites ctx cfg taskID taskPath writes s = (s', r)"
    and "map_of (dget [] (ms_writes s) key) (t, index) = Some w" and "0 \<le> index"
  shows "map_of (dget [] (ms_writes s') key) (t, index) = Some w"
  using assms put_writes_keeps
  by (auto simp: memory_PutWrites_def Let_def split: sum.splits if_splits)

lemma put_writes_lookup:
  assumes "\<forall>x \<in> set writes. SpecialWriteIndex (cw_channel x) = None"
  shows "map_of (put_writes t p i writes ws) (t, int j) =
    (case map_of ws (t, int j) of Some w \<Rightarrow> Some w
     | None \<Rightarrow> if i \<le> j \<and> j < i + length writes
         then Some \<lparr>pw_taskID = t, pw_taskPath = p, pw_index = int j,
           pw_channel = cw_channel (writes ! (j - i)), pw_value = cw_value (writes ! (j - i))\<rparr>
         else None)"
  using assms
proof (induction writes arbitrary: i ws)
  case Nil
  then show ?case by (auto split: option.split)
next
  case (Cons x xs)
  have a: "assigned_index i x = int i" using Cons.prems by (simp add: assigned_index_def)
  show ?case
  proof (cases "j = i")
    case True
    then show ?thesis
      using Cons.prems by (cases "map_of ws (t, int i)") (simp_all add: a Let_def Cons.IH put_writes_keeps)
  next
    case False
    then have *: "i \<le> j \<and> j < i + length (x # xs) \<longleftrightarrow> Suc i \<le> j \<and> j < Suc i + length xs"
      and nth: "Suc i \<le> j \<Longrightarrow> (x # xs) ! (j - i) = xs ! (j - Suc i)"
      by (auto simp: nth_Cons' Suc_diff_Suc)
    show ?thesis
      using Cons.prems False nth by (cases "map_of ws (t, int j)") (auto simp: a Let_def Cons.IH split: option.splits)
  qed
qed

section \<open>Copying a thread\<close>

lemma record_eta [simp]:
  "\<lparr>mr_checkpoint = mr_checkpoint r, mr_metadata = mr_metadata r, mr_parentID = mr_parentID r\<rparr> = r"
  by simp

lemma copied_writes_id [simp]: "map (\<lambda>(k, w). (k, w\<lparr>pw_value := clone_any (pw_value w)\<rparr>)) ws = ws"
  by (induction ws) auto

lemma copy_record_simp:
  "copy_record source target old (k, r) s =
    (if mk_threadID k \<noteq> source then s
     else s\<lparr>ms_records := dput (k\<lparr>mk_threadID := target\<rparr>) r (ms_records s),
        ms_writes := (case map_of (ms_writes old) k of None \<Rightarrow> ms_writes s
          | Some w \<Rightarrow> dput (k\<lparr>mk_threadID := target\<rparr>) w (ms_writes s))\<rparr>)"
  by (auto simp: copy_record_def Let_def split: option.split)

lemma copy_key_eq:
  "k\<lparr>mk_threadID := target\<rparr> = k' \<and> mk_threadID k = source \<longleftrightarrow>
   mk_threadID k' = target \<and> k = k'\<lparr>mk_threadID := source\<rparr>"
  by (cases k; cases k') auto

lemma fold_copy_records:
  assumes "source \<noteq> target" and "distinct (dkeys rs)"
  shows "map_of (ms_records (fold (copy_record source target old) rs s)) k =
      (if mk_threadID k = target \<and> map_of rs (k\<lparr>mk_threadID := source\<rparr>) \<noteq> None
       then map_of rs (k\<lparr>mk_threadID := source\<rparr>) else map_of (ms_records s) k) \<and>
    map_of (ms_writes (fold (copy_record source target old) rs s)) k =
      (if mk_threadID k = target \<and> map_of rs (k\<lparr>mk_threadID := source\<rparr>) \<noteq> None \<and>
          map_of (ms_writes old) (k\<lparr>mk_threadID := source\<rparr>) \<noteq> None
       then map_of (ms_writes old) (k\<lparr>mk_threadID := source\<rparr>) else map_of (ms_writes s) k) \<and>
    ms_blobs (fold (copy_record source target old) rs s) = ms_blobs s"
  using assms(2)
proof (induction rs arbitrary: s)
  case (Cons kr rs)
  obtain k0 r where kr: "kr = (k0, r)" by (cases kr)
  have fresh: "map_of rs k0 = None" using Cons.prems kr by (simp add: map_of_eq_None_iff)
  let ?s = "copy_record source target old (k0, r) s"
  have IH: "map_of (ms_records (fold (copy_record source target old) rs ?s)) k =
      (if mk_threadID k = target \<and> map_of rs (k\<lparr>mk_threadID := source\<rparr>) \<noteq> None
       then map_of rs (k\<lparr>mk_threadID := source\<rparr>) else map_of (ms_records ?s) k)"
    "map_of (ms_writes (fold (copy_record source target old) rs ?s)) k =
      (if mk_threadID k = target \<and> map_of rs (k\<lparr>mk_threadID := source\<rparr>) \<noteq> None \<and>
          map_of (ms_writes old) (k\<lparr>mk_threadID := source\<rparr>) \<noteq> None
       then map_of (ms_writes old) (k\<lparr>mk_threadID := source\<rparr>) else map_of (ms_writes ?s) k)"
    "ms_blobs (fold (copy_record source target old) rs ?s) = ms_blobs ?s"
    using Cons by auto
  show ?case
  proof (cases "mk_threadID k = target \<and> k0 = k\<lparr>mk_threadID := source\<rparr>")
    case True
    then have k: "k = k0\<lparr>mk_threadID := target\<rparr>" "mk_threadID k0 = source"
      by (cases k; auto)+
    with True fresh IH show ?thesis
      by (auto simp: kr copy_record_simp split: option.splits)
  next
    case False
    then have "mk_threadID k0 = source \<Longrightarrow> k0\<lparr>mk_threadID := target\<rparr> \<noteq> k"
      using copy_key_eq [of target k0 k source] by blast
    then have "map_of (ms_records ?s) k = map_of (ms_records s) k"
      "map_of (ms_writes ?s) k = map_of (ms_writes s) k" "ms_blobs ?s = ms_blobs s"
      by (auto simp: copy_record_simp split: option.splits)
    with False IH show ?thesis by (auto simp: kr)
  qed
qed simp

lemma fold_copy_blobs:
  assumes "source \<noteq> target" and "distinct (dkeys bs)"
  shows "map_of (fold (\<lambda>(key, blob). if bk_threadID key = source
        then dput (key\<lparr>bk_threadID := target\<rparr>) (map_option clone_any blob) else id) bs d) k =
    (if bk_threadID k = target \<and> map_of bs (k\<lparr>bk_threadID := source\<rparr>) \<noteq> None
     then map_of bs (k\<lparr>bk_threadID := source\<rparr>) else map_of d k)"
  using assms(2)
proof (induction bs arbitrary: d)
  case (Cons kb bs)
  obtain k0 b where kb: "kb = (k0, b)" by (cases kb)
  have fresh: "map_of bs k0 = None" using Cons.prems kb by (simp add: map_of_eq_None_iff)
  show ?case
  proof (cases "bk_threadID k = target \<and> k0 = k\<lparr>bk_threadID := source\<rparr>")
    case True
    then have "k = k0\<lparr>bk_threadID := target\<rparr>" "bk_threadID k0 = source"
      by (cases k; auto)+
    with True fresh Cons show ?thesis by (auto simp: kb)
  next
    case False
    then have "bk_threadID k0 = source \<Longrightarrow> k0\<lparr>bk_threadID := target\<rparr> \<noteq> k" by (cases k; cases k0) auto
    with False Cons show ?thesis by (auto simp: kb)
  qed
qed simp

definition no_thread :: "string \<Rightarrow> 'x memorySaver \<Rightarrow> bool" where
  "no_thread t s \<longleftrightarrow>
     list_all (\<lambda>(k, r). mk_threadID k \<noteq> t) (ms_records s) \<and>
     list_all (\<lambda>(k, w). mk_threadID k \<noteq> t) (ms_writes s) \<and>
     list_all (\<lambda>(k, b). bk_threadID k \<noteq> t) (ms_blobs s)"

lemma no_threadD:
  assumes "no_thread t s"
  shows "mk_threadID k = t \<Longrightarrow> map_of (ms_records s) k = None"
    and "mk_threadID k = t \<Longrightarrow> map_of (ms_writes s) k = None"
    and "bk_threadID b = t \<Longrightarrow> map_of (ms_blobs s) b = None"
  using assms by (auto simp: no_thread_def list_all_iff map_of_eq_None_iff)

definition saver_distinct :: "'x memorySaver \<Rightarrow> bool" where
  "saver_distinct s \<longleftrightarrow> distinct (dkeys (ms_records s)) \<and> distinct (dkeys (ms_blobs s)) \<and>
     distinct (dkeys (ms_writes s))"

definition rename_tuple :: "string \<Rightarrow> 'x tuple \<Rightarrow> 'x tuple" where
  "rename_tuple t tup = tup\<lparr>tp_config := (tp_config tup)\<lparr>cf_threadID := t\<rparr>,
     tp_parent := map_option (\<lambda>p. p\<lparr>cf_threadID := t\<rparr>) (tp_parent tup)\<rparr>"

text \<open>Copying a thread. On a target that holds nothing, every checkpoint of the source is readable under
  the target's identifier with the same values, metadata, parent and pending writes, the latest
  checkpoints correspond, and every other thread (the source included) reads as before.\<close>

theorem memory_CopyThread_faithful:
  assumes "saver_distinct s" and "no_thread target s" and "source \<noteq> []" "target \<noteq> []" "source \<noteq> target"
    and "memory_CopyThread None source target s = (s', r)"
  shows "r = Inr () \<and>
    (\<forall>cfg. getTupleLocked (cfg\<lparr>cf_threadID := target\<rparr>) s' =
        map_option (rename_tuple target) (getTupleLocked (cfg\<lparr>cf_threadID := source\<rparr>) s)) \<and>
    (\<forall>cfg. cf_threadID cfg \<noteq> target \<longrightarrow> getTupleLocked cfg s' = getTupleLocked cfg s)"
proof -
  have none: "\<not> (\<exists>key \<in> set (dkeys (ms_records s)). mk_threadID key = target)"
    using assms(2) by (auto simp: no_thread_def list_all_iff)
  let ?s1 = "fold (copy_record source target s) (ms_records s) s"
  have s': "s' = ?s1\<lparr>ms_blobs := fold (\<lambda>(key, blob). if bk_threadID key = source
        then dput (key\<lparr>bk_threadID := target\<rparr>) (map_option clone_any blob) else id) (ms_blobs s) (ms_blobs ?s1)\<rparr>"
    and r: "r = Inr ()"
    using assms(3-6) none by (auto simp: memory_CopyThread_def Let_def)
  have dist: "distinct (dkeys (ms_records s))" "distinct (dkeys (ms_blobs s))"
    using assms(1) by (auto simp: saver_distinct_def)
  note rec = fold_copy_records [OF assms(5) dist(1), of s s]
  have recs: "map_of (ms_records s') k = (if mk_threadID k = target
      then map_of (ms_records s) (k\<lparr>mk_threadID := source\<rparr>) else map_of (ms_records s) k)"
    and wrs: "mk_threadID k \<noteq> target \<Longrightarrow> map_of (ms_writes s') k = map_of (ms_writes s) k"
      "mk_threadID k = target \<Longrightarrow> map_of (ms_records s') k \<noteq> None \<Longrightarrow>
        map_of (ms_writes s') k = map_of (ms_writes s) (k\<lparr>mk_threadID := source\<rparr>)" for k
    using rec [of k] no_threadD [OF assms(2)] by (auto simp: s')
  have blobs: "map_of (ms_blobs s') k = (if bk_threadID k = target
      then map_of (ms_blobs s) (k\<lparr>bk_threadID := source\<rparr>) else map_of (ms_blobs s) k)" for k
    using rec fold_copy_blobs [OF assms(5) dist(2)] no_threadD(3) [OF assms(2)] by (auto simp: s')
  have other: "same_thread t s' s" if "t \<noteq> target" for t
    using that by (auto simp: same_thread_def recs wrs blobs)
  have tgt: "getTupleLocked (cfg\<lparr>cf_threadID := target\<rparr>) s' =
      map_option (rename_tuple target) (getTupleLocked (cfg\<lparr>cf_threadID := source\<rparr>) s)" for cfg
  proof -
    let ?t = "cfg\<lparr>cf_threadID := target\<rparr>" and ?c = "cfg\<lparr>cf_threadID := source\<rparr>"
    have key: "(memory_key ?t i)\<lparr>mk_threadID := source\<rparr> = memory_key ?c i"
      "(blob_key ?t ch v)\<lparr>bk_threadID := source\<rparr> = blob_key ?c ch v" for i ch v
      by (simp_all add: memory_key_def blob_key_def)
    have rk: "map_of (ms_records s') (memory_key ?t i) = map_of (ms_records s) (memory_key ?c i)" for i
      by (simp add: recs key)
    have "ids_of ?t s' = ids_of ?c s" by (simp add: ids_of_def rk)
    then have lat: "latest_id ?t s' = latest_id ?c s" by (simp add: latest_id_Max)
    have "blob_value ?t ch v s' = blob_value ?c ch v s" for ch v
      by (simp add: blob_value_def blobs key) (simp add: blob_key_def)
    then have cv: "channel_values ?t vs s' = channel_values ?c vs s" for vs
      by (simp add: channel_values_def)
    have pw: "pendingWritesLocked (memory_key ?t i) s' = pendingWritesLocked (memory_key ?c i) s"
      if "map_of (ms_records s) (memory_key ?c i) \<noteq> None" for i
      using wrs(2) [of "memory_key ?t i"] that by (simp add: pendingWritesLocked_def dget_def rk key)
    show ?thesis
      by (simp add: getTupleLocked_def Let_def lat rk cv pw rename_tuple_def split: option.split)
  qed
  show ?thesis using r tgt other same_thread_tuple by metis
qed

section \<open>Ancestors and delta histories\<close>

text \<open>The chain of existing checkpoints from an identifier along the parents.\<close>

inductive ancestors :: "config \<Rightarrow> 'x memorySaver \<Rightarrow> string \<Rightarrow> (string \<times> 'x memoryRecord) list \<Rightarrow> bool"
  for cfg :: config and s :: "'x memorySaver" where
  anc_end: "i = [] \<or> map_of (ms_records s) (memory_key cfg i) = None \<Longrightarrow> ancestors cfg s i []"
| anc_step: "i \<noteq> [] \<Longrightarrow> map_of (ms_records s) (memory_key cfg i) = Some r \<Longrightarrow>
    ancestors cfg s (mr_parentID r) ks \<Longrightarrow> ancestors cfg s i ((i, r) # ks)"

inductive_cases ancestors_NilE: "ancestors cfg s i []"
inductive_cases ancestors_ConsE: "ancestors cfg s i (x # ks)"

text \<open>The history of one channel along a chain: the nearest stored value, and the writes since.\<close>

definition seed_value :: "config \<Rightarrow> 'x memoryRecord \<Rightarrow> 'x memorySaver \<Rightarrow> string \<Rightarrow> 'x gval option" where
  "seed_value cfg r s c =
     Option.bind (map_of (cp_channelVersions (mr_checkpoint r)) c) (\<lambda>v. blob_value cfg c v s)"

definition channel_writes :: "config \<Rightarrow> string \<Rightarrow> 'x memorySaver \<Rightarrow> string \<Rightarrow> 'x pendingWrite list" where
  "channel_writes cfg i s c = filter (\<lambda>w. pw_channel w = c) (pendingWritesLocked (memory_key cfg i) s)"

fun chain_history :: "config \<Rightarrow> 'x memorySaver \<Rightarrow> string \<Rightarrow> (string \<times> 'x memoryRecord) list \<Rightarrow> 'x deltaHistory" where
  "chain_history cfg s c [] = empty_history"
| "chain_history cfg s c ((i, r) # ks) =
     (case seed_value cfg r s c of
        Some v \<Rightarrow> \<lparr>dh_seed = v, dh_hasSeed = True, dh_writes = channel_writes cfg i s c\<rparr>
      | None \<Rightarrow> (let h = chain_history cfg s c ks in h\<lparr>dh_writes := dh_writes h @ channel_writes cfg i s c\<rparr>))"

lemma seeded_iff: "seeded cfg r s c \<longleftrightarrow> seed_value cfg r s c \<noteq> None"
  by (simp add: seeded_def seed_value_def split: option.split)

lemma add_seed_simp:
  "add_seed cfg r s c result = (case seed_value cfg r s c of None \<Rightarrow> result
     | Some v \<Rightarrow> dput c ((dget empty_history result c)\<lparr>dh_seed := v, dh_hasSeed := True\<rparr>) result)"
  by (auto simp: add_seed_def seed_value_def split: option.split)

lemma fold_add_seed:
  assumes "distinct cs"
  shows "map_of (fold (add_seed cfg r s) cs result) c =
    (if c \<in> set cs then (case seed_value cfg r s c of None \<Rightarrow> map_of result c
       | Some v \<Rightarrow> Some ((dget empty_history result c)\<lparr>dh_seed := v, dh_hasSeed := True\<rparr>))
     else map_of result c)"
  using assms
proof (induction cs arbitrary: result)
  case (Cons a cs)
  then show ?case by (auto simp: add_seed_simp dget_def split: option.splits)
qed simp

lemma fold_add_write:
  "map_of (fold (add_write remaining) ws result) c =
    (if c \<in> set remaining \<and> filter (\<lambda>w. pw_channel w = c) ws \<noteq> []
     then (let h = dget empty_history result c
           in Some (h\<lparr>dh_writes := dh_writes h @ filter (\<lambda>w. pw_channel w = c) ws\<rparr>))
     else map_of result c)"
proof (induction ws arbitrary: result)
  case (Cons w ws)
  show ?case
  proof (cases "pw_channel w \<in> set remaining \<and> pw_channel w = c")
    case True
    with Cons.IH [of "add_write remaining w result"] show ?thesis
      by (auto simp: add_write_def Let_def)
  next
    case False
    then have "map_of (add_write remaining w result) c = map_of result c"
      "c \<in> set remaining \<Longrightarrow> pw_channel w \<noteq> c"
      by (auto simp: add_write_def Let_def)
    with Cons.IH [of "add_write remaining w result"] show ?thesis
      by (auto simp: Let_def dget_def)
  qed
qed simp

text \<open>Merging the accumulated history of a channel with the history of the rest of the chain.\<close>

definition join_history :: "'x deltaHistory \<Rightarrow> 'x deltaHistory \<Rightarrow> 'x deltaHistory" where
  "join_history h g = h\<lparr>dh_seed := (if dh_hasSeed g then dh_seed g else dh_seed h),
     dh_hasSeed := dh_hasSeed g \<or> dh_hasSeed h, dh_writes := dh_writes h @ rev (dh_writes g)\<rparr>"

lemma join_empty [simp]: "join_history h empty_history = h"
  by (simp add: join_history_def empty_history_def)

lemma chain_no_seed: "\<not> dh_hasSeed (chain_history cfg s c ks) \<Longrightarrow> dh_seed (chain_history cfg s c ks) = VNil"
  by (induction ks rule: chain_history.induct) (auto simp: empty_history_def Let_def split: option.splits)

lemma history_loop_spec:
  assumes "ancestors cfg s i ks" and "length ks \<le> fuel" and "distinct remaining"
    and "\<forall>c \<in> set remaining. map_of result c \<noteq> None"
  shows "\<exists>res. history_loop fuel cfg s i remaining result = Inr res \<and>
    (\<forall>c. map_of res c = (if c \<in> set remaining
       then Some (join_history (dget empty_history result c) (chain_history cfg s c ks))
       else map_of result c))"
  using assms
proof (induction arbitrary: fuel remaining result rule: ancestors.induct)
  case (anc_end i)
  have "history_loop fuel cfg s i remaining result = Inr result"
    using anc_end.hyps by (subst history_loop.simps) (elim disjE; simp add: Let_def)
  moreover have "map_of result c = Some (dget empty_history result c)" if "c \<in> set remaining" for c
    using anc_end.prems that by (auto simp: dget_def)
  ultimately show ?case by (metis chain_history.simps(1) join_empty)
next
  case (anc_step i r ks)
  show ?case
  proof (cases "remaining = []")
    case True
    then have "history_loop fuel cfg s i remaining result = Inr result"
      by (subst history_loop.simps) simp
    with True show ?thesis by simp
  next
    case False
    from anc_step.prems(1) obtain fuel' where fuel: "fuel = Suc fuel'" "length ks \<le> fuel'"
      by (cases fuel) auto
    let ?w = "pendingWritesLocked (memory_key cfg i) s"
    let ?seeds = "fold (add_seed cfg r s) remaining result"
    let ?res = "fold (add_write remaining) (rev ?w) ?seeds"
    let ?rem = "filter (\<lambda>c. \<not> seeded cfg r s c) remaining"
    have step: "history_loop fuel cfg s i remaining result = history_loop fuel' cfg s (mr_parentID r) ?rem ?res"
      using False anc_step.hyps fuel(1) by (subst history_loop.simps) (simp add: Let_def)
    have res: "map_of ?res c = (if c \<in> set remaining then
         (let h = (case seed_value cfg r s c of None \<Rightarrow> dget empty_history result c
            | Some v \<Rightarrow> (dget empty_history result c)\<lparr>dh_seed := v, dh_hasSeed := True\<rparr>)
          in Some (h\<lparr>dh_writes := dh_writes h @ rev (channel_writes cfg i s c)\<rparr>))
       else map_of result c)" for c
    proof -
      have "dget empty_history ?seeds c = (case seed_value cfg r s c of None \<Rightarrow> dget empty_history result c
            | Some v \<Rightarrow> (dget empty_history result c)\<lparr>dh_seed := v, dh_hasSeed := True\<rparr>)" if "c \<in> set remaining"
        using that anc_step.prems(2) by (auto simp: dget_def fold_add_seed split: option.split)
      moreover have "map_of ?seeds c = Some (dget empty_history ?seeds c)" if "c \<in> set remaining"
        using that anc_step.prems(2,3) by (auto simp: dget_def fold_add_seed split: option.split)
      ultimately show ?thesis
        using anc_step.prems(2)
        by (auto simp: fold_add_write fold_add_seed channel_writes_def rev_filter [symmetric] Let_def
            simp del: rev_filter)
    qed
    have "\<exists>res'. history_loop fuel' cfg s (mr_parentID r) ?rem ?res = Inr res' \<and>
      (\<forall>c. map_of res' c = (if c \<in> set ?rem
         then Some (join_history (dget empty_history ?res c) (chain_history cfg s c ks)) else map_of ?res c))"
      using anc_step.prems(2,3) fuel(2) res by (intro anc_step.IH) (auto simp: Let_def)
    then obtain res' where res': "history_loop fuel' cfg s (mr_parentID r) ?rem ?res = Inr res'"
      "\<And>c. map_of res' c = (if c \<in> set ?rem
         then Some (join_history (dget empty_history ?res c) (chain_history cfg s c ks)) else map_of ?res c)"
      by blast
    have "map_of res' c = (if c \<in> set remaining
       then Some (join_history (dget empty_history result c) (chain_history cfg s c ((i, r) # ks)))
       else map_of result c)" for c
    proof (cases "seed_value cfg r s c")
      case None
      then show ?thesis
        using res'(2) [of c] res [of c]
        by (auto simp: seeded_iff dget_def join_history_def Let_def)
    next
      case (Some v)
      then show ?thesis
        using res'(2) [of c] res [of c]
        by (auto simp: seeded_iff join_history_def Let_def)
    qed
    with step res'(1) show ?thesis by auto
  qed
qed

text \<open>
  The runtime gives a checkpoint an identifier larger than its parent's (\<^verbatim>\<open>NewID\<close> is increasing), so
  parent chains descend and end.
\<close>

definition parents_older :: "'x memorySaver \<Rightarrow> bool" where
  "parents_older s \<longleftrightarrow> list_all (\<lambda>(k, r). mr_parentID r = [] \<or> mr_parentID r < mk_id k) (ms_records s)"

lemma parents_olderD:
  "parents_older s \<Longrightarrow> map_of (ms_records s) (memory_key cfg i) = Some r \<Longrightarrow> mr_parentID r = [] \<or> mr_parentID r < i"
  by (auto simp: parents_older_def list_all_iff dest!: map_of_SomeD)

lemma card_ids_of: "card (ids_of cfg s) \<le> length (ms_records s)"
proof -
  have "memory_key cfg ` ids_of cfg s \<subseteq> set (dkeys (ms_records s))"
    by (auto simp: ids_of_def) (metis fst_conv image_eqI map_of_SomeD)
  then have "card (memory_key cfg ` ids_of cfg s) \<le> card (set (dkeys (ms_records s)))"
    by (intro card_mono) auto
  moreover have "card (memory_key cfg ` ids_of cfg s) = card (ids_of cfg s)"
    by (intro card_image inj_onI) simp
  moreover have "card (set (dkeys (ms_records s))) \<le> length (ms_records s)"
    using card_length [of "dkeys (ms_records s)"] by simp
  ultimately show ?thesis by linarith
qed

lemma ancestors_exist:
  assumes "parents_older s"
  shows "\<exists>ks. ancestors cfg s i ks \<and> length ks \<le> card {j \<in> ids_of cfg s. j \<le> i}"
proof (induction "card {j \<in> ids_of cfg s. j \<le> i}" arbitrary: i rule: less_induct)
  case less
  show ?case
  proof (cases "i = [] \<or> map_of (ms_records s) (memory_key cfg i) = None")
    case True
    then show ?thesis by (intro exI [of _ "[]"]) (auto intro: anc_end)
  next
    case False
    then obtain r where r: "map_of (ms_records s) (memory_key cfg i) = Some r" by auto
    let ?p = "mr_parentID r"
    from parents_olderD [OF assms r] have p: "?p = [] \<or> ?p < i" .
    have "{j \<in> ids_of cfg s. j \<le> ?p} \<subseteq> {j \<in> ids_of cfg s. j \<le> i} - {i}"
      using p False by auto
    moreover have i: "i \<in> {j \<in> ids_of cfg s. j \<le> i}" using r by (simp add: ids_of_def)
    ultimately have "card {j \<in> ids_of cfg s. j \<le> ?p} \<le> card ({j \<in> ids_of cfg s. j \<le> i} - {i})"
      by (intro card_mono) auto
    also have "\<dots> < card {j \<in> ids_of cfg s. j \<le> i}"
      using i by (intro card_Diff1_less) auto
    finally have lt: "card {j \<in> ids_of cfg s. j \<le> ?p} < card {j \<in> ids_of cfg s. j \<le> i}" .
    from less [OF lt] obtain ks where ks: "ancestors cfg s ?p ks" "length ks \<le> card {j \<in> ids_of cfg s. j \<le> ?p}"
      by blast
    then have "ancestors cfg s i ((i, r) # ks)" using False r by (auto intro: anc_step)
    with ks(2) lt show ?thesis by (intro exI [of _ "(i, r) # ks"]) auto
  qed
qed

lemma ancestors_bounded:
  assumes "parents_older s"
  shows "\<exists>ks. ancestors cfg s i ks \<and> length ks \<le> length (ms_records s)"
proof -
  from ancestors_exist [OF assms] obtain ks where
    "ancestors cfg s i ks" "length ks \<le> card {j \<in> ids_of cfg s. j \<le> i}" by blast
  moreover have "card {j \<in> ids_of cfg s. j \<le> i} \<le> card (ids_of cfg s)" by (intro card_mono) auto
  ultimately show ?thesis using card_ids_of [of cfg s] by (meson order.trans)
qed

lemma ancestors_unique: "ancestors cfg s i ks \<Longrightarrow> ancestors cfg s i ks' \<Longrightarrow> ks = ks'"
proof (induction arbitrary: ks' rule: ancestors.induct)
  case (anc_end i)
  then show ?case by (cases ks') (auto elim: ancestors_ConsE)
next
  case (anc_step i r ks)
  from anc_step.prems anc_step.hyps obtain ks2 where "ks' = (i, r) # ks2" "ancestors cfg s (mr_parentID r) ks2"
    by (cases ks') (auto elim!: ancestors_NilE ancestors_ConsE)
  with anc_step.IH show ?case by blast
qed

definition target_id :: "config \<Rightarrow> 'x memorySaver \<Rightarrow> string" where
  "target_id cfg s = (if cf_checkpointID cfg = [] then latest_id cfg s else cf_checkpointID cfg)"

lemma memory_history_chain:
  assumes "parents_older s" and "cf_threadID cfg \<noteq> []" and "channels \<noteq> []"
    and "map_of (ms_records s) (memory_key cfg (target_id cfg s)) = Some target"
  shows "\<exists>ks result. ancestors cfg s (mr_parentID target) ks \<and>
    memory_GetDeltaChannelHistory None cfg channels s = Inr result \<and>
    (\<forall>c. map_of result c = (if c \<in> set channels then Some (chain_history cfg s c ks) else None))"
proof -
  from ancestors_bounded [OF assms(1)] obtain ks where
    ks: "ancestors cfg s (mr_parentID target) ks" "length ks \<le> length (ms_records s)" by blast
  let ?r0 = "dict_of channels (\<lambda>_. empty_history)"
  from history_loop_spec [OF ks, of "remdups channels" ?r0] obtain res where
    res: "history_loop (length (ms_records s)) cfg s (mr_parentID target) (remdups channels) ?r0 = Inr res"
    "\<And>c. map_of res c = (if c \<in> set channels
       then Some (join_history (dget empty_history ?r0 c) (chain_history cfg s c ks)) else map_of ?r0 c)"
    by auto
  let ?out = "map (\<lambda>(channel, h). (channel, h\<lparr>dh_writes := rev (dh_writes h)\<rparr>)) res"
  have "memory_GetDeltaChannelHistory None cfg channels s = Inr ?out"
    using assms(2-4) res(1)
    by (simp add: memory_GetDeltaChannelHistory_def ctx_err_def config_Validate_def target_id_def Let_def)
  moreover have "map_of ?out c = (if c \<in> set channels then Some (chain_history cfg s c ks) else None)" for c
  proof -
    have "dget empty_history ?r0 c = empty_history" by (simp add: dget_def)
    then show ?thesis
      using res(2) [of c] chain_no_seed [of cfg s c ks]
      by (auto simp: map_of_map_val [where f = "\<lambda>_ h. h\<lparr>dh_writes := rev (dh_writes h)\<rparr>"] join_history_def
          empty_history_def)
  qed
  ultimately show ?thesis using ks(1) by blast
qed

text \<open>C9: the delta history of a checkpoint is computed, channel by channel, from its chain of ancestors
  (itself excluded): the value stored nearest to it, and the channel's pending writes from that
  ancestor on, oldest first and in task order within an ancestor. When parents are older than their
  children the walk terminates on every saver.\<close>

theorem memory_history_spec:
  assumes "parents_older s" and "cf_threadID cfg \<noteq> []" and "channels \<noteq> []"
    and "map_of (ms_records s) (memory_key cfg (target_id cfg s)) = Some target"
  shows "\<exists>ks result. ancestors cfg s (mr_parentID target) ks \<and>
    memory_GetDeltaChannelHistory None cfg channels s = Inr result \<and>
    (\<forall>c. map_of result c = (if c \<in> set channels then Some (chain_history cfg s c ks) else None))"
  using assms by (rule memory_history_chain)

section \<open>Pruning to the latest checkpoints\<close>

lemma keep_chain_ancestors:
  "ancestors cfg s i ks \<Longrightarrow> length ks \<le> fuel \<Longrightarrow>
   keep_chain fuel (ms_records s) (cf_threadID cfg) (cf_namespace cfg) i =
     Inr (map (\<lambda>(j, r). memory_key cfg j) ks)"
proof (induction arbitrary: fuel rule: ancestors.induct)
  case (anc_end i)
  then show ?case by (subst keep_chain.simps) (auto simp: memory_key_def Let_def)
next
  case (anc_step i r ks)
  then obtain fuel' where "fuel = Suc fuel'" "length ks \<le> fuel'" by (cases fuel) auto
  with anc_step show ?case
    by (subst keep_chain.simps) (simp add: memory_key_def [of cfg] Let_def)
qed

text \<open>The latest identifier per namespace is that of \<open>latest_id\<close>.\<close>

definition thread_config :: "string \<Rightarrow> string \<Rightarrow> config" where
  "thread_config t n = \<lparr>cf_threadID = t, cf_namespace = n, cf_checkpointID = []\<rparr>"

lemma latest_by_namespace_fold:
  "dget [] (fold (\<lambda>(key, r) latest.
       if mk_threadID key = t \<and> mk_id key > dget [] latest (mk_namespace key)
       then dput (mk_namespace key) (mk_id key) latest else latest) rs d) n =
   fold (\<lambda>(key, r) i.
       if mk_threadID key = cf_threadID (thread_config t n) \<and> mk_namespace key = cf_namespace (thread_config t n) \<and> mk_id key > i
       then mk_id key else i) rs (dget [] d n)"
proof (induction rs arbitrary: d)
  case (Cons kr rs)
  obtain k r where "kr = (k, r)" by (cases kr)
  with Cons show ?case by (auto simp: thread_config_def)
qed simp

lemma latest_by_namespace_nonempty:
  assumes "\<forall>n. map_of d n \<noteq> Some []"
  shows "map_of (fold (\<lambda>(key, r) latest.
       if mk_threadID key = t \<and> mk_id key > dget [] latest (mk_namespace key)
       then dput (mk_namespace key) (mk_id key) latest else latest) rs d) n \<noteq> Some []"
  using assms
proof (induction rs arbitrary: d)
  case (Cons kr rs)
  obtain k r where "kr = (k, r)" by (cases kr)
  with Cons.prems show ?case by (auto intro!: Cons.IH split: if_splits)
qed simp

lemma distinct_latest_by_namespace:
  "distinct (dkeys d) \<Longrightarrow> distinct (dkeys (fold (\<lambda>(key, r) latest.
       if mk_threadID key = t \<and> mk_id key > dget [] latest (mk_namespace key)
       then dput (mk_namespace key) (mk_id key) latest else latest) rs d))"
  by (induction rs arbitrary: d) auto

lemma latest_by_namespace_lookup:
  "map_of (latest_by_namespace t (ms_records s)) n =
     (if latest_id (thread_config t n) s = [] then None else Some (latest_id (thread_config t n) s))"
proof -
  have "dget [] (latest_by_namespace t (ms_records s)) n = latest_id (thread_config t n) s"
    using latest_by_namespace_fold [of t "ms_records s" "[]" n]
    by (simp add: latest_by_namespace_def latest_id_def dget_def)
  moreover have "map_of (latest_by_namespace t (ms_records s)) n \<noteq> Some []"
    unfolding latest_by_namespace_def by (rule latest_by_namespace_nonempty) simp
  ultimately show ?thesis by (auto simp: dget_def split: option.splits)
qed

lemma distinct_latest: "distinct (dkeys (latest_by_namespace t rs))"
  unfolding latest_by_namespace_def by (rule distinct_latest_by_namespace) simp

definition on_latest_chain :: "string \<Rightarrow> 'x memorySaver \<Rightarrow> memoryKey \<Rightarrow> bool" where
  "on_latest_chain t s k \<longleftrightarrow> (\<exists>n ks j r. latest_id (thread_config t n) s \<noteq> [] \<and>
     ancestors (thread_config t n) s (latest_id (thread_config t n) s) ks \<and>
     (j, r) \<in> set ks \<and> k = memory_key (thread_config t n) j)"

lemma keep_all_chains:
  assumes "parents_older s"
  shows "\<exists>chains. map_res (\<lambda>(namespace, i). keep_chain (length (ms_records s)) (ms_records s) t namespace i)
      (latest_by_namespace t (ms_records s)) = Inr chains \<and>
    (\<forall>k. k \<in> set (concat chains) \<longleftrightarrow> on_latest_chain t s k)"
proof -
  define chain where "chain n i = (SOME ks. ancestors (thread_config t n) s i ks \<and> length ks \<le> length (ms_records s))" for n i
  have chain: "ancestors (thread_config t n) s i (chain n i)" "length (chain n i) \<le> length (ms_records s)" for n i
    using someI_ex [OF ancestors_bounded [OF assms]] by (auto simp: chain_def)
  have chain_eq: "ancestors (thread_config t n) s i ks \<longleftrightarrow> ks = chain n i" for n i ks
    using chain(1) ancestors_unique by blast
  let ?keys = "\<lambda>(n, i). map (\<lambda>(j, r). memory_key (thread_config t n) j) (chain n i)"
  have "map_res (\<lambda>(namespace, i). keep_chain (length (ms_records s)) (ms_records s) t namespace i)
      (latest_by_namespace t (ms_records s)) = Inr (map ?keys (latest_by_namespace t (ms_records s)))"
  proof (rule map_res_total)
    fix ni assume "ni \<in> set (latest_by_namespace t (ms_records s))"
    show "(case ni of (namespace, i) \<Rightarrow> keep_chain (length (ms_records s)) (ms_records s) t namespace i) = Inr (?keys ni)"
      using keep_chain_ancestors [OF chain] by (cases ni) (simp add: thread_config_def)
  qed
  moreover have "k \<in> set (concat (map ?keys (latest_by_namespace t (ms_records s)))) \<longleftrightarrow> on_latest_chain t s k" for k
  proof -
    have "k \<in> set (concat (map ?keys (latest_by_namespace t (ms_records s)))) \<longleftrightarrow>
        (\<exists>n i j r. map_of (latest_by_namespace t (ms_records s)) n = Some i \<and> (j, r) \<in> set (chain n i) \<and>
          k = memory_key (thread_config t n) j)"
      using distinct_latest [of t "ms_records s"] by (fastforce simp: map_of_Some_iff)
    also have "\<dots> \<longleftrightarrow> on_latest_chain t s k"
      unfolding on_latest_chain_def latest_by_namespace_lookup chain_eq by auto
    finally show ?thesis .
  qed
  ultimately show ?thesis by blast
qed

lemma set_remove_keys: "set (remove_keys ks d) \<subseteq> set d"
  unfolding remove_keys_def
proof (induction ks arbitrary: d)
  case (Cons k ks)
  have "set (ddel k d) \<subseteq> set d" by (auto simp: AList.delete_eq)
  with Cons.IH [of "ddel k d"] show ?case by auto
qed simp

lemma prune_thread_result:
  assumes "parents_older s"
  shows "\<exists>s'. prune_thread t s = Inr s' \<and>
    (\<forall>k. map_of (ms_records s') k =
       (if mk_threadID k = t \<and> \<not> on_latest_chain t s k then None else map_of (ms_records s) k)) \<and>
    (\<forall>k. map_of (ms_writes s') k =
       (if mk_threadID k = t \<and> \<not> on_latest_chain t s k \<and> map_of (ms_records s) k \<noteq> None
        then None else map_of (ms_writes s) k)) \<and>
    (\<forall>b. map_of (ms_blobs s') b =
       (if bk_threadID b = t \<and> b \<notin> set (referenced_blobs t (ms_records s')) then None else map_of (ms_blobs s) b)) \<and>
    set (ms_records s') \<subseteq> set (ms_records s)"
proof -
  from keep_all_chains [OF assms] obtain chains where
    ch: "map_res (\<lambda>(namespace, i). keep_chain (length (ms_records s)) (ms_records s) t namespace i)
      (latest_by_namespace t (ms_records s)) = Inr chains"
    and mem: "\<And>k. k \<in> set (concat chains) \<longleftrightarrow> on_latest_chain t s k" by blast
  let ?doomed = "filter (\<lambda>key. mk_threadID key = t \<and> key \<notin> set (concat chains)) (dkeys (ms_records s))"
  let ?records = "remove_keys ?doomed (ms_records s)"
  let ?s' = "s\<lparr>ms_records := ?records, ms_writes := remove_keys ?doomed (ms_writes s),
      ms_blobs := filter (\<lambda>(k, b). bk_threadID k \<noteq> t \<or> k \<in> set (referenced_blobs t ?records)) (ms_blobs s)\<rparr>"
  have dm: "k \<in> set ?doomed \<longleftrightarrow> mk_threadID k = t \<and> \<not> on_latest_chain t s k \<and> map_of (ms_records s) k \<noteq> None" for k
    unfolding mem [symmetric] by (auto simp: mem_keys_iff)
  have "prune_thread t s = Inr ?s'"
    unfolding prune_thread_def ch res_bind_Inr Let_def ..
  moreover have "map_of (ms_records ?s') k =
       (if mk_threadID k = t \<and> \<not> on_latest_chain t s k then None else map_of (ms_records s) k)" for k
    using dm [of k] by (simp del: set_filter)
  moreover have "map_of (ms_writes ?s') k =
       (if mk_threadID k = t \<and> \<not> on_latest_chain t s k \<and> map_of (ms_records s) k \<noteq> None
        then None else map_of (ms_writes s) k)" for k
    using dm [of k] by (simp del: set_filter)
  moreover have "map_of (ms_blobs ?s') b =
       (if bk_threadID b = t \<and> b \<notin> set (referenced_blobs t (ms_records ?s')) then None else map_of (ms_blobs s) b)" for b
    using map_of_filter_pair [of "\<lambda>k. bk_threadID k \<noteq> t \<or> k \<in> set (referenced_blobs t ?records)" "ms_blobs s" b]
    by simp
  moreover have "set (ms_records ?s') \<subseteq> set (ms_records s)" by (simp add: set_remove_keys)
  ultimately show ?thesis by blast
qed

lemma referenced_blob:
  assumes "map_of records (memory_key cfg i) = Some r" and "cf_threadID cfg = t"
    and "(c, v) \<in> set (cp_channelVersions (mr_checkpoint r))"
  shows "blob_key cfg c v \<in> set (referenced_blobs t records)"
proof -
  have "(memory_key cfg i, r) \<in> set records" using assms(1) by (rule map_of_SomeD)
  then show ?thesis
    using assms(2,3) by (force simp: referenced_blobs_def blob_key_def)
qed

lemma ancestors_records:
  "ancestors cfg s i ks \<Longrightarrow> (j, r) \<in> set ks \<Longrightarrow> j \<noteq> [] \<and> map_of (ms_records s) (memory_key cfg j) = Some r"
  by (induction rule: ancestors.induct) auto

lemma ancestors_transfer:
  assumes "ancestors cfg s i ks"
    and "\<And>j r. (j, r) \<in> set ks \<Longrightarrow> map_of (ms_records s') (memory_key cfg j) = Some r"
    and "\<And>j. map_of (ms_records s) (memory_key cfg j) = None \<Longrightarrow> map_of (ms_records s') (memory_key cfg j) = None"
  shows "ancestors cfg s' i ks"
  using assms(1,2)
proof (induction rule: ancestors.induct)
  case (anc_end i)
  then show ?case using assms(3) by (intro ancestors.anc_end) auto
next
  case (anc_step i r ks)
  then show ?case by (intro ancestors.anc_step) auto
qed

text \<open>Reading a kept checkpoint after pruning.\<close>

lemma chain_history_cong:
  assumes "\<forall>(i, r) \<in> set ks. seed_value cfg r s' c = seed_value cfg r s c \<and>
      pendingWritesLocked (memory_key cfg i) s' = pendingWritesLocked (memory_key cfg i) s"
  shows "chain_history cfg s' c ks = chain_history cfg s c ks"
  using assms
proof (induction ks)
  case (Cons ir ks)
  then show ?case by (cases ir) (auto simp: channel_writes_def split: option.split)
qed simp

text \<open>C25: pruning to the latest checkpoints is invisible to whoever continues a thread. The latest checkpoint
  of each namespace of the thread keeps its tuple and its delta histories, and the other threads are
  untouched.\<close>

theorem memory_Prune_keeps_latest:
  assumes "parents_older s" and "cf_threadID cfg \<noteq> []" and "cf_checkpointID cfg = []"
    and "latest_id cfg s \<noteq> []" and "channels \<noteq> []"
    and "memory_Prune ctx [cf_threadID cfg] PruneKeepLatest s = (s', r)"
  shows "r = Inr () \<and> getTupleLocked cfg s' = getTupleLocked cfg s \<and>
    (\<exists>h h'. memory_GetDeltaChannelHistory None cfg channels s = Inr h \<and>
       memory_GetDeltaChannelHistory None cfg channels s' = Inr h' \<and> same_map h h') \<and>
    (\<forall>cfg'. cf_threadID cfg' \<noteq> cf_threadID cfg \<longrightarrow> getTupleLocked cfg' s' = getTupleLocked cfg' s)"
proof -
  let ?t = "cf_threadID cfg" and ?L = "latest_id cfg s"
  from prune_thread_result [OF assms(1), of ?t] assms(6) have r: "r = Inr ()"
    and recs: "\<And>k. map_of (ms_records s') k =
       (if mk_threadID k = ?t \<and> \<not> on_latest_chain ?t s k then None else map_of (ms_records s) k)"
    and wrs: "\<And>k. map_of (ms_writes s') k =
       (if mk_threadID k = ?t \<and> \<not> on_latest_chain ?t s k \<and> map_of (ms_records s) k \<noteq> None
        then None else map_of (ms_writes s) k)"
    and blobs: "\<And>b. map_of (ms_blobs s') b =
       (if bk_threadID b = ?t \<and> b \<notin> set (referenced_blobs ?t (ms_records s')) then None else map_of (ms_blobs s) b)"
    and sub: "set (ms_records s') \<subseteq> set (ms_records s)"
    by (auto simp: memory_Prune_def)
  have cfg: "cfg = thread_config ?t (cf_namespace cfg)" using assms(3) by (cases cfg) (simp add: thread_config_def)
  obtain ks where ks: "ancestors cfg s ?L ks" using ancestors_bounded [OF assms(1)] by blast
  have kept: "on_latest_chain ?t s (memory_key cfg j)" if "(j, q) \<in> set ks" for j q
    unfolding on_latest_chain_def using ks that assms(4) cfg by metis
  have rec_kept: "map_of (ms_records s') (memory_key cfg j) = Some q" if "(j, q) \<in> set ks" for j q
    using recs [of "memory_key cfg j"] kept [OF that] ancestors_records [OF ks that] by simp
  have pend_kept: "pendingWritesLocked (memory_key cfg j) s' = pendingWritesLocked (memory_key cfg j) s"
    if "(j, q) \<in> set ks" for j q
    using wrs [of "memory_key cfg j"] kept [OF that] by (simp add: pendingWritesLocked_def dget_def)
  have blob_kept: "blob_value cfg c v s' = blob_value cfg c v s"
    if "(j, q) \<in> set ks" "(c, v) \<in> set (cp_channelVersions (mr_checkpoint q))" for j q c v
    using blobs [of "blob_key cfg c v"] referenced_blob [OF rec_kept [OF that(1)] refl that(2)]
    by (simp add: blob_value_def)
  from ks assms(4) obtain q ks' where head: "ks = (?L, q) # ks'"
    and q: "map_of (ms_records s) (memory_key cfg ?L) = Some q" and ks': "ancestors cfg s (mr_parentID q) ks'"
    using latest_id_cases [of cfg s] by (cases rule: ancestors.cases) (auto simp: ids_of_def)
  have L_mem: "(?L, q) \<in> set ks" by (simp add: head)
  have lat: "latest_id cfg s' = ?L"
  proof -
    have "ids_of cfg s' \<subseteq> ids_of cfg s" using recs by (auto simp: ids_of_def split: if_splits)
    moreover have "?L \<in> ids_of cfg s'" using rec_kept [OF L_mem] by (simp add: ids_of_def)
    ultimately show ?thesis
      using latest_id_ge [of "latest_id cfg s'" cfg s] latest_id_ge [of ?L cfg s'] latest_id_cases [of cfg s']
      by (auto intro: antisym)
  qed
  have older: "parents_older s'" using assms(1) sub by (auto simp: parents_older_def list_all_iff)
  have tuple: "getTupleLocked cfg s' = getTupleLocked cfg s"
  proof -
    have "channel_values cfg (cp_channelVersions (mr_checkpoint q)) s' = channel_values cfg (cp_channelVersions (mr_checkpoint q)) s"
      unfolding channel_values_def
      by (intro fold_cong) (auto simp: blob_kept [OF L_mem])
    then show ?thesis
      using lat q rec_kept [OF L_mem] pend_kept [OF L_mem] assms(3)
      by (simp add: getTupleLocked_def Let_def)
  qed
  have seeds: "seed_value cfg p s' c = seed_value cfg p s c" if "(j, p) \<in> set ks" for j p c
    using blob_kept [OF that] by (cases "map_of (cp_channelVersions (mr_checkpoint p)) c")
      (auto simp: seed_value_def dest: map_of_SomeD)
  have hist: "chain_history cfg s' c ks' = chain_history cfg s c ks'" for c
  proof (rule chain_history_cong, clarify)
    fix i p assume "(i, p) \<in> set ks'"
    then have m: "(i, p) \<in> set ks" by (simp add: head)
    show "seed_value cfg p s' c = seed_value cfg p s c \<and>
        pendingWritesLocked (memory_key cfg i) s' = pendingWritesLocked (memory_key cfg i) s"
      using seeds [OF m] pend_kept [OF m] by simp
  qed
  have anc': "ancestors cfg s' (mr_parentID q) ks'"
  proof (rule ancestors_transfer [OF ks'])
    fix j p assume "(j, p) \<in> set ks'"
    then show "map_of (ms_records s') (memory_key cfg j) = Some p" by (intro rec_kept) (simp add: head)
  qed (simp add: recs)
  have tid: "target_id cfg s = ?L" "target_id cfg s' = ?L"
    using assms(3) lat by (simp_all add: target_id_def)
  from memory_history_chain [OF assms(1,2,5)] q tid(1) ks' obtain h where
    h: "memory_GetDeltaChannelHistory None cfg channels s = Inr h"
      "\<And>c. map_of h c = (if c \<in> set channels then Some (chain_history cfg s c ks') else None)"
    by (metis ancestors_unique)
  from memory_history_chain [OF older assms(2,5)] rec_kept [OF L_mem] tid(2) anc' obtain h' where
    h': "memory_GetDeltaChannelHistory None cfg channels s' = Inr h'"
      "\<And>c. map_of h' c = (if c \<in> set channels then Some (chain_history cfg s' c ks') else None)"
    by (metis ancestors_unique)
  have "same_map h h'" using h(2) h'(2) hist by (auto simp: same_map_def)
  moreover have "getTupleLocked cfg' s' = getTupleLocked cfg' s" if "cf_threadID cfg' \<noteq> ?t" for cfg'
    using that by (intro same_thread_tuple) (auto simp: same_thread_def recs wrs blobs)
  ultimately show ?thesis using r tuple h(1) h'(1) by blast
qed

section \<open>Listing\<close>

text \<open>C29: List returns the tuples of the first limit matching checkpoints in thread, namespace and newest-first
  order: the bounded heap selects exactly what sorting every match and cutting would.\<close>

theorem memory_List_first:
  assumes "0 \<le> lo_limit options" and "\<forall>c. cfg = Some c \<longrightarrow> cf_threadID c \<noteq> []"
  shows "memory_List eq None cfg options s =
    map_res (\<lambda>key. case getTupleLocked \<lparr>cf_threadID = mk_threadID key, cf_namespace = mk_namespace key,
          cf_checkpointID = mk_id key\<rparr> s of None \<Rightarrow> Inl NilCall | Some t \<Rightarrow> Inr t)
      (take (nat (if lo_limit options = 0 then DefaultListLimit else lo_limit options))
        (sort_by memoryKeyLess (map fst (filter (listed eq cfg options) (ms_records s)))))"
proof -
  let ?limit = "if lo_limit options = 0 then DefaultListLimit else lo_limit options"
  have norm: "Normalized options = Inr (options\<lparr>lo_limit := ?limit\<rparr>)"
    using assms(1) by (auto simp: Normalized_def)
  have "listed eq cfg (options\<lparr>lo_limit := ?limit\<rparr>) = listed eq cfg options"
    by (rule ext) (simp add: listed_def)
  moreover have "0 < ?limit" using assms(1) by (simp add: DefaultListLimit_def)
  moreover have "(case cfg of None \<Rightarrow> Inr () | Some c \<Rightarrow> config_Validate c) = Inr ()"
    using assms(2) by (simp add: config_Validate_def split: option.split)
  ultimately show ?thesis
    by (simp add: memory_List_def ctx_err_def norm mkl.bounded_select_first)
qed

section \<open>What every update keeps\<close>

lemma memory_Put_cases:
  assumes "memory_Put ctx cfg value metadata nv s = (s', r)"
  obtains (failed) e where "s' = s" "r = Inl e"
  | (stored) rec blobs where "r = Inr (cfg\<lparr>cf_checkpointID := cp_id value\<rparr>)"
      "s' = s\<lparr>ms_blobs := blobs, ms_records := dput (memory_key cfg (cp_id value)) rec (ms_records s)\<rparr>"
      "mr_parentID rec = cf_checkpointID cfg" "distinct (dkeys (ms_blobs s)) \<Longrightarrow> distinct (dkeys blobs)"
proof -
  have d: "distinct (dkeys d) \<Longrightarrow> distinct (dkeys (fold (\<lambda>(channel, version).
      dput (blob_key cfg channel version) (f channel)) nv d))" for f and d :: "(blobKey, 'a memoryBlob) dict"
    by (induction nv arbitrary: d) auto
  show thesis
  proof (cases "ctx = None \<and> cf_threadID cfg \<noteq> [] \<and> cp_id value \<noteq> []")
    case True
    then have "res_bind (ctx_err ctx) (\<lambda>_. config_Validate cfg) = Inr ()" by (simp add: checked_iff)
    with True assms have r: "r = Inr (cfg\<lparr>cf_checkpointID := cp_id value\<rparr>)"
      and s': "s' = s\<lparr>ms_blobs := fold (\<lambda>(channel, version).
          dput (blob_key cfg channel version) (map_of (cp_channelValues value) channel)) nv (ms_blobs s),
        ms_records := dput (memory_key cfg (cp_id value))
          \<lparr>mr_checkpoint = (if cp_version value = 0 then value\<lparr>cp_version := LatestVersion\<rparr> else value)\<lparr>cp_channelValues := []\<rparr>,
           mr_metadata = metadata, mr_parentID = cf_checkpointID cfg\<rparr> (ms_records s)\<rparr>"
      by (cases cfg; simp add: memory_Put_def Let_def split: if_splits)+
    show thesis by (rule stored [OF r s']) (simp_all add: d)
  next
    case False
    then show thesis using assms failed
      by (cases "res_bind (ctx_err ctx) (\<lambda>_. config_Validate cfg)") (auto simp: memory_Put_def checked_iff)
  qed
qed

definition saver_ok :: "'x memorySaver \<Rightarrow> bool" where
  "saver_ok s \<longleftrightarrow> saver_distinct s \<and> parents_older s"

lemma set_dput: "distinct (dkeys d) \<Longrightarrow> set (dput k v d) = insert (k, v) {(k', v') \<in> set d. k' \<noteq> k}"
  by (induction d) (auto simp: rev_image_eqI)

lemma memory_Put_ok:
  assumes "saver_ok s" and "memory_Put ctx cfg value metadata nv s = (s', r)"
    and "cf_checkpointID cfg = [] \<or> cf_checkpointID cfg < cp_id value"
  shows "saver_ok s'"
  using assms(2)
proof (cases rule: memory_Put_cases)
  case (stored rec blobs)
  with assms(1,3) show ?thesis
    by (auto simp: saver_ok_def saver_distinct_def parents_older_def list_all_iff set_dput)
qed (use assms(1) in simp)

lemma memory_PutWrites_ok:
  assumes "saver_ok s" and "memory_PutWrites ctx cfg t p ws s = (s', r)"
  shows "saver_ok s'"
  using assms
  by (auto simp: memory_PutWrites_def saver_ok_def saver_distinct_def parents_older_def Let_def
      split: sum.splits if_splits)

section \<open>A sample saver\<close>

definition sample_config :: "string \<Rightarrow> config" where
  "sample_config i = \<lparr>cf_threadID = ''t'', cf_namespace = [], cf_checkpointID = i\<rparr>"

definition sample_checkpoint :: "string \<Rightarrow> nat vals \<Rightarrow> nat checkpoint" where
  "sample_checkpoint i vs = empty_checkpoint\<lparr>cp_id := i, cp_channelValues := vs, cp_channelVersions := [(''log'', ''1'')]\<rparr>"

definition sample_saver1 :: "nat memorySaver" where
  "sample_saver1 = fst (memory_Put None (sample_config [])
     (sample_checkpoint ''a'' [(''log'', VSnapshot (VSlice []))]) empty_metadata [(''log'', ''1'')] NewMemorySaver)"

definition sample_saver2 :: "nat memorySaver" where
  "sample_saver2 = fst (memory_PutWrites None (sample_config ''a'') ''task'' ''p''
     [\<lparr>cw_channel = ''log'', cw_value = VInt 1\<rparr>] sample_saver1)"

definition sample_saver :: "nat memorySaver" where
  "sample_saver = fst (memory_Put None (sample_config ''a'') (sample_checkpoint ''b'' []) empty_metadata [] sample_saver2)"

lemma sample_ok: "parents_older sample_saver" "saver_distinct sample_saver" "no_thread ''u'' sample_saver"
  by code_simp+

lemma sample_Put:
  "memory_Put None (sample_config ''a'') (sample_checkpoint ''b'' []) empty_metadata [] sample_saver2 =
     (sample_saver, Inr (sample_config ''b''))"
  by code_simp


theorem memory_PutWrites_first_wins_witness:
  "map_of (dget [] (ms_writes (fst (memory_PutWrites None (sample_config ''a'') ''task'' ''p''
      [\<lparr>cw_channel = ''log'', cw_value = VInt 2\<rparr>] sample_saver))) (memory_key (sample_config ''a'') ''a'')) (''task'', 0) =
     Some \<lparr>pw_taskID = ''task'', pw_taskPath = ''p'', pw_index = 0, pw_channel = ''log'', pw_value = VInt 1\<rparr>"
proof (rule memory_PutWrites_first_wins)
  show "memory_PutWrites None (sample_config ''a'') ''task'' ''p'' [\<lparr>cw_channel = ''log'', cw_value = VInt 2\<rparr>] sample_saver =
    (fst (memory_PutWrites None (sample_config ''a'') ''task'' ''p'' [\<lparr>cw_channel = ''log'', cw_value = VInt 2\<rparr>] sample_saver),
     snd (memory_PutWrites None (sample_config ''a'') ''task'' ''p'' [\<lparr>cw_channel = ''log'', cw_value = VInt 2\<rparr>] sample_saver))"
    by simp
  show "map_of (dget [] (ms_writes sample_saver) (memory_key (sample_config ''a'') ''a'')) (''task'', 0) =
     Some \<lparr>pw_taskID = ''task'', pw_taskPath = ''p'', pw_index = 0, pw_channel = ''log'', pw_value = VInt 1\<rparr>"
    by code_simp
qed simp

theorem memory_DeleteThread_isolates_witness:
  "getTupleLocked (sample_config []) (fst (memory_DeleteThread None ''t'' sample_saver)) = None \<and>
   getTupleLocked (sample_config [])  (fst (memory_DeleteThread None ''u'' sample_saver)) = getTupleLocked (sample_config []) sample_saver"
  using memory_DeleteThread_isolates [of "''t''" sample_saver "fst (memory_DeleteThread None ''t'' sample_saver)" "snd (memory_DeleteThread None ''t'' sample_saver)"]
    memory_DeleteThread_isolates [of "''u''" sample_saver "fst (memory_DeleteThread None ''u'' sample_saver)" "snd (memory_DeleteThread None ''u'' sample_saver)"]
  by (simp add: sample_config_def)

theorem memory_CopyThread_faithful_witness:
  "getTupleLocked ((sample_config [])\<lparr>cf_threadID := ''u''\<rparr>) (fst (memory_CopyThread None ''t'' ''u'' sample_saver)) =
     map_option (rename_tuple ''u'') (getTupleLocked ((sample_config [])\<lparr>cf_threadID := ''t''\<rparr>) sample_saver)"
  using memory_CopyThread_faithful [OF sample_ok(2,3), of "''t''" "fst (memory_CopyThread None ''t'' ''u'' sample_saver)"
      "snd (memory_CopyThread None ''t'' ''u'' sample_saver)"] by simp

theorem memory_history_spec_witness:
  "\<exists>ks result. ancestors (sample_config []) sample_saver ''a'' ks \<and>
    memory_GetDeltaChannelHistory None (sample_config []) [''log''] sample_saver = Inr result \<and>
    map_of result ''log'' = Some (chain_history (sample_config []) sample_saver ''log'' ks)"
proof -
  have "map_of (ms_records sample_saver) (memory_key (sample_config []) (target_id (sample_config []) sample_saver)) =
      Some (the (map_of (ms_records sample_saver) (memory_key (sample_config []) ''b'')))" by code_simp
  moreover have "mr_parentID (the (map_of (ms_records sample_saver) (memory_key (sample_config []) ''b''))) = ''a''" by code_simp
  ultimately show ?thesis
    using memory_history_spec [OF sample_ok(1), of "sample_config []" "[''log'']"] by (auto simp: sample_config_def)
qed

theorem memory_Prune_keeps_latest_witness:
  "getTupleLocked (sample_config []) (fst (memory_Prune None [''t''] PruneKeepLatest sample_saver)) =
     getTupleLocked (sample_config []) sample_saver"
proof -
  have "latest_id (sample_config []) sample_saver \<noteq> []" by code_simp
  then show ?thesis
    using memory_Prune_keeps_latest [OF sample_ok(1), of "sample_config []" "[''log'']" None
        "fst (memory_Prune None [''t''] PruneKeepLatest sample_saver)" "snd (memory_Prune None [''t''] PruneKeepLatest sample_saver)"]
    by (simp add: sample_config_def)
qed

theorem memory_List_first_witness:
  "memory_List (=) None (Some (sample_config [])) \<lparr>lo_metadata = [], lo_before = None, lo_limit = 1\<rparr> sample_saver =
    map_res (\<lambda>key. case getTupleLocked \<lparr>cf_threadID = mk_threadID key, cf_namespace = mk_namespace key,
          cf_checkpointID = mk_id key\<rparr> sample_saver of None \<Rightarrow> Inl NilCall | Some t \<Rightarrow> Inr t)
      [memory_key (sample_config []) ''b'']"
proof -
  have "take (nat 1) (sort_by memoryKeyLess (map fst (filter (listed (=) (Some (sample_config []))
      \<lparr>lo_metadata = [], lo_before = None, lo_limit = 1\<rparr>) (ms_records sample_saver)))) = [memory_key (sample_config []) ''b'']"
    by code_simp
  then show ?thesis
    using memory_List_first [of "\<lparr>lo_metadata = [], lo_before = None, lo_limit = 1\<rparr>" "Some (sample_config [])" "(=)" sample_saver]
    by (simp add: sample_config_def)
qed

end
