(* ===== verification/Graph_Builder.thy ===== *)
theory Graph_Builder
  imports State_Machine Memory_Saver
begin

text \<open>
  The graph of \<^verbatim>\<open>internal/graph/graph.go\<close>: its data types, the builder with its validation, the compiled
  graph, and the tasks of a superstep with their durable encoding (\<^verbatim>\<open>internal/graph/persist.go\<close>).

  Nodes and routers are the application's code: functions of the values they see and of a tick, a
  number that is different for every call, so that a node may answer differently each time. The
  handles a runtime passes through to nodes (store, cache, event writer) have no effect on the
  executor and are left out of the model's runtime record.
\<close>

section \<open>Commands\<close>

definition Start :: string where "Start = ''__start__''"
definition End :: string where "End = ''__end__''"

record 'x send =
  sn_node :: string
  sn_input :: "'x vals"

record 'x interrupt =
  it_ID :: string
  it_value :: "'x gval"

record 'x command =
  cmd_update :: "'x vals"
  cmd_goto :: "string list"
  cmd_sends :: "'x send list"
  cmd_interrupt :: "'x interrupt option"

definition empty_command :: "'x command" where
  "empty_command = \<lparr>cmd_update = [], cmd_goto = [], cmd_sends = [], cmd_interrupt = None\<rparr>"

record 'x runtime =
  rt_deps :: "'x gval"
  rt_config :: config
  rt_configurable :: "'x vals"
  rt_previous :: "'x vals"
  rt_taskID :: string
  rt_resume :: "'x gval"

text \<open>A node returns a command, an error, or panics with a value.\<close>

datatype 'x outcome = Returns "'x command" | Fails gerr | Panics nat

type_synonym 'x node = "'x vals \<Rightarrow> 'x runtime \<Rightarrow> nat \<Rightarrow> 'x outcome"
type_synonym 'x router = "'x vals \<Rightarrow> nat \<Rightarrow> string list res"

record retryPolicy =
  rp_attempts :: int
  rp_backoff :: int
  rp_retryable :: "(gerr \<Rightarrow> bool) option"

datatype 'x event =
    EventTask int string string
  | EventUpdate int string string "'x vals"
  | EventValues int "'x vals"
  | EventInterrupt int "'x interrupt"

record 'x invocation =
  iv_config :: config
  iv_state :: "'x vals"
  iv_resume :: "'x gval"
  iv_deps :: "'x gval"
  iv_configurable :: "'x vals"
  iv_skipValueEvents :: bool

record 'x execution =
  ex_config :: config
  ex_state :: "'x vals"
  ex_interrupts :: "'x interrupt list"
  ex_steps :: int

record 'x snapshot =
  sp_config :: config
  sp_state :: "'x vals"
  sp_metadata :: "'x metadata"
  sp_next :: "string list"

section \<open>The saver interface\<close>

text \<open>
  \<^verbatim>\<open>dacheckpoint.Saver\<close> as far as the graph calls it: functions on the state \<open>'s\<close> of the
  implementation. \<open>memory_saver\<close> is the in-memory implementation; \<open>fractions\<close> are the random
  fractions of \<^verbatim>\<open>NextVersion\<close> by tick.
\<close>

record ('x, 's) saver =
  sv_Put :: "goctx \<Rightarrow> config \<Rightarrow> 'x checkpoint \<Rightarrow> 'x metadata \<Rightarrow> (string, string) dict \<Rightarrow> 's \<Rightarrow> 's \<times> config res"
  sv_PutWrites :: "goctx \<Rightarrow> config \<Rightarrow> string \<Rightarrow> string \<Rightarrow> 'x channelWrite list \<Rightarrow> 's \<Rightarrow> 's \<times> unit res"
  sv_GetTuple :: "goctx \<Rightarrow> config \<Rightarrow> 's \<Rightarrow> 'x tuple option res"
  sv_GetDeltaChannelHistory :: "goctx \<Rightarrow> config \<Rightarrow> string list \<Rightarrow> 's \<Rightarrow> 'x histories res"
  sv_NextVersion :: "nat \<Rightarrow> string \<Rightarrow> string res"

definition memory_saver :: "(nat \<Rightarrow> string res) \<Rightarrow> ('x, 'x memorySaver) saver" where
  "memory_saver fractions = \<lparr>sv_Put = memory_Put, sv_PutWrites = memory_PutWrites,
     sv_GetTuple = memory_GetTuple, sv_GetDeltaChannelHistory = memory_GetDeltaChannelHistory,
     sv_NextVersion = (\<lambda>tick current. NextVersion (fractions tick) current)\<rparr>"

record ('x, 's) compileOptions =
  co_saver :: "('x, 's) saver option"
  co_retainThreadState :: bool
  co_recursionLimit :: int
  co_maxConcurrency :: int
  co_deps :: "'x gval"
  co_writer :: "(nat \<Rightarrow> 'x event \<Rightarrow> gerr option) option"
  co_retry :: retryPolicy

section \<open>The builder\<close>

record 'x builder =
  bd_schema :: "'x schema"
  bd_nodes :: "(string, 'x node) dict"
  bd_edges :: "(string, string list) dict"
  bd_conditional :: "(string, 'x router) dict"

definition NewBuilder :: "'x schema \<Rightarrow> 'x builder" where
  "NewBuilder schema = \<lparr>bd_schema = schema, bd_nodes = [], bd_edges = [], bd_conditional = []\<rparr>"

definition AddNode :: "string \<Rightarrow> 'x node option \<Rightarrow> 'x builder \<Rightarrow> 'x builder res" where
  "AddNode name node b =
     (if name = [] \<or> name = Start \<or> name = End then Inl (Errorf ''add graph node: invalid name %q'')
      else case node of
        None \<Rightarrow> Inl (Errorf ''add graph node %q: implementation is nil'')
      | Some n \<Rightarrow>
          if map_of (bd_nodes b) name \<noteq> None then Inl (Errorf ''add graph node %q: duplicate'')
          else Inr (b\<lparr>bd_nodes := dput name n (bd_nodes b)\<rparr>))"

definition AddEdge :: "string \<Rightarrow> string \<Rightarrow> 'x builder \<Rightarrow> 'x builder res" where
  "AddEdge from to b =
     (if from = End \<or> to = Start \<or> from = [] \<or> to = [] then Inl (Errorf ''add graph edge: invalid endpoint'')
      else Inr (b\<lparr>bd_edges := dput from (dget [] (bd_edges b) from @ [to]) (bd_edges b)\<rparr>))"

definition AddConditional :: "string \<Rightarrow> 'x router option \<Rightarrow> 'x builder \<Rightarrow> 'x builder res" where
  "AddConditional name router b =
     (if name = [] \<or> name = Start \<or> name = End then Inl (Errorf ''add conditional route: invalid route'')
      else case router of
        None \<Rightarrow> Inl (Errorf ''add conditional route: invalid route'')
      | Some r \<Rightarrow>
          if map_of (bd_conditional b) name \<noteq> None then Inl (Errorf ''add conditional route: duplicate'')
          else Inr (b\<lparr>bd_conditional := dput name r (bd_conditional b)\<rparr>))"

fun check_destinations :: "'x builder \<Rightarrow> string list \<Rightarrow> unit res" where
  "check_destinations b [] = Inr ()"
| "check_destinations b (d # ds) =
     (if d = End then check_destinations b ds
      else if map_of (bd_nodes b) d = None
      then Inl (Wrapf ''compile graph: edge destination %q: %w'' ErrUnknownNode)
      else check_destinations b ds)"

fun check_edges :: "'x builder \<Rightarrow> (string \<times> string list) list \<Rightarrow> unit res" where
  "check_edges b [] = Inr ()"
| "check_edges b ((from, destinations) # rest) =
     (if from \<noteq> Start \<and> map_of (bd_nodes b) from = None
      then Inl (Wrapf ''compile graph: edge source %q: %w'' ErrUnknownNode)
      else res_bind (check_destinations b destinations) (\<lambda>_. check_edges b rest))"

fun check_conditionals :: "'x builder \<Rightarrow> string list \<Rightarrow> unit res" where
  "check_conditionals b [] = Inr ()"
| "check_conditionals b (name # rest) =
     (if map_of (bd_nodes b) name = None
      then Inl (Wrapf ''compile graph: conditional source %q: %w'' ErrUnknownNode)
      else check_conditionals b rest)"

record ('x, 's) compiled =
  cg_schema :: "'x schema"
  cg_nodes :: "(string, 'x node) dict"
  cg_edges :: "(string, string list) dict"
  cg_conditional :: "(string, 'x router) dict"
  cg_options :: "('x, 's) compileOptions"

definition default_options :: "('x, 's) compileOptions \<Rightarrow> ('x, 's) compileOptions" where
  "default_options opts =
     (let o1 = (if co_recursionLimit opts \<le> 0 then opts\<lparr>co_recursionLimit := 100\<rparr> else opts);
          o2 = (if co_maxConcurrency o1 \<le> 0 then o1\<lparr>co_maxConcurrency := 16\<rparr> else o1)
      in if rp_attempts (co_retry o2) \<le> 0 then o2\<lparr>co_retry := (co_retry o2)\<lparr>rp_attempts := 1\<rparr>\<rparr> else o2)"

definition cloneEdges :: "(string, string list) dict \<Rightarrow> (string, string list) dict" where
  "cloneEdges d = map (\<lambda>(k, v). (k, [] @ v)) d"

definition cloneNodes :: "(string, 'x node) dict \<Rightarrow> (string, 'x node) dict" where
  "cloneNodes d = map (\<lambda>(k, v). (k, v)) d"

definition cloneRouters :: "(string, 'x router) dict \<Rightarrow> (string, 'x router) dict" where
  "cloneRouters d = map (\<lambda>(k, v). (k, v)) d"

definition Compile :: "('x, 's) compileOptions \<Rightarrow> 'x builder \<Rightarrow> ('x, 's) compiled res" where
  "Compile options b =
     res_bind (schema_Validate (bd_schema b)) (\<lambda>_.
       if dget [] (bd_edges b) Start = [] then Inl (Errorf ''compile graph: start has no outgoing edge'')
       else
         res_bind (check_edges b (bd_edges b)) (\<lambda>_.
         res_bind (check_conditionals b (dkeys (bd_conditional b))) (\<lambda>_.
           Inr \<lparr>cg_schema = bd_schema b, cg_nodes = cloneNodes (bd_nodes b), cg_edges = cloneEdges (bd_edges b),
             cg_conditional = cloneRouters (bd_conditional b), cg_options = default_options options\<rparr>)))"

section \<open>Tasks\<close>

record 'x task =
  tk_node :: string
  tk_input :: "'x vals"
  tk_id :: string
  tk_path :: string

record 'x taskResult =
  tr_task :: "'x task"
  tr_command :: "'x command"
  tr_err :: "gerr option"

definition task_order :: "'x task \<Rightarrow> string \<times> string" where
  "task_order t = (tk_path t, tk_node t)"

fun number_tasks :: "nat \<Rightarrow> 'x task list \<Rightarrow> 'x task list" where
  "number_tasks index [] = []"
| "number_tasks index (t # ts) =
     t\<lparr>tk_id := fmt_08d index @ '':'' @ tk_node t,
       tk_path := (if tk_path t = [] then fmt_08d index else tk_path t)\<rparr> # number_tasks (Suc index) ts"

definition normalizeTasks :: "'x task list \<Rightarrow> 'x task list" where
  "normalizeTasks tasks = number_tasks 0 (sort_key task_order tasks)"

definition new_task :: "string \<Rightarrow> string \<Rightarrow> 'x task" where
  "new_task node path = \<lparr>tk_node = node, tk_input = [], tk_id = [], tk_path = path\<rparr>"

fun start_tasks :: "nat \<Rightarrow> string list \<Rightarrow> 'x task list" where
  "start_tasks index [] = []"
| "start_tasks index (node # nodes) =
     (if node \<noteq> End then [new_task node (''s/'' @ fmt_08d index)] else []) @ start_tasks (Suc index) nodes"

definition startTasks :: "('x, 's) compiled \<Rightarrow> 'x task list" where
  "startTasks g = normalizeTasks (start_tasks 0 (dget [] (cg_edges g) Start))"

section \<open>Durable encoding of tasks and interrupts\<close>

definition encodeTask :: "'x task \<Rightarrow> 'x gval" where
  "encodeTask t = VMap [(''node'', VStr (tk_node t)), (''input'', VMap (map (\<lambda>(k, v). (k, v)) (tk_input t))),
     (''id'', VStr (tk_id t)), (''path'', VStr (tk_path t))]"

definition encodeTasks :: "'x task list \<Rightarrow> 'x gval" where
  "encodeTasks tasks = VSlice (map encodeTask tasks)"

definition str_or_empty :: "'x gval option \<Rightarrow> string" where
  "str_or_empty v = (case v of Some (VStr s) \<Rightarrow> s | _ \<Rightarrow> [])"

definition decodeTask :: "'x gval \<Rightarrow> 'x task res" where
  "decodeTask item =
     (case item of
        VMap record \<Rightarrow>
          let node = str_or_empty (map_of record ''node'') in
          if node = [] then Inl (Errorf ''decode checkpoint task: node is required'')
          else
            let t = \<lparr>tk_node = node, tk_input = [], tk_id = str_or_empty (map_of record ''id''),
                  tk_path = str_or_empty (map_of record ''path'')\<rparr>
            in (case map_of record ''input'' of
                  None \<Rightarrow> Inr t
                | Some (VMap input) \<Rightarrow> Inr (t\<lparr>tk_input := input\<rparr>)
                | Some v \<Rightarrow> Inl (Errorf ''decode checkpoint task input: got %T''))
      | _ \<Rightarrow> Inl (Errorf ''decode checkpoint task: got %T''))"

definition decodeTasks :: "'x gval \<Rightarrow> 'x task list res" where
  "decodeTasks v =
     (case v of
        VNil \<Rightarrow> Inr []
      | VSlice items \<Rightarrow> map_res decodeTask items
      | _ \<Rightarrow> Inl (Errorf ''decode checkpoint tasks: got %T''))"

definition encodeInterrupts :: "'x interrupt list \<Rightarrow> 'x gval" where
  "encodeInterrupts is = VSlice (map (\<lambda>i. VMap [(''id'', VStr (it_ID i)), (''value'', it_value i)]) is)"

section \<open>Keys and writes\<close>

definition keysOf :: "'x vals \<Rightarrow> string list" where
  "keysOf vs = sorted_keys vs"

definition updatedKeys :: "'x vals list \<Rightarrow> string list" where
  "updatedKeys updates = unique_sorted (concat (map dkeys updates))"

definition uniqueSorted :: "string list \<Rightarrow> string list" where
  "uniqueSorted values = unique_sorted values"

definition stateWrites :: "'x vals \<Rightarrow> 'x channelWrite list" where
  "stateWrites values =
     concat (map (\<lambda>key. map (\<lambda>v. \<lparr>cw_channel = key, cw_value = v\<rparr>) (expand (dget VNil values key))) (keysOf values))"

definition collectInterrupts :: "'x taskResult list \<Rightarrow> 'x interrupt list" where
  "collectInterrupts results =
     concat (map (\<lambda>r. case cmd_interrupt (tr_command r) of
         None \<Rightarrow> []
       | Some i \<Rightarrow> [if it_ID i = [] then i\<lparr>it_ID := tk_id (tr_task r)\<rparr> else i]) results)"

section \<open>Properties of compilation\<close>

lemma clone_graph_id [simp]: "cloneNodes ns = ns" "cloneEdges es = es" "cloneRouters rs = rs"
  by (simp_all add: cloneNodes_def cloneEdges_def cloneRouters_def)

lemma check_destinations_iff:
  "check_destinations b ds = Inr () \<longleftrightarrow> (\<forall>d \<in> set ds. d = End \<or> map_of (bd_nodes b) d \<noteq> None)"
  by (induction ds) auto

lemma check_edges_iff:
  "check_edges b es = Inr () \<longleftrightarrow> (\<forall>(src, ds) \<in> set es.
     (src = Start \<or> map_of (bd_nodes b) src \<noteq> None) \<and> (\<forall>d \<in> set ds. d = End \<or> map_of (bd_nodes b) d \<noteq> None))"
proof (induction es)
  case (Cons e es)
  obtain src ds where "e = (src, ds)" by (cases e)
  moreover have "res_bind (check_destinations b ds) (\<lambda>_. check_edges b es) = Inr () \<longleftrightarrow>
      check_destinations b ds = Inr () \<and> check_edges b es = Inr ()"
    by (cases "check_destinations b ds") auto
  ultimately show ?case using Cons check_destinations_iff [of b ds] by auto
qed simp

lemma check_conditionals_iff:
  "check_conditionals b ns = Inr () \<longleftrightarrow> (\<forall>n \<in> set ns. map_of (bd_nodes b) n \<noteq> None)"
  by (induction ns) auto

lemma default_options_positive:
  "0 < co_recursionLimit (default_options opts)" "0 < co_maxConcurrency (default_options opts)"
  "0 < rp_attempts (co_retry (default_options opts))"
  by (auto simp: default_options_def Let_def)

lemma compiled_parts:
  assumes "Compile options b = Inr g"
  shows "cg_nodes g = bd_nodes b" "cg_edges g = bd_edges b" "cg_conditional g = bd_conditional b"
    "cg_options g = default_options options" "cg_schema g = bd_schema b"
    "schema_Validate (cg_schema g) = Inr ()" "dget [] (bd_edges b) Start \<noteq> []"
    "check_edges b (bd_edges b) = Inr ()" "check_conditionals b (dkeys (bd_conditional b)) = Inr ()"
  using assms by (auto simp: Compile_def res_simps split: if_splits)

lemma compiled_edges_closed:
  assumes "Compile options b = Inr g" and "map_of (cg_edges g) src = Some ds" and "d \<in> set ds"
  shows "d = End \<or> map_of (cg_nodes g) d \<noteq> None"
  using compiled_parts [OF assms(1)] assms(2,3) unfolding check_edges_iff by (auto dest!: map_of_SomeD)

text \<open>C33: a compiled graph is closed. Start has an edge, every static edge leads to the end or to a known
  node, every conditional source is a known node, and the limits the executor loops on are positive.\<close>

theorem Compile_closed:
  assumes "Compile options b = Inr g"
  shows "dget [] (cg_edges g) Start \<noteq> [] \<and>
    (\<forall>src ds d. map_of (cg_edges g) src = Some ds \<and> d \<in> set ds \<longrightarrow> d = End \<or> map_of (cg_nodes g) d \<noteq> None) \<and>
    (\<forall>name r. map_of (cg_conditional g) name = Some r \<longrightarrow> map_of (cg_nodes g) name \<noteq> None) \<and>
    0 < co_recursionLimit (cg_options g) \<and> 0 < co_maxConcurrency (cg_options g) \<and>
    0 < rp_attempts (co_retry (cg_options g))"
proof -
  note parts = compiled_parts [OF assms]
  have "map_of (bd_nodes b) name \<noteq> None" if "map_of (bd_conditional b) name = Some r" for name r
    using parts(9) that unfolding check_conditionals_iff
    by (metis fst_conv image_eqI list.set_map map_of_SomeD)
  moreover have "\<forall>src ds d. map_of (cg_edges g) src = Some ds \<and> d \<in> set ds \<longrightarrow> d = End \<or> map_of (cg_nodes g) d \<noteq> None"
    using compiled_edges_closed [OF assms] by blast
  ultimately show ?thesis
    using parts(1-4,7) default_options_positive [of options] by simp
qed

definition sample_options :: "(nat, nat memorySaver) compileOptions" where
  "sample_options = \<lparr>co_saver = None, co_retainThreadState = False, co_recursionLimit = 0, co_maxConcurrency = 0,
     co_deps = VNil, co_writer = None, co_retry = \<lparr>rp_attempts = 0, rp_backoff = 0, rp_retryable = None\<rparr>\<rparr>"

definition sample_node :: "nat node" where
  "sample_node vs rt n = Returns (empty_command\<lparr>cmd_update := [(''log'', VInt 1)]\<rparr>)"

definition sample_builder :: "nat builder" where
  "sample_builder = \<lparr>bd_schema = sample_schema, bd_nodes = [(''work'', sample_node)],
     bd_edges = [(Start, [''work'']), (''work'', [End])], bd_conditional = []\<rparr>"

theorem Compile_closed_witness:
  "0 < co_recursionLimit (cg_options (projr (Compile sample_options sample_builder)))"
proof -
  have "Compile sample_options sample_builder = Inr (projr (Compile sample_options sample_builder))"
    by (simp add: Compile_def sample_builder_def sample_schema_def schema_Validate_def field_validate_def
        Delta_def LastValue_def Ephemeral_def dget_def Start_def End_def)
  from Compile_closed [OF this] show ?thesis by blast
qed

section \<open>Properties of tasks\<close>

lemma number_tasks_nth:
  "i < length ts \<Longrightarrow> tk_id (number_tasks n ts ! i) = fmt_08d (n + i) @ '':'' @ tk_node (ts ! i) \<and>
   tk_node (number_tasks n ts ! i) = tk_node (ts ! i) \<and> tk_input (number_tasks n ts ! i) = tk_input (ts ! i)"
proof (induction ts arbitrary: n i)
  case (Cons t ts)
  then show ?case by (cases i) auto
qed simp

lemma length_number_tasks [simp]: "length (number_tasks n ts) = length ts"
  by (induction ts arbitrary: n) auto

lemma number_tasks_content:
  "map (\<lambda>t. (tk_node t, tk_input t)) (number_tasks n ts) = map (\<lambda>t. (tk_node t, tk_input t)) ts"
  by (induction ts arbitrary: n) auto

lemma number_tasks_nodes: "map tk_node (number_tasks n ts) = map tk_node ts"
  by (induction ts arbitrary: n) auto

lemma normalizeTasks_nodes: "mset (map tk_node (normalizeTasks ts)) = mset (map tk_node ts)"
  unfolding normalizeTasks_def number_tasks_nodes by simp

lemma digit_not_colon: "c \<in> set (fmt_08d n) \<Longrightarrow> c \<noteq> CHR '':'' \<and> c \<noteq> CHR ''/'' \<and> c \<noteq> CHR ''e'' \<and> c \<noteq> CHR ''_''"
proof -
  assume "c \<in> set (fmt_08d n)"
  then obtain d where d: "d < 10" "c = digit_char d" using set_fmt_08d by blast
  have "(of_char (CHR '':'') :: nat) = 58" "(of_char (CHR ''/'') :: nat) = 47" "(of_char (CHR ''e'') :: nat) = 101"
    "(of_char (CHR ''_'') :: nat) = 95" by code_simp+
  with d show ?thesis using of_char_digit [of d] by auto
qed

lemma fmt_colon_inject:
  assumes "fmt_08d a @ '':'' @ x = fmt_08d b @ '':'' @ y"
  shows "a = b"
proof -
  have "takeWhile (\<lambda>c. c \<noteq> CHR '':'') (fmt_08d n @ '':'' @ z) = fmt_08d n" for n z
    using digit_not_colon by (subst takeWhile_append2) auto
  with assms show ?thesis by (metis fmt_08d_inject)
qed

lemma distinct_number_tasks: "distinct (map tk_id (number_tasks n ts))"
proof (unfold distinct_conv_nth, intro allI impI)
  fix i j
  assume "i < length (map tk_id (number_tasks n ts))" "j < length (map tk_id (number_tasks n ts))" "i \<noteq> j"
  then have ij: "i < length ts" "j < length ts" "i \<noteq> j" by simp_all
  then have "tk_id (number_tasks n ts ! i) = fmt_08d (n + i) @ '':'' @ tk_node (ts ! i)"
    "tk_id (number_tasks n ts ! j) = fmt_08d (n + j) @ '':'' @ tk_node (ts ! j)"
    using number_tasks_nth by blast+
  moreover have "n + i \<noteq> n + j" using ij by simp
  ultimately have "tk_id (number_tasks n ts ! i) \<noteq> tk_id (number_tasks n ts ! j)"
    using fmt_colon_inject by metis
  then show "map tk_id (number_tasks n ts) ! i \<noteq> map tk_id (number_tasks n ts) ! j" using ij by simp
qed

text \<open>The tasks of a superstep are numbered without collisions. Normalizing keeps every node with its
  input, gives all tasks different identifiers, and does not depend on the order in which tasks with
  different paths were produced.\<close>

theorem normalizeTasks_deterministic:
  "distinct (map tk_id (normalizeTasks tasks)) \<and>
   mset (map (\<lambda>t. (tk_node t, tk_input t)) (normalizeTasks tasks)) = mset (map (\<lambda>t. (tk_node t, tk_input t)) tasks) \<and>
   (mset tasks = mset tasks' \<and> distinct (map task_order tasks) \<longrightarrow> normalizeTasks tasks = normalizeTasks tasks')"
proof (intro conjI impI)
  let ?s = "sort_key task_order tasks"
  show "distinct (map tk_id (normalizeTasks tasks))"
    unfolding normalizeTasks_def by (rule distinct_number_tasks)
  show "mset (map (\<lambda>t. (tk_node t, tk_input t)) (normalizeTasks tasks)) = mset (map (\<lambda>t. (tk_node t, tk_input t)) tasks)"
    by (simp add: normalizeTasks_def number_tasks_content)
  assume a: "mset tasks = mset tasks' \<and> distinct (map task_order tasks)"
  then have "set tasks = set tasks'" "distinct (map task_order tasks)" using mset_eq_setD by blast+
  then have inj: "inj_on task_order (set tasks')" by (simp add: distinct_map)
  have "sort_key task_order tasks' = ?s"
    by (rule sort_key_inj_key_eq [OF _ inj]) (use a in simp_all)
  then show "normalizeTasks tasks = normalizeTasks tasks'" by (simp add: normalizeTasks_def)
qed

theorem normalizeTasks_deterministic_witness:
  "normalizeTasks [new_task ''b'' ''2'', new_task ''a'' ''1'' :: nat task] =
   normalizeTasks [new_task ''a'' ''1'', new_task ''b'' ''2'']"
  using normalizeTasks_deterministic [of "[new_task ''b'' ''2'', new_task ''a'' ''1'' :: nat task]"
      "[new_task ''a'' ''1'', new_task ''b'' ''2'']"]
  by (simp add: task_order_def new_task_def add_mset_commute)

lemma decodeTasks_inverse:
  assumes "\<forall>t \<in> set tasks. tk_node t \<noteq> []"
  shows "decodeTasks (encodeTasks tasks) = Inr tasks"
proof -
  have "decodeTask (encodeTask t) = Inr t" if "tk_node t \<noteq> []" for t :: "'a task"
    using that by (cases t) (simp add: encodeTask_def decodeTask_def str_or_empty_def Let_def)
  with assms have "map_res decodeTask (map encodeTask tasks) = Inr (map id tasks)"
    unfolding map_res_map by (intro map_res_total) simp
  then show ?thesis by (simp add: decodeTasks_def encodeTasks_def)
qed

text \<open>C36: scheduled tasks survive a checkpoint: decoding the encoded tasks of a checkpoint gives back the same
  tasks, in order, for all tasks that name a node.\<close>

theorem decode_encodeTasks:
  assumes "\<forall>t \<in> set tasks. tk_node t \<noteq> []"
  shows "decodeTasks (encodeTasks tasks) = Inr tasks"
  using assms by (rule decodeTasks_inverse)

theorem decode_encodeTasks_witness:
  "decodeTasks (encodeTasks [new_task ''work'' ''p'' :: nat task]) = Inr [new_task ''work'' ''p'']"
  by (rule decode_encodeTasks) (simp add: new_task_def)

end
