(* ===== verification/Graph_Executor.thy ===== *)
theory Graph_Executor
  imports Graph_Builder
begin

text \<open>
  The executor of \<^verbatim>\<open>internal/graph\<close> (\<^verbatim>\<open>executor.go\<close>, \<^verbatim>\<open>snapshot.go\<close>, the execution half of \<^verbatim>\<open>graph.go\<close>):
  supersteps over the state machine with durable checkpoints, thread sessions, state edits and
  cancellation. Definitions only; \<^verbatim>\<open>Executor_Properties\<close> and \<^verbatim>\<open>Durability\<close> hold the theorems.

  An action threads the world: the saver, the clock of \<^verbatim>\<open>NewID\<close>, the retained sessions, the events
  written, and a tick that numbers the calls to code outside the model. What that code answers at a
  tick is a parameter (\<open>env\<close>, the nodes, the routers, the event writer), so a statement for every
  parameter covers every timing: the tasks of a superstep only read the machine, and all that their
  interleaving can change is what they answer.
\<close>

section \<open>Actions\<close>

record 'x threadSession =
  ts_valid :: bool
  ts_machine :: "'x stateMachine option"
  ts_config :: config
  ts_tasks :: "'x task list"
  ts_metadata :: "'x metadata"

type_synonym threadKey = "string \<times> string"

record ('x, 's) world =
  w_saver :: 's
  w_clock :: "64 word"
  w_tick :: nat
  w_events :: "'x event list"
  w_sessions :: "(threadKey, 'x threadSession) dict"

type_synonym ('x, 's, 'a) act = "('x, 's) world \<Rightarrow> ('x, 's) world \<times> 'a res"

text \<open>
  The outside: \<open>e_ctx\<close> is \<^verbatim>\<open>ctx.Err()\<close>, \<open>e_done\<close> the outcome of a \<^verbatim>\<open>select\<close> with \<^verbatim>\<open>ctx.Done()\<close> (the cause when
  that branch is taken), \<open>e_nano\<close> and \<open>e_random\<close> feed \<^verbatim>\<open>NewID\<close>, \<open>e_stamp\<close> is \<^verbatim>\<open>checkpointTimestamp\<close>.
\<close>

record env =
  e_ctx :: "nat \<Rightarrow> goctx"
  e_done :: "nat \<Rightarrow> gerr option"
  e_nano :: "nat \<Rightarrow> int"
  e_random :: "nat \<Rightarrow> nat list res"
  e_stamp :: "nat \<Rightarrow> string"

definition act_ret :: "'a \<Rightarrow> ('x, 's, 'a) act" where
  "act_ret x w = (w, Inr x)"

definition act_fail :: "gerr \<Rightarrow> ('x, 's, 'a) act" where
  "act_fail e w = (w, Inl e)"

definition act_of :: "'a res \<Rightarrow> ('x, 's, 'a) act" where
  "act_of r w = (w, r)"

definition act_bind :: "('x, 's, 'a) act \<Rightarrow> ('a \<Rightarrow> ('x, 's, 'b) act) \<Rightarrow> ('x, 's, 'b) act" where
  "act_bind a f w = (case a w of (w', Inl e) \<Rightarrow> (w', Inl e) | (w', Inr x) \<Rightarrow> f x w')"

definition act_try :: "('x, 's, 'a) act \<Rightarrow> ('x, 's, 'a res) act" where
  "act_try a w = (case a w of (w', r) \<Rightarrow> (w', Inr r))"

definition act_tick :: "('x, 's, nat) act" where
  "act_tick w = (w\<lparr>w_tick := Suc (w_tick w)\<rparr>, Inr (w_tick w))"

text \<open>A call that updates the saver, and one that reads it.\<close>

definition act_saver :: "env \<Rightarrow> (goctx \<Rightarrow> 's \<Rightarrow> 's \<times> 'a res) \<Rightarrow> ('x, 's, 'a) act" where
  "act_saver env f w =
     (case f (e_ctx env (w_tick w)) (w_saver w) of
        (s, r) \<Rightarrow> (w\<lparr>w_saver := s, w_tick := Suc (w_tick w)\<rparr>, r))"

definition act_read :: "env \<Rightarrow> (goctx \<Rightarrow> 's \<Rightarrow> 'a res) \<Rightarrow> ('x, 's, 'a) act" where
  "act_read env f w = (w\<lparr>w_tick := Suc (w_tick w)\<rparr>, f (e_ctx env (w_tick w)) (w_saver w))"

fun act_map :: "('a \<Rightarrow> ('x, 's, 'b) act) \<Rightarrow> 'a list \<Rightarrow> ('x, 's, 'b list) act" where
  "act_map f [] = act_ret []"
| "act_map f (x # xs) = act_bind (f x) (\<lambda>y. act_bind (act_map f xs) (\<lambda>ys. act_ret (y # ys)))"

fun act_each :: "('a \<Rightarrow> ('x, 's, unit) act) \<Rightarrow> 'a list \<Rightarrow> ('x, 's, unit) act" where
  "act_each f [] = act_ret ()"
| "act_each f (x # xs) = act_bind (f x) (\<lambda>_. act_each f xs)"

definition emit :: "('x, 's) compiled \<Rightarrow> 'x event \<Rightarrow> ('x, 's, unit) act" where
  "emit g event =
     (case co_writer (cg_options g) of
        None \<Rightarrow> act_ret ()
      | Some writer \<Rightarrow> act_bind act_tick (\<lambda>t. case writer t event of
          Some e \<Rightarrow> act_fail e
        | None \<Rightarrow> (\<lambda>w. (w\<lparr>w_events := w_events w @ [event]\<rparr>, Inr ()))))"

section \<open>Running tasks\<close>

definition callNode :: "'x node option \<Rightarrow> 'x vals \<Rightarrow> 'x runtime \<Rightarrow> nat \<Rightarrow> 'x command res" where
  "callNode node values runtime t =
     (case node of
        None \<Rightarrow> Inl (Errorf ''graph node panic: %v'')
      | Some n \<Rightarrow> (case n values runtime t of
            Returns command \<Rightarrow> Inr command
          | Fails e \<Rightarrow> Inl e
          | Panics p \<Rightarrow> Inl (Errorf ''graph node panic: %v'')))"

text \<open>
  The retry loop, by the attempts that remain. With none at all the loop body never runs and the
  result is the zero command.
\<close>

definition gives_up :: "retryPolicy \<Rightarrow> gerr \<Rightarrow> bool" where
  "gives_up policy err \<longleftrightarrow> errors_is err Canceled \<or> errors_is err DeadlineExceeded \<or>
     (case rp_retryable policy of None \<Rightarrow> False | Some retryable \<Rightarrow> \<not> retryable err)"

fun call_attempts ::
  "env \<Rightarrow> retryPolicy \<Rightarrow> 'x node option \<Rightarrow> 'x vals \<Rightarrow> 'x runtime \<Rightarrow> nat \<Rightarrow> ('x, 's, 'x command) act" where
  "call_attempts env policy node values runtime 0 = act_ret empty_command"
| "call_attempts env policy node values runtime (Suc remaining) =
     act_bind act_tick (\<lambda>t.
       case e_ctx env t of
         Some e \<Rightarrow> act_fail e
       | None \<Rightarrow>
          (case callNode node (values_Clone values) runtime t of
             Inr command \<Rightarrow> act_ret command
           | Inl err \<Rightarrow>
               if gives_up policy err \<or> remaining = 0 then act_fail err
               else if rp_backoff policy > 0 then
                 act_bind act_tick (\<lambda>t'. case e_done env t' of
                     Some cause \<Rightarrow> act_fail cause
                   | None \<Rightarrow> call_attempts env policy node values runtime remaining)
               else call_attempts env policy node values runtime remaining))"

definition callNodeWithRetry ::
  "env \<Rightarrow> ('x, 's) compiled \<Rightarrow> 'x node option \<Rightarrow> 'x vals \<Rightarrow> 'x runtime \<Rightarrow> ('x, 's, 'x command) act" where
  "callNodeWithRetry env g node values runtime =
     call_attempts env (co_retry (cg_options g)) node values runtime (nat (rp_attempts (co_retry (cg_options g))))"

definition run_task ::
  "env \<Rightarrow> ('x, 's) compiled \<Rightarrow> 'x stateMachine \<Rightarrow> config \<Rightarrow> 'x gval \<Rightarrow> 'x gval \<Rightarrow> 'x vals \<Rightarrow> nat \<Rightarrow>
   'x task \<Rightarrow> ('x, 's, 'x taskResult) act" where
  "run_task env g machine cfg resume runtimeDeps configurable step task =
     act_bind (act_try (
       act_bind (emit g (EventTask (int step) (tk_node task) (tk_id task))) (\<lambda>_.
       act_bind act_tick (\<lambda>t.
         case e_done env t of
           Some cause \<Rightarrow> act_fail cause
         | None \<Rightarrow>
             act_bind (act_of (sm_values machine)) (\<lambda>values.
               let previous = values_Clone values;
                   seen = fold (\<lambda>(key, value). dput key value) (tk_input task) values;
                   runtime = \<lparr>rt_deps = runtimeDeps, rt_config = cfg, rt_configurable = configurable,
                     rt_previous = previous, rt_taskID = tk_id task, rt_resume = resume\<rparr>
               in callNodeWithRetry env g (map_of (cg_nodes g) (tk_node task)) seen runtime))))) (\<lambda>r.
     act_ret (case r of
         Inl e \<Rightarrow> \<lparr>tr_task = task, tr_command = empty_command, tr_err = Some e\<rparr>
       | Inr command \<Rightarrow> \<lparr>tr_task = task, tr_command = command, tr_err = None\<rparr>))"

definition executeTasks ::
  "env \<Rightarrow> ('x, 's) compiled \<Rightarrow> 'x stateMachine \<Rightarrow> 'x task list \<Rightarrow> config \<Rightarrow> 'x gval \<Rightarrow> 'x gval \<Rightarrow> 'x vals \<Rightarrow> nat \<Rightarrow>
   ('x, 's, 'x taskResult list) act" where
  "executeTasks env g machine tasks cfg resume runtimeDeps configurable step =
     act_map (run_task env g machine cfg resume runtimeDeps configurable step) tasks"

section \<open>Routing\<close>

fun route_sends :: "('x, 's) compiled \<Rightarrow> string \<Rightarrow> nat \<Rightarrow> 'x send list \<Rightarrow> 'x task list res" where
  "route_sends g prefix index [] = Inr []"
| "route_sends g prefix index (send # rest) =
     (if sn_node send = End then route_sends g prefix (Suc index) rest
      else if map_of (cg_nodes g) (sn_node send) = None
      then Inl (Wrapf ''route send to %q: %w'' ErrUnknownNode)
      else res_bind (route_sends g prefix (Suc index) rest) (\<lambda>ts.
        Inr ((new_task (sn_node send) (prefix @ ''/'' @ fmt_08d index))\<lparr>tk_input := values_Clone (sn_input send)\<rparr> # ts)))"

fun route_destinations :: "('x, 's) compiled \<Rightarrow> string \<Rightarrow> nat \<Rightarrow> string list \<Rightarrow> 'x task list res" where
  "route_destinations g prefix index [] = Inr []"
| "route_destinations g prefix index (d # rest) =
     (if d = End then route_destinations g prefix (Suc index) rest
      else if map_of (cg_nodes g) d = None then Inl (Wrapf ''route to %q: %w'' ErrUnknownNode)
      else res_bind (route_destinations g prefix (Suc index) rest) (\<lambda>ts.
        Inr (new_task d (prefix @ ''/e'' @ fmt_08d index) # ts)))"

definition destinations_of :: "('x, 's) compiled \<Rightarrow> 'x vals \<Rightarrow> 'x taskResult \<Rightarrow> ('x, 's, string list) act" where
  "destinations_of g values result =
     (if cmd_goto (tr_command result) = [] then
        (case map_of (cg_conditional g) (tk_node (tr_task result)) of
           Some router \<Rightarrow> act_bind act_tick (\<lambda>t.
             act_of (res_wrap ''route from %q: %w'' (router (values_Clone values) t)))
         | None \<Rightarrow> act_ret (dget [] (cg_edges g) (tk_node (tr_task result))))
      else act_ret (cmd_goto (tr_command result)))"

fun route_results :: "('x, 's) compiled \<Rightarrow> 'x vals \<Rightarrow> nat \<Rightarrow> nat \<Rightarrow> 'x taskResult list \<Rightarrow> ('x, 's, 'x task list) act" where
  "route_results g values step index [] = act_ret []"
| "route_results g values step index (result # rest) =
     (let prefix = fmt_08d step @ ''/'' @ fmt_08d index
      in act_bind (act_of (route_sends g prefix 0 (cmd_sends (tr_command result)))) (\<lambda>sends.
         act_bind (destinations_of g values result) (\<lambda>destinations.
         act_bind (act_of (route_destinations g prefix 0 destinations)) (\<lambda>edges.
         act_bind (route_results g values step (Suc index) rest) (\<lambda>others.
           act_ret (sends @ edges @ others))))))"

definition route ::
  "('x, 's) compiled \<Rightarrow> 'x stateMachine \<Rightarrow> 'x taskResult list \<Rightarrow> nat \<Rightarrow> ('x, 's, 'x task list) act" where
  "route g machine results step =
     act_bind (act_of (sm_values machine)) (\<lambda>values.
     act_bind (route_results g values step 0 results) (\<lambda>next_tasks. act_ret (normalizeTasks next_tasks)))"

section \<open>Persisting\<close>

record 'x metadataInput =
  mi_source :: string
  mi_step :: int
  mi_updated :: "string list"
  mi_overwrites :: "(string, bool) dict"
  mi_interrupts :: "'x interrupt list"
  mi_forceDeltaSnapshots :: bool
  mi_previousMetadata :: "'x metadata"

definition zero_counter :: deltaSnapshotCounter where
  "zero_counter = \<lparr>Updates = 0, Supersteps = 0\<rparr>"

definition bump_counter :: "bool \<Rightarrow> deltaSnapshotCounter \<Rightarrow> deltaSnapshotCounter" where
  "bump_counter updated c =
     (let c1 = c\<lparr>Supersteps := Supersteps c + 1\<rparr> in if updated then c1\<lparr>Updates := Updates c1 + 1\<rparr> else c1)"

definition takes_snapshot :: "'x metadataInput \<Rightarrow> string \<Rightarrow> 64 word \<Rightarrow> deltaSnapshotCounter \<Rightarrow> bool" where
  "takes_snapshot input key frequency counter \<longleftrightarrow>
     mi_forceDeltaSnapshots input \<or> dget False (mi_overwrites input) key \<or> ShouldSnapshot counter frequency"

text \<open>The loop over the delta fields: the counters left in the metadata, and the fields to snapshot.\<close>

definition count_field ::
  "'x metadataInput \<Rightarrow> string \<times> 64 word \<Rightarrow> counters \<times> (string, bool) dict \<Rightarrow> counters \<times> (string, bool) dict" where
  "count_field input kf cs =
     (let key = fst kf;
          bumped = bump_counter (key \<in> set (mi_updated input)) (dget zero_counter (fst cs) key);
          snapshot = takes_snapshot input key (snd kf) bumped;
          counter = (if snapshot then zero_counter else bumped)
      in (if counter \<noteq> zero_counter then dput key counter (fst cs) else ddel key (fst cs),
          if snapshot then dput key True (snd cs) else snd cs))"

definition count_fields :: "'x metadataInput \<Rightarrow> 'x stateMachine \<Rightarrow> counters \<times> (string, bool) dict" where
  "count_fields input machine =
     fold (count_field input) (deltaFields machine)
       (map (\<lambda>(k, c). (k, c)) (md_counters (mi_previousMetadata input)), [])"

definition new_metadata :: "'x metadataInput \<Rightarrow> counters \<Rightarrow> 'x metadata" where
  "new_metadata input cs = empty_metadata\<lparr>md_source := mi_source input, md_step := mi_step input, md_counters := cs\<rparr>"

fun next_versions ::
  "('x, 's) saver \<Rightarrow> string list \<Rightarrow> (string, string) dict \<Rightarrow> (string, string) dict \<Rightarrow>
   ('x, 's, (string, string) dict \<times> (string, string) dict) act" where
  "next_versions sv [] versions newVersions = act_ret (versions, newVersions)"
| "next_versions sv (key # keys) versions newVersions =
     act_bind act_tick (\<lambda>t.
     act_bind (act_of (sv_NextVersion sv t (dget [] versions key))) (\<lambda>version.
       next_versions sv keys (dput key version versions) (dput key version newVersions)))"

definition new_id :: "env \<Rightarrow> int \<Rightarrow> ('x, 's, string) act" where
  "new_id env step w =
     (case NewID (e_nano env (w_tick w)) (e_random env (w_tick w)) step (w_clock w) of
        (clock, r) \<Rightarrow> (w\<lparr>w_clock := clock, w_tick := Suc (w_tick w)\<rparr>, r))"

definition version_keys :: "'x metadataInput \<Rightarrow> (string, bool) dict \<Rightarrow> string list" where
  "version_keys input snapshots =
     uniqueSorted (mi_updated input @ filter (\<lambda>key. key \<notin> set (mi_updated input)) (dkeys snapshots) @
       [ChannelTasks, ChannelInterrupt])"

definition persisted_values :: "'x vals \<Rightarrow> 'x task list \<Rightarrow> 'x interrupt list \<Rightarrow> 'x vals" where
  "persisted_values values tasks interrupts =
     (let vs = dput ChannelTasks (encodeTasks tasks) values
      in if interrupts \<noteq> [] then dput ChannelInterrupt (encodeInterrupts interrupts) vs else vs)"

definition base_versions ::
  "env \<Rightarrow> ('x, 's) saver \<Rightarrow> config \<Rightarrow> 'x checkpoint \<Rightarrow> ('x, 's, (string, string) dict) act" where
  "base_versions env sv parent_config previous =
     (if cp_channelVersions previous = [] \<and> cf_checkpointID parent_config \<noteq> [] then
        act_bind (act_read env (\<lambda>ctx. sv_GetTuple sv ctx parent_config)) (\<lambda>tuple.
          act_ret (case tuple of
              None \<Rightarrow> cp_channelVersions previous
            | Some t \<Rightarrow> cp_channelVersions (tp_checkpoint t)))
      else act_ret (cp_channelVersions previous))"

definition persist ::
  "env \<Rightarrow> ('x, 's) compiled \<Rightarrow> config \<Rightarrow> 'x checkpoint \<Rightarrow> 'x stateMachine \<Rightarrow> 'x task list \<Rightarrow> 'x metadataInput \<Rightarrow>
   ('x, 's, config \<times> 'x metadata) act" where
  "persist env g parent_config previous machine tasks input =
     (let (cs, snapshots) = count_fields input machine; metadata = new_metadata input cs
      in act_bind (act_of (checkpointValues machine snapshots)) (\<lambda>values0.
         let values = persisted_values values0 tasks (mi_interrupts input)
         in case co_saver (cg_options g) of
              None \<Rightarrow> act_ret (parent_config, metadata)
            | Some sv \<Rightarrow>
                act_bind (base_versions env sv parent_config previous) (\<lambda>base.
                act_bind (next_versions sv (version_keys input snapshots) base []) (\<lambda>(versions, newVersions).
                act_bind (new_id env (mi_step input)) (\<lambda>i.
                act_bind act_tick (\<lambda>t.
                act_bind (act_saver env (\<lambda>ctx. sv_Put sv ctx parent_config
                    \<lparr>cp_version = LatestVersion, cp_id = i, cp_timestamp = e_stamp env t,
                     cp_channelValues = values, cp_channelVersions = versions, cp_versionsSeen = [],
                     cp_updatedChannels = uniqueSorted (mi_updated input)\<rparr>
                    metadata newVersions)) (\<lambda>cfg. act_ret (cfg, metadata))))))))"

section \<open>Restoring\<close>

record 'x locals =
  lc_machine :: "'x stateMachine"
  lc_current :: config
  lc_tasks :: "'x task list"
  lc_metadata :: "'x metadata"

definition fresh_locals :: "('x, 's) compiled \<Rightarrow> 'x locals res" where
  "fresh_locals g =
     res_bind (newStateMachine (cg_schema g) [] []) (\<lambda>machine.
       Inr \<lparr>lc_machine = machine, lc_current = empty_config, lc_tasks = [],
         lc_metadata = empty_metadata\<lparr>md_step := -1\<rparr>\<rparr>)"

definition deltaNames :: "('x, 's) compiled \<Rightarrow> string list" where
  "deltaNames g = sort (map fst (filter (\<lambda>(key, f). f_kind f = FieldDelta) (sc_fields (cg_schema g))))"

definition reserved_channel :: "string \<Rightarrow> bool" where
  "reserved_channel key \<longleftrightarrow>
     key \<in> {ChannelTasks, ChannelInterrupt, ChannelResume, ChannelError, ChannelScheduled}"

definition restore :: "env \<Rightarrow> ('x, 's) compiled \<Rightarrow> 'x invocation \<Rightarrow> ('x, 's, 'x locals) act" where
  "restore env g invocation =
     (case co_saver (cg_options g) of
        None \<Rightarrow> act_of (fresh_locals g)
      | Some sv \<Rightarrow>
          act_bind (act_read env (\<lambda>ctx. sv_GetTuple sv ctx (iv_config invocation))) (\<lambda>tuple.
            case tuple of
              None \<Rightarrow> act_of (fresh_locals g)
            | Some t \<Rightarrow>
                act_bind (act_read env (\<lambda>ctx. sv_GetDeltaChannelHistory sv ctx (tp_config t) (deltaNames g))) (\<lambda>histories.
                let channelValues = cp_channelValues (tp_checkpoint t);
                    storedState = filter (\<lambda>(key, value). \<not> reserved_channel key) channelValues
                in act_of (
                     res_bind (newStateMachine (cg_schema g) storedState histories) (\<lambda>machine.
                     res_bind (decodeTasks (dget VNil channelValues ChannelTasks)) (\<lambda>tasks.
                       Inr \<lparr>lc_machine = machine, lc_current = tp_config t, lc_tasks = tasks,
                         lc_metadata = tp_metadata t\<rparr>))))))"

section \<open>Sessions\<close>

definition thread_key :: "config \<Rightarrow> threadKey" where
  "thread_key cfg = (cf_threadID cfg, cf_namespace cfg)"

definition empty_session :: "'x threadSession" where
  "empty_session = \<lparr>ts_valid = False, ts_machine = None, ts_config = empty_config, ts_tasks = [],
     ts_metadata = empty_metadata\<rparr>"

text \<open>\<^verbatim>\<open>threadSession\<close>: the session of a thread, created on first use; \<open>None\<close> when state is not retained.\<close>

definition get_threadSession :: "('x, 's) compiled \<Rightarrow> config \<Rightarrow> ('x, 's, 'x threadSession option) act" where
  "get_threadSession g cfg w =
     (if \<not> co_retainThreadState (cg_options g) then (w, Inr None)
      else case map_of (w_sessions w) (thread_key cfg) of
        Some session \<Rightarrow> (w, Inr (Some session))
      | None \<Rightarrow> (w\<lparr>w_sessions := dput (thread_key cfg) empty_session (w_sessions w)\<rparr>, Inr (Some empty_session)))"

definition set_session :: "config \<Rightarrow> 'x threadSession \<Rightarrow> ('x, 's) world \<Rightarrow> ('x, 's) world" where
  "set_session cfg session w = w\<lparr>w_sessions := dput (thread_key cfg) session (w_sessions w)\<rparr>"

text \<open>Mark the session of a thread as stale, where there is one.\<close>

definition invalidate :: "config \<Rightarrow> 'x threadSession option \<Rightarrow> ('x, 's, unit) act" where
  "invalidate cfg session w =
     (case session of
        None \<Rightarrow> (w, Inr ())
      | Some s \<Rightarrow> (set_session cfg (s\<lparr>ts_valid := False\<rparr>) w, Inr ()))"

definition restoreRetained ::
  "env \<Rightarrow> ('x, 's) compiled \<Rightarrow> 'x invocation \<Rightarrow> 'x threadSession option \<Rightarrow> ('x, 's, 'x locals) act" where
  "restoreRetained env g invocation session =
     (case session of
        Some s \<Rightarrow>
          if ts_valid s then
            (case ts_machine s of
               None \<Rightarrow> act_fail NilCall
             | Some machine \<Rightarrow> act_ret \<lparr>lc_machine = machine, lc_current = ts_config s,
                 lc_tasks = ts_tasks s, lc_metadata = ts_metadata s\<rparr>)
          else restore env g invocation
      | None \<Rightarrow> restore env g invocation)"

section \<open>Supersteps\<close>

datatype 'x progress = Returned "'x execution" "'x locals" | Continues "'x locals"

definition apply_updates :: "'x stateMachine \<Rightarrow> 'x vals list \<Rightarrow> ('x stateMachine \<times> (string, bool) dict) res" where
  "apply_updates machine updates =
     (case sm_apply machine updates of (m, Inl e) \<Rightarrow> Inl e | (m, Inr overwrites) \<Rightarrow> Inr (m, overwrites))"

text \<open>The pending writes of one task, when it has any.\<close>

definition put_update :: "env \<Rightarrow> ('x, 's) compiled \<Rightarrow> config \<Rightarrow> 'x task \<Rightarrow> 'x vals \<Rightarrow> ('x, 's, unit) act" where
  "put_update env g cfg task update =
     (case co_saver (cg_options g) of
        None \<Rightarrow> act_ret ()
      | Some sv \<Rightarrow>
          if update = [] then act_ret ()
          else act_saver env (\<lambda>ctx. sv_PutWrites sv ctx cfg (tk_id task) (tk_path task) (stateWrites update)))"

definition put_updates ::
  "env \<Rightarrow> ('x, 's) compiled \<Rightarrow> config \<Rightarrow> ('x task \<times> 'x vals) list \<Rightarrow> ('x, 's, unit) act" where
  "put_updates env g cfg tus = act_each (\<lambda>tu. put_update env g cfg (fst tu) (snd tu)) tus"

definition first_error :: "'x taskResult list \<Rightarrow> gerr option" where
  "first_error results =
     (case filter (\<lambda>r. tr_err r \<noteq> None) results of
        [] \<Rightarrow> None | r # rs \<Rightarrow> map_option (Wrapf ''execute node %q: %w'') (tr_err r))"

definition interrupt_updates :: "'x taskResult list \<Rightarrow> 'x vals list" where
  "interrupt_updates results =
     map (\<lambda>r. if cmd_interrupt (tr_command r) = None then [] else cmd_update (tr_command r)) results"

definition task_updates :: "'x taskResult list \<Rightarrow> 'x vals list" where
  "task_updates results = map (\<lambda>r. cmd_update (tr_command r)) results"

definition loop_input :: "'x locals \<Rightarrow> 'x vals list \<Rightarrow> (string, bool) dict \<Rightarrow> 'x interrupt list \<Rightarrow> 'x metadataInput" where
  "loop_input lc updates overwrites interrupts =
     \<lparr>mi_source = ''loop'', mi_step = md_step (lc_metadata lc) + 1, mi_updated = updatedKeys updates,
      mi_overwrites = overwrites, mi_interrupts = interrupts, mi_forceDeltaSnapshots = False,
      mi_previousMetadata = lc_metadata lc\<rparr>"

definition interrupt_step ::
  "env \<Rightarrow> ('x, 's) compiled \<Rightarrow> nat \<Rightarrow> 'x locals \<Rightarrow> 'x taskResult list \<Rightarrow> 'x interrupt list \<Rightarrow> ('x, 's, 'x progress) act" where
  "interrupt_step env g step lc results interrupts =
     (let updates = interrupt_updates results
      in act_bind (put_updates env g (lc_current lc) (zip (map tr_task results) updates)) (\<lambda>_.
         act_bind (act_of (apply_updates (lc_machine lc) updates)) (\<lambda>(machine, overwrites).
         act_bind (persist env g (lc_current lc) empty_checkpoint machine (lc_tasks lc)
             (loop_input lc updates overwrites interrupts)) (\<lambda>(current, metadata).
         act_bind (act_of (sm_values machine)) (\<lambda>values.
         act_bind (act_each (\<lambda>i. emit g (EventInterrupt (int step) i)) interrupts) (\<lambda>_.
           act_ret (Returned
             \<lparr>ex_config = current, ex_state = values, ex_interrupts = interrupts, ex_steps = int step + 1\<rparr>
             \<lparr>lc_machine = machine, lc_current = current, lc_tasks = lc_tasks lc, lc_metadata = metadata\<rparr>)))))))"

definition emit_updates ::
  "('x, 's) compiled \<Rightarrow> 'x invocation \<Rightarrow> nat \<Rightarrow> 'x stateMachine \<Rightarrow> 'x taskResult list \<Rightarrow> ('x, 's, unit) act" where
  "emit_updates g invocation step machine results =
     (case co_writer (cg_options g) of
        None \<Rightarrow> act_ret ()
      | Some writer \<Rightarrow>
          act_bind (act_each (\<lambda>r. emit g (EventUpdate (int step) (tk_node (tr_task r)) (tk_id (tr_task r))
              (values_Clone (cmd_update (tr_command r)))))
            (filter (\<lambda>r. cmd_update (tr_command r) \<noteq> []) results)) (\<lambda>_.
          if iv_skipValueEvents invocation then act_ret ()
          else act_bind (act_of (sm_values machine)) (\<lambda>values. emit g (EventValues (int step) values))))"

definition advance_step ::
  "env \<Rightarrow> ('x, 's) compiled \<Rightarrow> 'x invocation \<Rightarrow> nat \<Rightarrow> 'x locals \<Rightarrow> 'x taskResult list \<Rightarrow> ('x, 's, 'x progress) act" where
  "advance_step env g invocation step lc results =
     (let updates = task_updates results
      in act_bind (put_updates env g (lc_current lc) (zip (map tr_task results) updates)) (\<lambda>_.
         act_bind (act_of (apply_updates (consumeEphemeral (lc_machine lc)) updates)) (\<lambda>(machine, overwrites).
         act_bind (route g machine results step) (\<lambda>next_tasks.
         act_bind (persist env g (lc_current lc) empty_checkpoint machine next_tasks
             (loop_input lc updates overwrites [])) (\<lambda>(current, metadata).
         act_bind (emit_updates g invocation step machine results) (\<lambda>_.
           act_ret (Continues
             \<lparr>lc_machine = machine, lc_current = current, lc_tasks = next_tasks, lc_metadata = metadata\<rparr>)))))))"

definition superstep ::
  "env \<Rightarrow> ('x, 's) compiled \<Rightarrow> 'x invocation \<Rightarrow> 'x gval \<Rightarrow> nat \<Rightarrow> 'x gval \<Rightarrow> 'x locals \<Rightarrow> ('x, 's, 'x progress) act" where
  "superstep env g invocation runtimeDeps step resume lc =
     act_bind act_tick (\<lambda>t.
     act_bind (act_of (ctx_err (e_ctx env t))) (\<lambda>_.
       if lc_tasks lc = [] then
         act_bind (act_of (sm_values (lc_machine lc))) (\<lambda>values.
           act_ret (Returned
             \<lparr>ex_config = lc_current lc, ex_state = values, ex_interrupts = [], ex_steps = int step\<rparr> lc))
       else
         act_bind (executeTasks env g (lc_machine lc) (lc_tasks lc) (lc_current lc) resume runtimeDeps
             (iv_configurable invocation) step) (\<lambda>results.
           case first_error results of
             Some e \<Rightarrow> act_fail e
           | None \<Rightarrow>
               let interrupts = collectInterrupts results
               in if interrupts \<noteq> [] then interrupt_step env g step lc results interrupts
                  else advance_step env g invocation step lc results)))"

text \<open>The loop of \<^verbatim>\<open>invoke\<close> by the supersteps that remain below the recursion limit.\<close>

fun run_loop ::
  "env \<Rightarrow> ('x, 's) compiled \<Rightarrow> 'x invocation \<Rightarrow> 'x gval \<Rightarrow> nat \<Rightarrow> nat \<Rightarrow> 'x gval \<Rightarrow> 'x locals \<Rightarrow>
   ('x, 's, 'x execution \<times> 'x locals) act" where
  "run_loop env g invocation runtimeDeps 0 step resume lc = act_fail ErrRecursionLimit"
| "run_loop env g invocation runtimeDeps (Suc remaining) step resume lc =
     act_bind (superstep env g invocation runtimeDeps step resume lc) (\<lambda>p.
       case p of
         Returned execution lc' \<Rightarrow> act_ret (execution, lc')
       | Continues lc' \<Rightarrow> run_loop env g invocation runtimeDeps remaining (Suc step) VNil lc')"

section \<open>Invoke\<close>

definition first_input :: "env \<Rightarrow> ('x, 's) compiled \<Rightarrow> 'x invocation \<Rightarrow> 'x locals \<Rightarrow> ('x, 's, 'x locals) act" where
  "first_input env g invocation lc =
     (let tasks = startTasks g
      in act_bind (act_of (res_wrap ''apply graph input: %w'' (apply_updates (lc_machine lc) [iv_state invocation])))
           (\<lambda>(machine, overwrites).
         act_bind (persist env g
             \<lparr>cf_threadID = cf_threadID (iv_config invocation), cf_namespace = cf_namespace (iv_config invocation),
              cf_checkpointID = []\<rparr> empty_checkpoint machine tasks
             \<lparr>mi_source = ''input'', mi_step = -1, mi_updated = keysOf (iv_state invocation), mi_overwrites = [],
              mi_interrupts = [], mi_forceDeltaSnapshots = True, mi_previousMetadata = empty_metadata\<rparr>)
           (\<lambda>(current, metadata).
           act_ret \<lparr>lc_machine = machine, lc_current = current, lc_tasks = tasks, lc_metadata = metadata\<rparr>)))"

definition later_input :: "env \<Rightarrow> ('x, 's) compiled \<Rightarrow> 'x invocation \<Rightarrow> 'x locals \<Rightarrow> ('x, 's, 'x locals) act" where
  "later_input env g invocation lc =
     (let tasks = (if lc_tasks lc = [] then startTasks g else lc_tasks lc)
      in act_bind (case co_saver (cg_options g) of
             None \<Rightarrow> act_ret ()
           | Some sv \<Rightarrow> act_saver env (\<lambda>ctx. sv_PutWrites sv ctx (lc_current lc) ''__input__'' []
               (stateWrites (iv_state invocation)))) (\<lambda>_.
         act_bind (act_of (res_wrap ''apply graph input: %w'' (apply_updates (lc_machine lc) [iv_state invocation])))
           (\<lambda>(machine, overwrites).
         act_bind (persist env g (lc_current lc) empty_checkpoint machine tasks
             \<lparr>mi_source = ''input'', mi_step = md_step (lc_metadata lc) + 1,
              mi_updated = keysOf (iv_state invocation), mi_overwrites = overwrites,
              mi_interrupts = [], mi_forceDeltaSnapshots = False, mi_previousMetadata = lc_metadata lc\<rparr>)
           (\<lambda>(current, metadata).
           act_ret \<lparr>lc_machine = machine, lc_current = current, lc_tasks = tasks, lc_metadata = metadata\<rparr>))))"

definition put_resume :: "env \<Rightarrow> ('x, 's) compiled \<Rightarrow> 'x invocation \<Rightarrow> config \<Rightarrow> ('x, 's, unit) act" where
  "put_resume env g invocation current =
     (if iv_resume invocation \<noteq> VNil then
        (case co_saver (cg_options g) of
           None \<Rightarrow> act_ret ()
         | Some sv \<Rightarrow> act_saver env (\<lambda>ctx. sv_PutWrites sv ctx current ''__resume__'' []
             [\<lparr>cw_channel = ChannelResume, cw_value = iv_resume invocation\<rparr>]))
      else act_ret ())"

text \<open>The body of \<^verbatim>\<open>invoke\<close> after the state is restored.\<close>

definition invoke_run :: "env \<Rightarrow> ('x, 's) compiled \<Rightarrow> 'x invocation \<Rightarrow> 'x locals \<Rightarrow> ('x, 's, 'x execution \<times> 'x locals) act" where
  "invoke_run env g invocation lc0 =
     act_bind (if cf_checkpointID (lc_current lc0) = [] then first_input env g invocation lc0
               else if iv_state invocation \<noteq> [] then later_input env g invocation lc0
               else act_ret lc0) (\<lambda>lc.
     act_bind (put_resume env g invocation (lc_current lc)) (\<lambda>_.
       run_loop env g invocation
         (if iv_deps invocation = VNil then co_deps (cg_options g) else iv_deps invocation)
         (nat (co_recursionLimit (cg_options g))) 0 (iv_resume invocation) lc))"

text \<open>
  \<^verbatim>\<open>invoke\<close>: with a session, the deferred function keeps the final locals on success and marks the
  session as stale on an error. It is registered after the restore, so an error there leaves the
  session as it is.
\<close>

definition invoke ::
  "env \<Rightarrow> ('x, 's) compiled \<Rightarrow> 'x invocation \<Rightarrow> 'x threadSession option \<Rightarrow> ('x, 's, 'x execution) act" where
  "invoke env g invocation session =
     act_bind (restoreRetained env g invocation session) (\<lambda>lc0 w.
       case session of
         None \<Rightarrow> act_bind (invoke_run env g invocation lc0) (\<lambda>(execution, lc). act_ret execution) w
       | Some s \<Rightarrow>
          (case invoke_run env g invocation lc0 w of
             (w', Inl e) \<Rightarrow> (set_session (iv_config invocation) (s\<lparr>ts_valid := False\<rparr>) w', Inl e)
           | (w', Inr (execution, lc)) \<Rightarrow>
               (set_session (iv_config invocation)
                  \<lparr>ts_valid = True, ts_machine = Some (lc_machine lc), ts_config = lc_current lc,
                   ts_tasks = lc_tasks lc, ts_metadata = lc_metadata lc\<rparr> w', Inr execution)))"

definition Invoke :: "env \<Rightarrow> ('x, 's) compiled \<Rightarrow> 'x invocation \<Rightarrow> ('x, 's, 'x execution) act" where
  "Invoke env g invocation =
     act_bind (act_of (config_Validate (iv_config invocation))) (\<lambda>_.
     act_bind (get_threadSession g (iv_config invocation)) (\<lambda>session.
       if session \<noteq> None \<and> cf_checkpointID (iv_config invocation) \<noteq> [] then
         act_bind (invalidate (iv_config invocation) session) (\<lambda>_. invoke env g invocation None)
       else invoke env g invocation session))"

section \<open>Cancel, Snapshot and UpdateState\<close>

definition previous_checkpoint :: "env \<Rightarrow> ('x, 's) saver \<Rightarrow> config \<Rightarrow> ('x, 's, 'x checkpoint) act" where
  "previous_checkpoint env sv current =
     act_bind (act_read env (\<lambda>ctx. sv_GetTuple sv ctx current)) (\<lambda>tuple.
       act_ret (case tuple of None \<Rightarrow> empty_checkpoint | Some t \<Rightarrow> tp_checkpoint t))"

definition graph_Cancel :: "env \<Rightarrow> ('x, 's) compiled \<Rightarrow> 'x invocation \<Rightarrow> ('x, 's, 'x execution) act" where
  "graph_Cancel env g invocation =
     act_bind (act_of (config_Validate (iv_config invocation))) (\<lambda>_.
     act_bind (get_threadSession g (iv_config invocation)) (\<lambda>session.
     act_bind (invalidate (iv_config invocation) session) (\<lambda>_.
     act_bind (restore env g invocation) (\<lambda>lc.
     act_bind (act_of (res_wrap ''apply graph cancellation: %w'' (apply_updates (lc_machine lc) [iv_state invocation])))
       (\<lambda>(machine, overwrites).
     act_bind (case co_saver (cg_options g) of
         None \<Rightarrow> act_ret empty_checkpoint
       | Some sv \<Rightarrow> if cf_checkpointID (lc_current lc) \<noteq> [] then previous_checkpoint env sv (lc_current lc)
           else act_ret empty_checkpoint) (\<lambda>previous.
       let parent_config = (if cf_threadID (lc_current lc) = []
             then \<lparr>cf_threadID = cf_threadID (iv_config invocation), cf_namespace = cf_namespace (iv_config invocation),
                   cf_checkpointID = []\<rparr> else lc_current lc);
           step = (if cf_checkpointID (lc_current lc) = [] then -1 else md_step (lc_metadata lc) + 1)
       in act_bind (persist env g parent_config previous machine []
              \<lparr>mi_source = ''cancel'', mi_step = step, mi_updated = keysOf (iv_state invocation), mi_overwrites = [],
               mi_interrupts = [], mi_forceDeltaSnapshots = (cf_checkpointID (lc_current lc) = []),
               mi_previousMetadata = lc_metadata lc\<rparr>) (\<lambda>(current, metadata).
          act_bind (act_of (sm_values machine)) (\<lambda>values.
            act_ret \<lparr>ex_config = current, ex_state = values, ex_interrupts = [], ex_steps = 0\<rparr>))))))))"

definition state_invocation :: "config \<Rightarrow> 'x invocation" where
  "state_invocation cfg = \<lparr>iv_config = cfg, iv_state = [], iv_resume = VNil, iv_deps = VNil,
     iv_configurable = [], iv_skipValueEvents = False\<rparr>"

definition graph_Snapshot :: "env \<Rightarrow> ('x, 's) compiled \<Rightarrow> config \<Rightarrow> ('x, 's, 'x snapshot) act" where
  "graph_Snapshot env g cfg =
     act_bind (act_of (config_Validate cfg)) (\<lambda>_.
     act_bind (restore env g (state_invocation cfg)) (\<lambda>lc.
     act_bind (act_of (sm_values (lc_machine lc))) (\<lambda>values.
       act_ret \<lparr>sp_config = lc_current lc, sp_state = values, sp_metadata = lc_metadata lc,
         sp_next = sort (map tk_node (lc_tasks lc))\<rparr>)))"

text \<open>\<^verbatim>\<open>UpdateState\<close> reads the saver without a nil check once a checkpoint was restored.\<close>

definition UpdateState :: "env \<Rightarrow> ('x, 's) compiled \<Rightarrow> 'x invocation \<Rightarrow> ('x, 's, 'x snapshot) act" where
  "UpdateState env g invocation =
     act_bind (act_of (config_Validate (iv_config invocation))) (\<lambda>_.
     act_bind (get_threadSession g (iv_config invocation)) (\<lambda>session.
     act_bind (invalidate (iv_config invocation) session) (\<lambda>_.
     act_bind (restore env g invocation) (\<lambda>lc.
     act_bind (act_of (apply_updates (lc_machine lc) [iv_state invocation])) (\<lambda>(machine, overwrites).
     act_bind (if cf_checkpointID (lc_current lc) \<noteq> [] then
         (case co_saver (cg_options g) of
            None \<Rightarrow> act_fail NilCall
          | Some sv \<Rightarrow> previous_checkpoint env sv (lc_current lc))
       else act_ret empty_checkpoint) (\<lambda>previous.
       let parent_config = (if cf_checkpointID (lc_current lc) = []
             then \<lparr>cf_threadID = cf_threadID (iv_config invocation), cf_namespace = cf_namespace (iv_config invocation),
                   cf_checkpointID = []\<rparr> else lc_current lc);
           step = (if cf_checkpointID (lc_current lc) = [] then -1 else md_step (lc_metadata lc) + 1)
       in act_bind (persist env g parent_config previous machine (lc_tasks lc)
              \<lparr>mi_source = ''update'', mi_step = step, mi_updated = keysOf (iv_state invocation),
               mi_overwrites = overwrites, mi_interrupts = [], mi_forceDeltaSnapshots = True,
               mi_previousMetadata = lc_metadata lc\<rparr>) (\<lambda>(current, metadata).
          act_bind (act_of (sm_values machine)) (\<lambda>values.
            act_ret \<lparr>sp_config = current, sp_state = values, sp_metadata = metadata,
              sp_next = sort (map tk_node (lc_tasks lc))\<rparr>))))))))"

end
