(* ===== verification/Executor_Properties.thy ===== *)
theory Executor_Properties
  imports Graph_Executor
begin

text \<open>
  What the executor guarantees independently of the saver: retries, the results of a superstep, the
  bounded snapshot counters, routing, and the recursion limit.
\<close>

section \<open>Reasoning about actions\<close>

named_theorems act_simps \<open>when an action returns\<close>

lemma act_bind_Inr [act_simps]:
  "act_bind a f w = (w', Inr y) \<longleftrightarrow> (\<exists>w1 x. a w = (w1, Inr x) \<and> f x w1 = (w', Inr y))"
  by (auto simp: act_bind_def split: prod.splits sum.splits)

lemma act_ret_Inr [act_simps]: "act_ret x w = (w', r) \<longleftrightarrow> w' = w \<and> r = Inr x"
  by (auto simp: act_ret_def)

lemma act_fail_Inr [act_simps]: "act_fail e w = (w', r) \<longleftrightarrow> w' = w \<and> r = Inl e"
  by (auto simp: act_fail_def)

lemma act_of_Inr [act_simps]: "act_of q w = (w', r) \<longleftrightarrow> w' = w \<and> q = r"
  by (auto simp: act_of_def)

lemma act_tick_Inr [act_simps]:
  "act_tick w = (w', r) \<longleftrightarrow> w' = w\<lparr>w_tick := Suc (w_tick w)\<rparr> \<and> r = Inr (w_tick w)"
  by (auto simp: act_tick_def)

lemma act_try_Inr [act_simps]: "act_try a w = (w', r) \<longleftrightarrow> (\<exists>q. a w = (w', q) \<and> r = Inr q)"
  by (auto simp: act_try_def split: prod.splits)

lemma act_read_Inr [act_simps]:
  "act_read env f w = (w', r) \<longleftrightarrow>
   w' = w\<lparr>w_tick := Suc (w_tick w)\<rparr> \<and> f (e_ctx env (w_tick w)) (w_saver w) = r"
  by (auto simp: act_read_def)

text \<open>Actions that leave the saver, the clock and the sessions alone.\<close>

definition same_store :: "('x, 's) world \<Rightarrow> ('x, 's) world \<Rightarrow> bool" where
  "same_store w w' \<longleftrightarrow> w_saver w' = w_saver w \<and> w_clock w' = w_clock w \<and> w_sessions w' = w_sessions w \<and>
     w_tick w \<le> w_tick w'"

definition quiet :: "('x, 's, 'a) act \<Rightarrow> bool" where
  "quiet a \<longleftrightarrow> (\<forall>w. same_store w (fst (a w)))"

named_theorems quiet_intros \<open>actions that leave the store alone\<close>

lemma same_store_refl [simp]: "same_store w w"
  by (simp add: same_store_def)

lemma same_store_trans: "same_store a b \<Longrightarrow> same_store b c \<Longrightarrow> same_store a c"
  by (simp add: same_store_def)

lemma quiet_basic [quiet_intros]: "quiet (act_ret x)" "quiet (act_fail e)" "quiet (act_of r)" "quiet act_tick"
    "quiet (act_read env f)"
  by (simp_all add: quiet_def act_ret_def act_fail_def act_of_def act_tick_def act_read_def same_store_def)

lemma quiet_bind [quiet_intros]: "quiet a \<Longrightarrow> (\<And>x. quiet (f x)) \<Longrightarrow> quiet (act_bind a f)"
  unfolding quiet_def act_bind_def
  by (auto split: prod.splits sum.splits) (metis fst_conv same_store_trans)+

lemma quiet_try [quiet_intros]: "quiet a \<Longrightarrow> quiet (act_try a)"
  by (auto simp: quiet_def act_try_def split: prod.splits) (metis fst_conv)

lemma quietD: "quiet a \<Longrightarrow> a w = (w', r) \<Longrightarrow> same_store w w'"
  unfolding quiet_def by (metis fst_conv)

lemma quiet_emit [quiet_intros]: "quiet (emit g ev)"
proof -
  have "quiet (\<lambda>w. (w\<lparr>w_events := w_events w @ [ev]\<rparr>, Inr ()))" by (simp add: quiet_def same_store_def)
  then show ?thesis by (auto simp: emit_def intro!: quiet_intros split: option.split)
qed

lemma quiet_map: "(\<And>x. quiet (f x)) \<Longrightarrow> quiet (act_map f xs)"
  by (induction xs) (auto intro!: quiet_intros)

lemma quiet_each: "(\<And>x. quiet (f x)) \<Longrightarrow> quiet (act_each f xs)"
  by (induction xs) (auto intro!: quiet_intros)

section \<open>Retries\<close>

lemma call_attempts_quiet [quiet_intros]: "quiet (call_attempts env p node vs rt n)"
  by (induction n) (auto intro!: quiet_intros split: option.split sum.split)

lemma call_attempts_first:
  assumes "\<And>t. e_ctx env t = None" and "rp_backoff p \<le> 0"
  shows "\<exists>k \<le> n. (\<forall>i < k. \<exists>e. callNode node (values_Clone vs) rt (w_tick w + i) = Inl e \<and> \<not> gives_up p e) \<and>
    call_attempts env p node vs rt (Suc n) w =
      (w\<lparr>w_tick := w_tick w + Suc k\<rparr>, callNode node (values_Clone vs) rt (w_tick w + k)) \<and>
    (k = n \<or> (case callNode node (values_Clone vs) rt (w_tick w + k) of Inl e \<Rightarrow> gives_up p e | Inr c \<Rightarrow> True))"
proof (induction n arbitrary: w)
  case 0
  show ?case using assms
    by (auto simp: act_bind_def act_tick_def act_ret_def act_fail_def split: sum.split)
next
  case (Suc n)
  let ?call = "\<lambda>t. callNode node (values_Clone vs) rt t"
  show ?case
  proof (cases "\<exists>e. ?call (w_tick w) = Inl e \<and> \<not> gives_up p e")
    case True
    then obtain e where e: "?call (w_tick w) = Inl e" "\<not> gives_up p e" by blast
    let ?w = "w\<lparr>w_tick := Suc (w_tick w)\<rparr>"
    from Suc.IH [of ?w] obtain k where k: "k \<le> n"
      "\<forall>i < k. \<exists>e. ?call (w_tick ?w + i) = Inl e \<and> \<not> gives_up p e"
      "call_attempts env p node vs rt (Suc n) ?w = (?w\<lparr>w_tick := w_tick ?w + Suc k\<rparr>, ?call (w_tick ?w + k))"
      "k = n \<or> (case ?call (w_tick ?w + k) of Inl e \<Rightarrow> gives_up p e | Inr c \<Rightarrow> True)"
      by blast
    have "call_attempts env p node vs rt (Suc (Suc n)) w = call_attempts env p node vs rt (Suc n) ?w"
      using e assms by (simp add: act_bind_def act_tick_def)
    moreover have "\<forall>i < Suc k. \<exists>e. ?call (w_tick w + i) = Inl e \<and> \<not> gives_up p e"
      using k(2) e by (auto simp: less_Suc_eq_0_disj)
    ultimately show ?thesis using k by (intro exI [of _ "Suc k"]) auto
  next
    case False
    then have "call_attempts env p node vs rt (Suc (Suc n)) w = (w\<lparr>w_tick := Suc (w_tick w)\<rparr>, ?call (w_tick w))"
      using assms by (auto simp: act_bind_def act_tick_def act_ret_def act_fail_def split: sum.split)
    with False show ?thesis by (intro exI [of _ 0]) (auto split: sum.split)
  qed
qed

text \<open>A node is called at most as often as the policy allows, the first call included. In a context that is
  never done and without a backoff, the result is that of call \<open>k\<close>, every earlier call failed with an
  error that may be retried, and \<open>k\<close> is the last allowed call unless it succeeded or its error
  forbids a retry.\<close>

theorem callNodeWithRetry_attempts:
  assumes "\<And>t. e_ctx env t = None" and "rp_backoff (co_retry (cg_options g)) \<le> 0"
    and "0 < rp_attempts (co_retry (cg_options g))"
  shows "\<exists>k. int k < rp_attempts (co_retry (cg_options g)) \<and>
    callNodeWithRetry env g node vs rt w =
      (w\<lparr>w_tick := w_tick w + Suc k\<rparr>, callNode node (values_Clone vs) rt (w_tick w + k)) \<and>
    (\<forall>i < k. \<exists>e. callNode node (values_Clone vs) rt (w_tick w + i) = Inl e \<and> \<not> gives_up (co_retry (cg_options g)) e) \<and>
    (int k = rp_attempts (co_retry (cg_options g)) - 1 \<or>
      (case callNode node (values_Clone vs) rt (w_tick w + k) of
         Inl e \<Rightarrow> gives_up (co_retry (cg_options g)) e | Inr c \<Rightarrow> True))"
proof -
  obtain n where n: "nat (rp_attempts (co_retry (cg_options g))) = Suc n"
    using assms(3) by (cases "nat (rp_attempts (co_retry (cg_options g)))") auto
  then have i: "int (Suc n) = rp_attempts (co_retry (cg_options g))" using assms(3) by linarith
  from call_attempts_first [OF assms(1,2), of n node vs rt w] obtain k where
    "k \<le> n" "\<forall>i < k. \<exists>e. callNode node (values_Clone vs) rt (w_tick w + i) = Inl e \<and> \<not> gives_up (co_retry (cg_options g)) e"
    "call_attempts env (co_retry (cg_options g)) node vs rt (Suc n) w =
      (w\<lparr>w_tick := w_tick w + Suc k\<rparr>, callNode node (values_Clone vs) rt (w_tick w + k))"
    "k = n \<or> (case callNode node (values_Clone vs) rt (w_tick w + k) of
       Inl e \<Rightarrow> gives_up (co_retry (cg_options g)) e | Inr c \<Rightarrow> True)"
    by blast
  then show ?thesis using i by (intro exI [of _ k]) (auto simp: callNodeWithRetry_def n)
qed

section \<open>The results of a superstep\<close>

lemma run_task_result:
  "\<exists>w' r. run_task env g m cfg resume deps conf step task w = (w', Inr r) \<and> tr_task r = task \<and> same_store w w' \<and>
     (tr_err r \<noteq> None \<longrightarrow> tr_command r = empty_command)"
proof -
  let ?a = "act_bind (emit g (EventTask (int step) (tk_node task) (tk_id task))) (\<lambda>_.
       act_bind act_tick (\<lambda>t.
         case e_done env t of
           Some cause \<Rightarrow> act_fail cause
         | None \<Rightarrow>
             act_bind (act_of (sm_values m)) (\<lambda>values.
               let previous = values_Clone values;
                   seen = fold (\<lambda>(key, value). dput key value) (tk_input task) values;
                   runtime = \<lparr>rt_deps = deps, rt_config = cfg, rt_configurable = conf,
                     rt_previous = previous, rt_taskID = tk_id task, rt_resume = resume\<rparr>
               in callNodeWithRetry env g (map_of (cg_nodes g) (tk_node task)) seen runtime)))"
  have "quiet ?a"
    by (auto simp: Let_def callNodeWithRetry_def intro!: quiet_intros split: option.split)
  moreover obtain w' q where "?a w = (w', q)" by (cases "?a w")
  ultimately show ?thesis
    by (cases q) (auto simp: run_task_def act_bind_def [of "act_try ?a"] act_try_def act_ret_def dest: quietD)
qed


section \<open>Snapshot counters\<close>

definition advance :: "'x metadataInput \<Rightarrow> string \<Rightarrow> deltaSnapshotCounter" where
  "advance input key = bump_counter (key \<in> set (mi_updated input))
     (dget zero_counter (md_counters (mi_previousMetadata input)) key)"

lemma fold_count_fields:
  assumes "distinct (dkeys kfs)"
  shows "map_of (fst (fold (count_field input) kfs cs)) key =
     (case map_of kfs key of
        None \<Rightarrow> map_of (fst cs) key
      | Some f \<Rightarrow>
          let b = bump_counter (key \<in> set (mi_updated input)) (dget zero_counter (fst cs) key)
          in if takes_snapshot input key f b \<or> b = zero_counter then None else Some b) \<and>
    map_of (snd (fold (count_field input) kfs cs)) key =
     (case map_of kfs key of
        None \<Rightarrow> map_of (snd cs) key
      | Some f \<Rightarrow>
          if takes_snapshot input key f (bump_counter (key \<in> set (mi_updated input)) (dget zero_counter (fst cs) key))
          then Some True else map_of (snd cs) key)"
  using assms
proof (induction kfs arbitrary: cs)
  case (Cons kf kfs)
  obtain k f where kf: "kf = (k, f)" by (cases kf)
  with Cons.prems have k: "map_of kfs k = None" by (simp add: map_of_eq_None_iff)
  show ?case
  proof (cases "k = key")
    case True
    with Cons kf k show ?thesis by (auto simp: count_field_def Let_def)
  next
    case False
    then have "map_of (fst (count_field input kf cs)) key = map_of (fst cs) key"
      "map_of (snd (count_field input kf cs)) key = map_of (snd cs) key"
      by (simp_all add: count_field_def Let_def kf)
    then have "dget zero_counter (fst (count_field input kf cs)) key = dget zero_counter (fst cs) key"
      by (simp add: dget_def)
    with False Cons kf \<open>map_of (fst (count_field input kf cs)) key = map_of (fst cs) key\<close>
      \<open>map_of (snd (count_field input kf cs)) key = map_of (snd cs) key\<close> show ?thesis
      by (simp split: option.split)
  qed
qed simp

lemma count_fields_spec:
  assumes "distinct (dkeys (deltaFields m))"
  shows "map_of (fst (count_fields input m)) key =
     (case map_of (deltaFields m) key of
        None \<Rightarrow> map_of (md_counters (mi_previousMetadata input)) key
      | Some f \<Rightarrow> if takes_snapshot input key f (advance input key) \<or> advance input key = zero_counter
          then None else Some (advance input key))"
    "map_of (snd (count_fields input m)) key =
     (case map_of (deltaFields m) key of
        None \<Rightarrow> None
      | Some f \<Rightarrow> if takes_snapshot input key f (advance input key) then Some True else None)"
  using fold_count_fields [OF assms, of input "(md_counters (mi_previousMetadata input), [])" key]
  by (auto simp: count_fields_def advance_def Let_def split: option.splits)

lemma dkeys_deltaFields:
  "dkeys (deltaFields m) = map fst (filter (\<lambda>(key, f). f_kind (fs_spec f) = FieldDelta \<and>
          (case fs_delta f of None \<Rightarrow> False | Some ch \<Rightarrow> IsAvailable ch)) (sm_fields m))"
  by (simp add: deltaFields_def comp_def case_prod_unfold)

lemma distinct_deltaFields: "distinct (dkeys (sm_fields m)) \<Longrightarrow> distinct (dkeys (deltaFields m))"
  unfolding dkeys_deltaFields by (rule distinct_map_filter)

definition counters_bounded :: "(string, 64 word) dict \<Rightarrow> counters \<Rightarrow> bool" where
  "counters_bounded kfs cs \<longleftrightarrow> list_all (\<lambda>(key, frequency).
     Updates (dget zero_counter cs key) < frequency \<and>
     Supersteps (dget zero_counter cs key) < MaxDeltaSuperstepsSinceSnapshot) kfs"

lemma bump_no_wrap:
  assumes "Updates c < f" and "Supersteps c < MaxDeltaSuperstepsSinceSnapshot"
  shows "bump_counter u c = counter_Advance c u" "bump_counter u c \<noteq> zero_counter"
proof -
  have ne: "Updates c \<noteq> - 1" "Supersteps c \<noteq> - 1"
    using assms by (auto simp: MaxDeltaSuperstepsSinceSnapshot_def)
  then show "bump_counter u c = counter_Advance c u"
    by (simp add: bump_counter_def counter_Advance_def saturatingIncrement_def Let_def)
  have "Supersteps (bump_counter u c) = Supersteps c + 1" by (simp add: bump_counter_def Let_def)
  moreover have "Supersteps c + 1 \<noteq> 0" using ne(2) by (metis add_eq_0_iff2)
  ultimately show "bump_counter u c \<noteq> zero_counter" by (metis zero_counter_def deltaSnapshotCounter.select_convs(2))
qed

lemma persist_metadata:
  assumes "persist env g pc prev m tasks input w = (w', Inr (cfg, md))"
  shows "md = new_metadata input (fst (count_fields input m))"
  using assms
  by (auto simp: persist_def Let_def act_simps split: prod.splits option.splits)

text \<open>C28: the snapshot counters never wrap. When every delta field's counter lies below its snapshot frequency
  and below the superstep bound, the counters a checkpoint stores lie below them too, and each is the
  saturating counter of the channel package advanced by one superstep, or zero where the field is
  snapshotted: the wrapping increments of the executor and the saturating ones agree.\<close>

theorem persist_counters:
  assumes "persist env g pc prev m tasks input w = (w', Inr (cfg, md))"
    and "distinct (dkeys (sm_fields m))"
    and "counters_bounded (deltaFields m) (md_counters (mi_previousMetadata input))"
  shows "counters_bounded (deltaFields m) (md_counters md) \<and>
    (\<forall>key frequency. (key, frequency) \<in> set (deltaFields m) \<longrightarrow>
       (let advanced = counter_Advance (dget zero_counter (md_counters (mi_previousMetadata input)) key)
              (key \<in> set (mi_updated input))
        in dget zero_counter (md_counters md) key =
             (if takes_snapshot input key frequency advanced then zero_counter else advanced)))"
proof -
  have dis: "distinct (dkeys (deltaFields m))" using assms(2) by (rule distinct_deltaFields)
  have md: "md_counters md = fst (count_fields input m)"
    using persist_metadata [OF assms(1)] by (simp add: new_metadata_def)
  have each: "dget zero_counter (md_counters md) key =
        (if takes_snapshot input key f (advance input key) then zero_counter else advance input key) \<and>
      advance input key = counter_Advance (dget zero_counter (md_counters (mi_previousMetadata input)) key)
        (key \<in> set (mi_updated input)) \<and> 0 < f"
    if "(key, f) \<in> set (deltaFields m)" for key f
  proof -
    have b: "Updates (dget zero_counter (md_counters (mi_previousMetadata input)) key) < f"
      "Supersteps (dget zero_counter (md_counters (mi_previousMetadata input)) key) < MaxDeltaSuperstepsSinceSnapshot"
      using assms(3) that by (auto simp: counters_bounded_def list_all_iff)
    have "map_of (deltaFields m) key = Some f" using dis that by (rule map_of_is_SomeI)
    then show ?thesis
      using count_fields_spec(1) [OF dis, of input key] bump_no_wrap [OF b] b(1)
      by (auto simp: md advance_def dget_def [of zero_counter "fst (count_fields input m)"] word_gt_0)
  qed
  have "counters_bounded (deltaFields m) (md_counters md)"
    unfolding counters_bounded_def list_all_iff
  proof safe
    fix key f assume kf: "(key, f) \<in> set (deltaFields m)"
    note e = each [OF kf]
    show "Updates (dget zero_counter (md_counters md) key) < f"
      using e by (auto simp: takes_snapshot_def ShouldSnapshot_def zero_counter_def not_le)
    show "Supersteps (dget zero_counter (md_counters md) key) < MaxDeltaSuperstepsSinceSnapshot"
      using e by (auto simp: takes_snapshot_def ShouldSnapshot_def zero_counter_def not_le
          MaxDeltaSuperstepsSinceSnapshot_def)
  qed
  with each show ?thesis by (auto simp: Let_def)
qed

section \<open>Routing\<close>

definition known_task :: "('x, 's) compiled \<Rightarrow> 'x task \<Rightarrow> bool" where
  "known_task g t \<longleftrightarrow> map_of (cg_nodes g) (tk_node t) \<noteq> None \<and> tk_node t \<noteq> End"

lemma route_sends_known: "route_sends g p i ss = Inr ts \<Longrightarrow> t \<in> set ts \<Longrightarrow> known_task g t"
  by (induction ss arbitrary: i ts)
    (auto simp: res_simps known_task_def new_task_def split: if_splits)

lemma route_destinations_known: "route_destinations g p i ds = Inr ts \<Longrightarrow> t \<in> set ts \<Longrightarrow> known_task g t"
  by (induction ds arbitrary: i ts)
    (auto simp: res_simps known_task_def new_task_def split: if_splits)

lemma route_results_known:
  "route_results g vs step i rs w = (w', Inr ts) \<Longrightarrow> t \<in> set ts \<Longrightarrow> known_task g t"
proof (induction rs arbitrary: i ts w)
  case (Cons r rs)
  from Cons.prems(1) obtain p w1 w2 ss ds es os where
    "route_sends g p 0 (cmd_sends (tr_command r)) = Inr ss" "route_destinations g p 0 ds = Inr es"
    "route_results g vs step (Suc i) rs w2 = (w', Inr os)" "ts = ss @ es @ os"
    by (auto simp: act_simps Let_def)
  with Cons show ?case by (auto dest: route_sends_known route_destinations_known)
qed (simp add: act_simps)

lemma set_number_tasks: "t \<in> set (number_tasks n ts) \<Longrightarrow> \<exists>t' \<in> set ts. tk_node t = tk_node t'"
  by (induction ts arbitrary: n) auto

lemma set_normalizeTasks: "t \<in> set (normalizeTasks ts) \<Longrightarrow> \<exists>t' \<in> set ts. tk_node t = tk_node t'"
  unfolding normalizeTasks_def by (drule set_number_tasks) simp

lemma route_tasks:
  assumes "route g m results step w = (w', Inr next_tasks)"
  shows "list_all (known_task g) next_tasks \<and> distinct (map tk_id next_tasks)"
proof -
  obtain vs w1 ts where ts: "route_results g vs step 0 results w1 = (w', Inr ts)" "next_tasks = normalizeTasks ts"
    using assms by (auto simp: route_def act_simps)
  then have "known_task g t" if "t \<in> set next_tasks" for t
    using that route_results_known [OF ts(1)] set_normalizeTasks [of t ts] unfolding known_task_def ts(2) by metis
  moreover have "distinct (map tk_id next_tasks)"
    unfolding ts(2) normalizeTasks_def by (rule distinct_number_tasks)
  ultimately show ?thesis by (simp add: list_all_iff)
qed

text \<open>C32: routing only schedules nodes of the graph. Whatever nodes and routers answer, the next tasks name
  known nodes, never the end, and have different identifiers.\<close>

theorem route_known:
  assumes "route g m results step w = (w', Inr next_tasks)"
  shows "list_all (known_task g) next_tasks \<and> distinct (map tk_id next_tasks)"
  using assms by (rule route_tasks)

lemma route_destinations_static:
  assumes "\<forall>d \<in> set ds. d = End \<or> map_of (cg_nodes g) d \<noteq> None"
  shows "\<exists>ts. route_destinations g p i ds = Inr ts \<and> map tk_node ts = filter (\<lambda>d. d \<noteq> End) ds"
  using assms
proof (induction ds arbitrary: i)
  case (Cons d ds)
  then obtain ts where "route_destinations g p (Suc i) ds = Inr ts" "map tk_node ts = filter (\<lambda>d. d \<noteq> End) ds"
    by (meson list.set_intros(2))
  with Cons.prems show ?case by (auto simp: new_task_def)
qed simp

definition static_result :: "('x, 's) compiled \<Rightarrow> 'x taskResult \<Rightarrow> bool" where
  "static_result g r \<longleftrightarrow> cmd_goto (tr_command r) = [] \<and> cmd_sends (tr_command r) = [] \<and>
     map_of (cg_conditional g) (tk_node (tr_task r)) = None"

lemma route_results_static:
  assumes "\<forall>r \<in> set rs. static_result g r"
    and closed: "\<And>src ds d. map_of (cg_edges g) src = Some ds \<Longrightarrow> d \<in> set ds \<Longrightarrow> d = End \<or> map_of (cg_nodes g) d \<noteq> None"
  shows "\<exists>ts. route_results g vs step i rs w = (w, Inr ts) \<and>
    map tk_node ts = concat (map (\<lambda>r. filter (\<lambda>d. d \<noteq> End) (dget [] (cg_edges g) (tk_node (tr_task r)))) rs)"
  using assms(1)
proof (induction rs arbitrary: i)
  case Nil
  show ?case by (simp add: act_ret_def)
next
  case (Cons r rs)
  let ?ds = "dget [] (cg_edges g) (tk_node (tr_task r))" and ?p = "fmt_08d step @ ''/'' @ fmt_08d i"
  have "\<forall>d \<in> set ?ds. d = End \<or> map_of (cg_nodes g) d \<noteq> None"
    using closed [of "tk_node (tr_task r)"] by (cases "map_of (cg_edges g) (tk_node (tr_task r))") (simp_all add: dget_def)
  from route_destinations_static [OF this] obtain ts where
    ts: "route_destinations g ?p 0 ?ds = Inr ts" "map tk_node ts = filter (\<lambda>d. d \<noteq> End) ?ds" by blast
  from Cons obtain ts' where ts': "route_results g vs step (Suc i) rs w = (w, Inr ts')"
    "map tk_node ts' = concat (map (\<lambda>r. filter (\<lambda>d. d \<noteq> End) (dget [] (cg_edges g) (tk_node (tr_task r)))) rs)"
    by auto
  have "route_results g vs step i (r # rs) w = (w, Inr (ts @ ts'))"
    using Cons.prems ts(1) ts'(1)
    by (simp add: static_result_def destinations_of_def act_bind_def act_of_def act_ret_def Let_def)
  with ts(2) ts'(2) show ?case by simp
qed

text \<open>In a compiled graph, following static edges never fails: when no result of the superstep redirects the
  flow and no conditional route applies, routing schedules exactly the destinations of the edges of
  the executed nodes, the end excepted.\<close>

theorem route_static:
  assumes "Compile options b = Inr g" and "machine_wf m" and "\<forall>r \<in> set results. static_result g r"
  shows "\<exists>next_tasks. route g m results step w = (w, Inr next_tasks) \<and>
    mset (map tk_node next_tasks) =
      mset (concat (map (\<lambda>r. filter (\<lambda>d. d \<noteq> End) (dget [] (cg_edges g) (tk_node (tr_task r)))) results))"
proof -
  have closed: "map_of (cg_edges g) src = Some ds \<Longrightarrow> d \<in> set ds \<Longrightarrow> d = End \<or> map_of (cg_nodes g) d \<noteq> None" for src ds d
    using compiled_edges_closed [OF assms(1)] by blast
  obtain vs where vs: "sm_values m = Inr vs" using sm_values_seen [OF assms(2)] by blast
  have "\<exists>ts. route_results g vs step 0 results w = (w, Inr ts) \<and>
    map tk_node ts = concat (map (\<lambda>r. filter (\<lambda>d. d \<noteq> End) (dget [] (cg_edges g) (tk_node (tr_task r)))) results)"
    using assms(3) by (rule route_results_static) (use closed in blast)
  then obtain ts where ts: "route_results g vs step 0 results w = (w, Inr ts)"
    "map tk_node ts = concat (map (\<lambda>r. filter (\<lambda>d. d \<noteq> End) (dget [] (cg_edges g) (tk_node (tr_task r)))) results)"
    by blast
  have "mset (map tk_node (normalizeTasks ts)) = mset (map tk_node ts)"
    by (simp only: normalizeTasks_nodes)
  moreover have "route g m results step w = (w, Inr (normalizeTasks ts))"
    using vs ts(1) by (simp add: route_def act_bind_def act_of_def act_ret_def)
  ultimately show ?thesis using ts(2) by (metis (no_types, lifting))
qed

section \<open>The recursion limit\<close>

text \<open>What one superstep leaves behind.\<close>

lemma new_metadata_step [simp]: "md_step (new_metadata input cs) = mi_step input"
  by (simp add: new_metadata_def)

lemma persist_step:
  "persist env g pc prev m tasks input w = (w', Inr (cfg, md)) \<Longrightarrow> md_step md = mi_step input"
  by (drule persist_metadata) simp

lemma interrupt_step_returned:
  assumes "interrupt_step env g step lc results interrupts w = (w', Inr p)"
  shows "\<exists>ex lc'. p = Returned ex lc' \<and> ex_config ex = lc_current lc' \<and> ex_interrupts ex = interrupts \<and>
    sm_values (lc_machine lc') = Inr (ex_state ex) \<and> ex_steps ex = int step + 1 \<and>
    md_step (lc_metadata lc') = md_step (lc_metadata lc) + 1 \<and> lc_tasks lc' = lc_tasks lc"
  using assms
  by (auto simp: interrupt_step_def act_simps Let_def loop_input_def dest!: persist_step)

lemma advance_step_continues:
  assumes "advance_step env g iv step lc results w = (w', Inr p)"
  shows "\<exists>lc'. p = Continues lc' \<and> md_step (lc_metadata lc') = md_step (lc_metadata lc) + 1 \<and>
    list_all (known_task g) (lc_tasks lc') \<and> distinct (map tk_id (lc_tasks lc'))"
  using assms
  by (auto simp: advance_step_def act_simps Let_def loop_input_def dest!: persist_step route_tasks)

lemma superstep_progress:
  assumes "superstep env g iv deps step resume lc w = (w', Inr p)"
  shows "(\<exists>ex. p = Returned ex lc \<and> lc_tasks lc = [] \<and> ex_config ex = lc_current lc \<and> ex_interrupts ex = [] \<and>
       sm_values (lc_machine lc) = Inr (ex_state ex) \<and> ex_steps ex = int step) \<or>
     (\<exists>ex lc'. p = Returned ex lc' \<and> ex_config ex = lc_current lc' \<and> ex_interrupts ex \<noteq> [] \<and>
       sm_values (lc_machine lc') = Inr (ex_state ex) \<and> ex_steps ex = int step + 1 \<and>
       md_step (lc_metadata lc') = md_step (lc_metadata lc) + 1 \<and> lc_tasks lc' = lc_tasks lc) \<or>
     (\<exists>lc'. p = Continues lc' \<and> md_step (lc_metadata lc') = md_step (lc_metadata lc) + 1)"
  using assms
  by (auto simp: superstep_def act_simps Let_def split: if_splits option.splits
      dest!: interrupt_step_returned advance_step_continues)

lemma run_loop_result:
  assumes "run_loop env g iv deps n step resume lc w = (w', Inr (ex, lc'))"
  shows "int step \<le> ex_steps ex \<and> ex_steps ex \<le> int (step + n) \<and> (ex_interrupts ex = [] \<longrightarrow> ex_steps ex < int (step + n)) \<and>
    ex_config ex = lc_current lc' \<and> sm_values (lc_machine lc') = Inr (ex_state ex) \<and>
    (ex_interrupts ex = [] \<longrightarrow> lc_tasks lc' = []) \<and>
    md_step (lc_metadata lc') - md_step (lc_metadata lc) = ex_steps ex - int step"
  using assms
proof (induction n arbitrary: step resume lc w)
  case (Suc n)
  from Suc.prems obtain w1 p where p: "superstep env g iv deps step resume lc w = (w1, Inr p)"
    "(case p of Returned execution lc' \<Rightarrow> act_ret (execution, lc')
       | Continues lc' \<Rightarrow> run_loop env g iv deps n (Suc step) VNil lc') w1 = (w', Inr (ex, lc'))"
    by (auto simp: act_simps)
  from superstep_progress [OF p(1)] p(2) show ?case
    by (auto simp: act_simps dest!: Suc.IH)
qed (simp add: act_simps)

text \<open>C10: an invocation runs at most as many supersteps as the recursion limit allows. When it succeeds, its
  result is the state of the machine it leaves, under the configuration of the last checkpoint, every
  superstep advanced the checkpoint's step number by one, and without interrupts no task is left to
  run and the limit was not exhausted.\<close>

theorem invoke_run_bounded:
  assumes "invoke_run env g iv lc0 w = (w', Inr (ex, lc'))" and "0 \<le> co_recursionLimit (cg_options g)"
  shows "0 \<le> ex_steps ex \<and> ex_steps ex \<le> co_recursionLimit (cg_options g) \<and>
    ex_config ex = lc_current lc' \<and> sm_values (lc_machine lc') = Inr (ex_state ex) \<and>
    (ex_interrupts ex = [] \<longrightarrow> lc_tasks lc' = [] \<and> ex_steps ex < co_recursionLimit (cg_options g)) \<and>
    (iv_state iv = [] \<and> cf_checkpointID (lc_current lc0) \<noteq> [] \<longrightarrow>
      md_step (lc_metadata lc') = md_step (lc_metadata lc0) + ex_steps ex)"
proof -
  obtain w1 w2 lc where lc: "(if cf_checkpointID (lc_current lc0) = [] then first_input env g iv lc0
       else if iv_state iv \<noteq> [] then later_input env g iv lc0 else act_ret lc0) w = (w1, Inr lc)"
    and run: "run_loop env g iv (if iv_deps iv = VNil then co_deps (cg_options g) else iv_deps iv)
       (nat (co_recursionLimit (cg_options g))) 0 (iv_resume iv) lc w2 = (w', Inr (ex, lc'))"
    using assms(1) unfolding invoke_run_def act_bind_Inr by blast
  have "iv_state iv = [] \<and> cf_checkpointID (lc_current lc0) \<noteq> [] \<Longrightarrow> lc = lc0"
    using lc by (simp add: act_simps)
  with run_loop_result [OF run] assms(2) show ?thesis by auto
qed

section \<open>Witnesses\<close>

definition sample_graph :: "(nat, nat memorySaver) compiled" where
  "sample_graph = projr (Compile (sample_options\<lparr>co_retry := \<lparr>rp_attempts = 3, rp_backoff = 0, rp_retryable = None\<rparr>\<rparr>) sample_builder)"

definition quiet_env :: env where
  "quiet_env = \<lparr>e_ctx = \<lambda>_. None, e_done = \<lambda>_. None, e_nano = \<lambda>_. 0, e_random = \<lambda>_. Inr [], e_stamp = \<lambda>_. []\<rparr>"

definition empty_world :: "(nat, nat memorySaver) world" where
  "empty_world = \<lparr>w_saver = NewMemorySaver, w_clock = 0, w_tick = 0, w_events = [], w_sessions = []\<rparr>"

definition sample_invocation :: "nat invocation" where
  "sample_invocation = (state_invocation \<lparr>cf_threadID = ''t'', cf_namespace = [], cf_checkpointID = []\<rparr>)\<lparr>iv_state := [(''log'', VInt 7)]\<rparr>"

definition sample_locals :: "nat locals" where
  "sample_locals = \<lparr>lc_machine = sample_machine, lc_current = empty_config, lc_tasks = [], lc_metadata = empty_metadata\<lparr>md_step := -1\<rparr>\<rparr>"

lemma sample_graph_eq:
  "Compile (sample_options\<lparr>co_retry := \<lparr>rp_attempts = 3, rp_backoff = 0, rp_retryable = None\<rparr>\<rparr>) sample_builder = Inr sample_graph"
  by (simp add: sample_graph_def Compile_def sample_builder_def sample_schema_def schema_Validate_def field_validate_def
        Delta_def LastValue_def Ephemeral_def dget_def Start_def End_def)

lemma sample_graph_retry: "co_retry (cg_options sample_graph) = \<lparr>rp_attempts = 3, rp_backoff = 0, rp_retryable = None\<rparr>"
  "co_recursionLimit (cg_options sample_graph) = 100" "cg_schema sample_graph = sample_schema"
  "cg_edges sample_graph = [(Start, [''work'']), (''work'', [End])]" "cg_conditional sample_graph = []"
  "cg_nodes sample_graph = [(''work'', sample_node)]"
  using compiled_parts [OF sample_graph_eq] by (simp_all add: default_options_def sample_options_def sample_builder_def)

declare unknown_spec_def [code_unfold]

definition sample_result :: "nat taskResult" where
  "sample_result = \<lparr>tr_task = new_task ''work'' [], tr_command = empty_command\<lparr>cmd_goto := [''work'', End]\<rparr>, tr_err = None\<rparr>"

definition flaky_node :: "nat node" where
  "flaky_node vs rt t = (if t < 2 then Fails (Errorf ''later'') else Returns empty_command)"

definition sample_runtime :: "nat runtime" where
  "sample_runtime = \<lparr>rt_deps = VNil, rt_config = empty_config, rt_configurable = [], rt_previous = [], rt_taskID = [], rt_resume = VNil\<rparr>"

theorem callNodeWithRetry_attempts_witness:
  "\<exists>k. int k < 3 \<and> callNodeWithRetry quiet_env sample_graph (Some flaky_node) [] sample_runtime empty_world =
     (empty_world\<lparr>w_tick := w_tick empty_world + Suc k\<rparr>, callNode (Some flaky_node) (values_Clone []) sample_runtime (w_tick empty_world + k))"
  using callNodeWithRetry_attempts [of quiet_env sample_graph "Some flaky_node" "[]" sample_runtime empty_world]
  by (auto simp: quiet_env_def sample_graph_retry)

definition sample_input :: "nat metadataInput" where
  "sample_input = \<lparr>mi_source = ''loop'', mi_step = 1, mi_updated = [''log''], mi_overwrites = [], mi_interrupts = [],
     mi_forceDeltaSnapshots = False, mi_previousMetadata = empty_metadata\<rparr>"

theorem persist_counters_witness:
  "\<exists>w' cfg md. persist quiet_env sample_graph empty_config empty_checkpoint sample_machine [] sample_input empty_world = (w', Inr (cfg, md)) \<and>
     counters_bounded (deltaFields sample_machine) (md_counters md)"
proof -
  have "isl (snd (persist quiet_env sample_graph empty_config empty_checkpoint sample_machine [] sample_input empty_world)) = False"
    by code_simp
  then obtain w' cfg md where p: "persist quiet_env sample_graph empty_config empty_checkpoint sample_machine [] sample_input empty_world = (w', Inr (cfg, md))"
    by (cases "persist quiet_env sample_graph empty_config empty_checkpoint sample_machine [] sample_input empty_world") (auto simp: isl_def split: sum.splits, metis sum.exhaust prod.exhaust)
  have "distinct (dkeys (sm_fields sample_machine))" by (simp add: sample_machine_fields)
  moreover have "counters_bounded (deltaFields sample_machine) (md_counters (mi_previousMetadata sample_input))" by code_simp
  ultimately show ?thesis using p persist_counters [OF p] by blast
qed

theorem route_known_witness:
  "\<exists>w' ts. route sample_graph sample_machine [sample_result] 0 empty_world = (w', Inr ts) \<and>
     list_all (known_task sample_graph) ts \<and> distinct (map tk_id ts)"
proof -
  have "isl (snd (route sample_graph sample_machine [sample_result] 0 empty_world)) = False" by code_simp
  then obtain w' ts where r: "route sample_graph sample_machine [sample_result] 0 empty_world = (w', Inr ts)"
    by (cases "route sample_graph sample_machine [sample_result] 0 empty_world") (auto simp: isl_def, metis sum.exhaust)
  from r route_known [OF r] show ?thesis by blast
qed

theorem route_static_witness:
  "\<exists>ts. route sample_graph sample_machine [\<lparr>tr_task = new_task ''work'' [], tr_command = empty_command, tr_err = None\<rparr>] 0 empty_world =
     (empty_world, Inr ts)"
  using route_static [OF sample_graph_eq newStateMachine_wf [OF sample_machine_eq],
      of "[\<lparr>tr_task = new_task ''work'' [], tr_command = empty_command, tr_err = None\<rparr>]" 0 empty_world]
  by (auto simp: static_result_def empty_command_def sample_graph_retry)

theorem invoke_run_bounded_witness:
  "\<exists>w' ex lc. invoke_run quiet_env sample_graph sample_invocation sample_locals empty_world = (w', Inr (ex, lc)) \<and>
     0 \<le> ex_steps ex \<and> ex_steps ex \<le> 100 \<and> ex_config ex = lc_current lc"
proof -
  have "isl (snd (invoke_run quiet_env sample_graph sample_invocation sample_locals empty_world)) = False" by code_simp
  then obtain w' ex lc where r: "invoke_run quiet_env sample_graph sample_invocation sample_locals empty_world = (w', Inr (ex, lc))"
    by (cases "invoke_run quiet_env sample_graph sample_invocation sample_locals empty_world") (auto simp: isl_def, metis sum.exhaust prod.exhaust)
  from r invoke_run_bounded [OF r] show ?thesis by (auto simp: sample_graph_retry)
qed

end
