(* ===== verification/Saver_Contract.thy ===== *)
theory Saver_Contract
  imports Graph_Builder
begin

text \<open>
  The contract between the executor and a checkpoint saver, as a locale: what \<^verbatim>\<open>GetTuple\<close> and
  \<^verbatim>\<open>GetDeltaChannelHistory\<close> answer about a checkpoint, and how \<^verbatim>\<open>Put\<close> and \<^verbatim>\<open>PutWrites\<close> change it.
  The in-memory saver of \<^verbatim>\<open>dacheckpoint/memory.go\<close> is shown to keep it.
\<close>

section \<open>Put as an equation\<close>

definition put_record :: "config \<Rightarrow> 'x checkpoint \<Rightarrow> 'x metadata \<Rightarrow> 'x memoryRecord" where
  "put_record cfg value metadata = \<lparr>mr_checkpoint =
       (if cp_version value = 0 then value\<lparr>cp_version := LatestVersion\<rparr> else value)\<lparr>cp_channelValues := []\<rparr>,
     mr_metadata = metadata, mr_parentID = cf_checkpointID cfg\<rparr>"

lemma put_record_fields [simp]:
  "mr_parentID (put_record cfg value metadata) = cf_checkpointID cfg"
  "mr_metadata (put_record cfg value metadata) = metadata"
  "cp_channelVersions (mr_checkpoint (put_record cfg value metadata)) = cp_channelVersions value"
  "cp_id (mr_checkpoint (put_record cfg value metadata)) = cp_id value"
  by (simp_all add: put_record_def)

lemma memory_Put_Inr:
  assumes "memory_Put ctx cfg value metadata nv s = (s', Inr cfg')"
  shows "ctx = None" "cf_threadID cfg \<noteq> []" "cp_id value \<noteq> []" "cfg' = cfg\<lparr>cf_checkpointID := cp_id value\<rparr>"
    "s' = s\<lparr>ms_blobs := fold (\<lambda>(channel, version).
        dput (blob_key cfg channel version) (map_of (cp_channelValues value) channel)) nv (ms_blobs s),
      ms_records := dput (memory_key cfg (cp_id value)) (put_record cfg value metadata) (ms_records s)\<rparr>"
proof -
  have ok: "res_bind (ctx_err ctx) (\<lambda>_. config_Validate cfg) = Inr ()"
    using assms by (cases "res_bind (ctx_err ctx) (\<lambda>_. config_Validate cfg)") (simp_all add: memory_Put_def)
  then show "ctx = None" "cf_threadID cfg \<noteq> []" by (auto simp: checked_iff)
  show "cp_id value \<noteq> []" "cfg' = cfg\<lparr>cf_checkpointID := cp_id value\<rparr>"
    "s' = s\<lparr>ms_blobs := fold (\<lambda>(channel, version).
        dput (blob_key cfg channel version) (map_of (cp_channelValues value) channel)) nv (ms_blobs s),
      ms_records := dput (memory_key cfg (cp_id value)) (put_record cfg value metadata) (ms_records s)\<rparr>"
    using assms ok
    by (cases cfg; cases s; auto simp: memory_Put_def put_record_def Let_def split: if_splits)+
qed

lemma memory_PutWrites_Inr:
  assumes "memory_PutWrites ctx cfg t p ws s = (s', Inr ())"
  shows "cf_threadID cfg \<noteq> []" "cf_checkpointID cfg \<noteq> []" "t \<noteq> []"
    "s' = s\<lparr>ms_writes := dput (memory_key cfg (cf_checkpointID cfg))
       (put_writes t p 0 ws (dget [] (ms_writes s) (memory_key cfg (cf_checkpointID cfg)))) (ms_writes s)\<rparr>"
proof -
  have ok: "res_bind (ctx_err ctx) (\<lambda>_. config_Validate cfg) = Inr ()"
    using assms by (cases "res_bind (ctx_err ctx) (\<lambda>_. config_Validate cfg)") (simp_all add: memory_PutWrites_def)
  then show "cf_threadID cfg \<noteq> []" by (auto simp: checked_iff)
  show "cf_checkpointID cfg \<noteq> []" "t \<noteq> []"
    "s' = s\<lparr>ms_writes := dput (memory_key cfg (cf_checkpointID cfg))
       (put_writes t p 0 ws (dget [] (ms_writes s) (memory_key cfg (cf_checkpointID cfg)))) (ms_writes s)\<rparr>"
    using assms ok by (auto simp: memory_PutWrites_def Let_def split: if_splits)
qed

section \<open>Well-formed pending writes\<close>

definition writes_wf :: "(writeKey, 'x pendingWrite) dict \<Rightarrow> bool" where
  "writes_wf ws \<longleftrightarrow> distinct (dkeys ws) \<and>
     (\<forall>(k, w) \<in> set ws. k = (pw_taskID w, pw_index w) \<and>
        (pw_index w < 0 \<longrightarrow> SpecialWriteIndex (pw_channel w) = Some (pw_index w)))"

definition write_of :: "string \<Rightarrow> string \<Rightarrow> nat \<Rightarrow> 'x channelWrite \<Rightarrow> 'x pendingWrite" where
  "write_of t p i w = \<lparr>pw_taskID = t, pw_taskPath = p, pw_index = assigned_index i w,
     pw_channel = cw_channel w, pw_value = cw_value w\<rparr>"

lemma write_of_fields [simp]: "pw_taskID (write_of t p i w) = t" "pw_index (write_of t p i w) = assigned_index i w"
    "pw_channel (write_of t p i w) = cw_channel w" "pw_value (write_of t p i w) = cw_value w"
    "pw_taskPath (write_of t p i w) = p"
  by (simp_all add: write_of_def)

lemma put_writes_Cons:
  "put_writes t p i (w # ws) d =
     put_writes t p (Suc i) ws (if assigned_index i w \<ge> 0 \<and> map_of d (t, assigned_index i w) \<noteq> None then d
       else dput (t, assigned_index i w) (write_of t p i w) d)"
  by (auto simp: Let_def write_of_def)

lemma assigned_negative: "assigned_index i w < 0 \<Longrightarrow> SpecialWriteIndex (cw_channel w) = Some (assigned_index i w)"
  by (auto simp: assigned_index_def split: option.splits)

lemma dput_write_wf: "writes_wf d \<Longrightarrow> writes_wf (dput (t, assigned_index i w) (write_of t p i w) d)"
  by (auto simp: writes_wf_def set_dput assigned_negative)

lemma put_writes_wf: "writes_wf d \<Longrightarrow> writes_wf (put_writes t p i ws d)"
proof (induction ws arbitrary: i d)
  case (Cons w ws)
  show ?case unfolding put_writes_Cons
    by (rule Cons.IH) (use Cons.prems dput_write_wf in auto)
qed simp

lemma dput_mem: "kv \<in> set (dput k v d) \<Longrightarrow> kv = (k, v) \<or> kv \<in> set d"
  by (induction d) (auto split: if_splits)

lemma put_writes_mem:
  "kw \<in> set (put_writes t p i ws d) \<Longrightarrow> kw \<in> set d \<or> pw_taskID (snd kw) = t \<and> pw_channel (snd kw) \<in> cw_channel ` set ws"
proof (induction ws arbitrary: i d)
  case (Cons w ws)
  from Cons.IH [OF Cons.prems [unfolded put_writes_Cons]] show ?case
    by (auto split: if_splits dest!: dput_mem)
qed simp

lemma filter_dput_other:
  assumes "\<not> P v" and "\<And>w. map_of d k = Some w \<Longrightarrow> \<not> P w"
  shows "filter (\<lambda>kv. P (snd kv)) (dput k v d) = filter (\<lambda>kv. P (snd kv)) d"
  using assms by (induction d) auto

lemma dput_fresh: "map_of d k = None \<Longrightarrow> dput k v d = d @ [(k, v)]"
  by (induction d) auto

lemma put_writes_channel:
  assumes "writes_wf d" and "c \<notin> cw_channel ` set ws"
  shows "filter (\<lambda>kw. pw_channel (snd kw) = c) (put_writes t p i ws d) = filter (\<lambda>kw. pw_channel (snd kw) = c) d"
  using assms
proof (induction ws arbitrary: i d)
  case (Cons w ws)
  let ?d = "if assigned_index i w \<ge> 0 \<and> map_of d (t, assigned_index i w) \<noteq> None then d
       else dput (t, assigned_index i w) (write_of t p i w) d"
  have "filter (\<lambda>kw. pw_channel (snd kw) = c) ?d = filter (\<lambda>kw. pw_channel (snd kw) = c) d"
  proof (cases "assigned_index i w \<ge> 0 \<and> map_of d (t, assigned_index i w) \<noteq> None")
    case False
    have "pw_channel v \<noteq> c" if v: "map_of d (t, assigned_index i w) = Some v" for v
    proof
      assume "pw_channel v = c"
      from v False have neg: "assigned_index i w < 0" by auto
      from v Cons.prems(1) have "pw_index v = assigned_index i w"
        "pw_index v < 0 \<longrightarrow> SpecialWriteIndex (pw_channel v) = Some (pw_index v)"
        by (auto simp: writes_wf_def dest!: map_of_SomeD)
      with neg assigned_negative [OF neg] have "SpecialWriteIndex (pw_channel v) = SpecialWriteIndex (cw_channel w)"
        "SpecialWriteIndex (cw_channel w) \<noteq> None" by simp_all
      then have "pw_channel v = cw_channel w"
        by (auto simp: SpecialWriteIndex_def specialWriteIndexes_def split: if_splits)
      with \<open>pw_channel v = c\<close> Cons.prems(2) show False by simp
    qed
    with False Cons.prems(2) show ?thesis
      by (simp only: if_False) (rule filter_dput_other, auto)
  qed simp
  moreover have "writes_wf ?d" using Cons.prems(1) dput_write_wf by auto
  ultimately show ?case unfolding put_writes_Cons using Cons.IH [of ?d "Suc i"] Cons.prems(2) by simp
qed simp

text \<open>The pending writes of a task that has none yet, numbered by position.\<close>

fun numbered :: "string \<Rightarrow> string \<Rightarrow> nat \<Rightarrow> 'x channelWrite list \<Rightarrow> 'x pendingWrite list" where
  "numbered t p i [] = []"
| "numbered t p i (w # ws) = write_of t p i w # numbered t p (Suc i) ws"

lemma put_writes_fresh:
  assumes "\<And>j. i \<le> j \<Longrightarrow> map_of d (t, int j) = None" and "\<forall>w \<in> set ws. SpecialWriteIndex (cw_channel w) = None"
  shows "map snd (put_writes t p i ws d) = map snd d @ numbered t p i ws"
  using assms
proof (induction ws arbitrary: i d)
  case (Cons w ws)
  have a: "assigned_index i w = int i" using Cons.prems(2) by (simp add: assigned_index_def)
  have none: "map_of d (t, int i) = None" using Cons.prems(1) by simp
  then have d: "dput (t, int i) (write_of t p i w) d = d @ [((t, int i), write_of t p i w)]" by (rule dput_fresh)
  have "map_of (dput (t, int i) (write_of t p i w) d) (t, int j) = None" if "Suc i \<le> j" for j
    using that Cons.prems(1) [of j] by auto
  from Cons.IH [OF this] Cons.prems(2) have
    "map snd (put_writes t p (Suc i) ws (dput (t, int i) (write_of t p i w) d)) =
      map snd (dput (t, int i) (write_of t p i w) d) @ numbered t p (Suc i) ws" by simp
  then show ?case unfolding put_writes_Cons a using none d by simp
qed simp

lemma filter_numbered:
  "filter (\<lambda>w. pw_channel w = c) (numbered t p i ws) =
   map (\<lambda>(j, w). write_of t p j w) (filter (\<lambda>(j, w). cw_channel w = c) (enumerate i ws))"
  by (induction ws arbitrary: i) auto

lemma sort_key_sort_append: "sort_key f (sort_key f xs @ ys) = sort_key f (xs @ ys)"
proof (rule properties_for_sort_key)
  show "filter (\<lambda>x. f k = f x) (sort_key f (xs @ ys)) = filter (\<lambda>x. f k = f x) (sort_key f xs @ ys)" for k
    unfolding eq_commute [of "f k"] by (simp add: sort_key_stable)
qed simp_all

section \<open>The contract\<close>

text \<open>
  A saver is seen through its checkpoints: \<open>has\<close> tells which exist, \<open>val\<close> is the value stored for a
  channel, \<open>vers\<close> the channel versions, \<open>hist\<close> the delta history, \<open>pend\<close> the pending writes and \<open>meta\<close> the
  metadata. \<open>unused\<close> says that no value was ever stored under a channel version.
\<close>

definition of_channel :: "string \<Rightarrow> 'x pendingWrite list \<Rightarrow> 'x pendingWrite list" where
  "of_channel c ws = filter (\<lambda>w. pw_channel w = c) ws"

text \<open>The history of a new checkpoint, from its parent's stored value, history and pending writes.\<close>

definition extend_history :: "'x gval option \<Rightarrow> 'x deltaHistory \<Rightarrow> 'x pendingWrite list \<Rightarrow> 'x deltaHistory" where
  "extend_history stored h ws =
     (case stored of
        Some v \<Rightarrow> \<lparr>dh_seed = v, dh_hasSeed = True, dh_writes = ws\<rparr>
      | None \<Rightarrow> h\<lparr>dh_writes := dh_writes h @ ws\<rparr>)"

locale saver_contract =
  fixes sv :: "('x, 's) saver"
    and inv :: "'s \<Rightarrow> bool"
    and has :: "'s \<Rightarrow> config \<Rightarrow> bool"
    and val :: "'s \<Rightarrow> config \<Rightarrow> string \<Rightarrow> 'x gval option"
    and vers :: "'s \<Rightarrow> config \<Rightarrow> (string, string) dict"
    and hist :: "'s \<Rightarrow> config \<Rightarrow> string \<Rightarrow> 'x deltaHistory"
    and pend :: "'s \<Rightarrow> config \<Rightarrow> 'x pendingWrite list"
    and meta :: "'s \<Rightarrow> config \<Rightarrow> 'x metadata"
    and unused :: "'s \<Rightarrow> config \<Rightarrow> string \<Rightarrow> string \<Rightarrow> bool"
  assumes has_id: "has s cfg \<Longrightarrow> cf_checkpointID cfg \<noteq> [] \<and> cf_threadID cfg \<noteq> []"
    and get: "inv s \<Longrightarrow> has s cfg \<Longrightarrow>
      \<exists>t. sv_GetTuple sv None cfg s = Inr (Some t) \<and> tp_config t = cfg \<and> tp_metadata t = meta s cfg \<and>
        cp_channelVersions (tp_checkpoint t) = vers s cfg \<and> distinct (dkeys (vers s cfg)) \<and>
        distinct (dkeys (cp_channelValues (tp_checkpoint t))) \<and>
        (\<forall>c. map_of (cp_channelValues (tp_checkpoint t)) c = val s cfg c)"
    and val_vers: "has s cfg \<Longrightarrow> map_of (vers s cfg) c = None \<Longrightarrow> val s cfg c = None"
    and get_None: "sv_GetTuple sv ctx cfg s = Inr r \<Longrightarrow> ctx = None"
    and history: "inv s \<Longrightarrow> has s cfg \<Longrightarrow>
      \<exists>hs. sv_GetDeltaChannelHistory sv None cfg cs s = Inr hs \<and> (\<forall>c \<in> set cs. map_of hs c = Some (hist s cfg c))"
    and history_None: "sv_GetDeltaChannelHistory sv ctx cfg cs s = Inr hs \<Longrightarrow> ctx = None"
    and put: "inv s \<Longrightarrow> sv_Put sv ctx cfg cp md nv s = (s', Inr cfg') \<Longrightarrow>
      cf_checkpointID cfg = [] \<or> has s cfg \<and> cf_checkpointID cfg < cp_id cp \<Longrightarrow>
      \<not> has s (cfg\<lparr>cf_checkpointID := cp_id cp\<rparr>) \<Longrightarrow> distinct (dkeys nv) \<Longrightarrow> distinct (dkeys (cp_channelVersions cp)) \<Longrightarrow>
      (\<And>c v. map_of nv c = Some v \<Longrightarrow> unused s cfg c v \<and> map_of (cp_channelVersions cp) c = Some v) \<Longrightarrow>
      (\<And>c v. map_of (cp_channelVersions cp) c = Some v \<Longrightarrow> map_of nv c = Some v \<or>
         has s cfg \<and> map_of nv c = None \<and> map_of (vers s cfg) c = Some v) \<Longrightarrow>
      inv s' \<and> cfg' = cfg\<lparr>cf_checkpointID := cp_id cp\<rparr> \<and> has s' cfg' \<and>
      vers s' cfg' = cp_channelVersions cp \<and> meta s' cfg' = md \<and> pend s' cfg' = [] \<and>
      (\<forall>c. val s' cfg' c =
         (if map_of nv c \<noteq> None then map_of (cp_channelValues cp) c
          else if map_of (cp_channelVersions cp) c = None then None else val s cfg c)) \<and>
      (\<forall>c. hist s' cfg' c =
         (if cf_checkpointID cfg = [] then empty_history
          else extend_history (val s cfg c) (hist s cfg c) (of_channel c (pend s cfg)))) \<and>
      (\<forall>i. has s' (cfg\<lparr>cf_checkpointID := i\<rparr>) \<longleftrightarrow> i = cp_id cp \<or> has s (cfg\<lparr>cf_checkpointID := i\<rparr>)) \<and>
      (\<forall>c v. unused s cfg c v \<and> map_of nv c \<noteq> Some v \<longrightarrow> unused s' cfg c v)"
    and put_writes: "inv s \<Longrightarrow> has s cfg \<Longrightarrow> sv_PutWrites sv ctx cfg t p ws s = (s', Inr ()) \<Longrightarrow>
      inv s' \<and> (\<forall>i. has s' (cfg\<lparr>cf_checkpointID := i\<rparr>) = has s (cfg\<lparr>cf_checkpointID := i\<rparr>)) \<and>
      val s' cfg = val s cfg \<and> vers s' cfg = vers s cfg \<and> hist s' cfg = hist s cfg \<and> meta s' cfg = meta s cfg \<and>
      unused s' cfg = unused s cfg \<and>
      (\<forall>c. c \<notin> cw_channel ` set ws \<longrightarrow> of_channel c (pend s' cfg) = of_channel c (pend s cfg)) \<and>
      (\<forall>x \<in> set (pend s' cfg). x \<in> set (pend s cfg) \<or> pw_taskID x = t \<and> pw_channel x \<in> cw_channel ` set ws) \<and>
      ((\<forall>w \<in> set ws. SpecialWriteIndex (cw_channel w) = None) \<and> (\<forall>w \<in> set (pend s cfg). pw_taskID w \<noteq> t) \<longrightarrow>
        pend s' cfg = sortWrites (pend s cfg @ numbered t p 0 ws))"
    and unused_thread: "unused s (cfg\<lparr>cf_checkpointID := i\<rparr>) = unused s cfg"
    and latest: "inv s \<Longrightarrow> sv_GetTuple sv None cfg s = Inr (Some tup) \<Longrightarrow>
      has s (tp_config tup) \<and> tp_config tup = cfg\<lparr>cf_checkpointID := cf_checkpointID (tp_config tup)\<rparr> \<and>
      sv_GetTuple sv None (tp_config tup) s = Inr (Some tup)"
    and newest: "inv s \<Longrightarrow> cf_checkpointID cfg = [] \<Longrightarrow> sv_GetTuple sv None cfg s = Inr r \<Longrightarrow>
      has s (cfg\<lparr>cf_checkpointID := i\<rparr>) \<Longrightarrow> \<exists>t. r = Some t \<and> i \<le> cf_checkpointID (tp_config t)"

section \<open>The in-memory saver keeps it\<close>

definition mem_inv :: "'x memorySaver \<Rightarrow> bool" where
  "mem_inv s \<longleftrightarrow> saver_ok s \<and>
     (\<forall>k ws. map_of (ms_writes s) k = Some ws \<longrightarrow> writes_wf ws \<and> (ws \<noteq> [] \<longrightarrow> map_of (ms_records s) k \<noteq> None)) \<and>
     (\<forall>k r. map_of (ms_records s) k = Some r \<longrightarrow> distinct (dkeys (cp_channelVersions (mr_checkpoint r)))) \<and>
     (\<forall>cfg i r c v. map_of (ms_records s) (memory_key cfg i) = Some r \<and> map_of (cp_channelVersions (mr_checkpoint r)) c = Some v \<longrightarrow>
        map_of (ms_blobs s) (blob_key cfg c v) \<noteq> None)"

definition mem_key :: "config \<Rightarrow> memoryKey" where
  "mem_key cfg = memory_key cfg (cf_checkpointID cfg)"

definition mem_has :: "'x memorySaver \<Rightarrow> config \<Rightarrow> bool" where
  "mem_has s cfg \<longleftrightarrow> cf_checkpointID cfg \<noteq> [] \<and> cf_threadID cfg \<noteq> [] \<and> map_of (ms_records s) (mem_key cfg) \<noteq> None"

definition mem_record :: "'x memorySaver \<Rightarrow> config \<Rightarrow> 'x memoryRecord" where
  "mem_record s cfg = the (map_of (ms_records s) (mem_key cfg))"

definition mem_val :: "'x memorySaver \<Rightarrow> config \<Rightarrow> string \<Rightarrow> 'x gval option" where
  "mem_val s cfg c = seed_value cfg (mem_record s cfg) s c"

definition mem_vers :: "'x memorySaver \<Rightarrow> config \<Rightarrow> (string, string) dict" where
  "mem_vers s cfg = cp_channelVersions (mr_checkpoint (mem_record s cfg))"

definition mem_meta :: "'x memorySaver \<Rightarrow> config \<Rightarrow> 'x metadata" where
  "mem_meta s cfg = mr_metadata (mem_record s cfg)"

definition mem_pend :: "'x memorySaver \<Rightarrow> config \<Rightarrow> 'x pendingWrite list" where
  "mem_pend s cfg = pendingWritesLocked (mem_key cfg) s"

definition mem_hist :: "'x memorySaver \<Rightarrow> config \<Rightarrow> string \<Rightarrow> 'x deltaHistory" where
  "mem_hist s cfg c =
     (case memory_GetDeltaChannelHistory None cfg [c] s of
        Inl e \<Rightarrow> empty_history | Inr hs \<Rightarrow> dget empty_history hs c)"

definition mem_unused :: "'x memorySaver \<Rightarrow> config \<Rightarrow> string \<Rightarrow> string \<Rightarrow> bool" where
  "mem_unused s cfg c v \<longleftrightarrow> map_of (ms_blobs s) (blob_key cfg c v) = None"

lemma key_id_update [simp]: "memory_key (cfg\<lparr>cf_checkpointID := i\<rparr>) j = memory_key cfg j"
    "blob_key (cfg\<lparr>cf_checkpointID := i\<rparr>) c v = blob_key cfg c v"
  by (simp_all add: memory_key_def blob_key_def)

lemma mem_has_update:
  "mem_has s (cfg\<lparr>cf_checkpointID := i\<rparr>) \<longleftrightarrow> i \<noteq> [] \<and> cf_threadID cfg \<noteq> [] \<and> map_of (ms_records s) (memory_key cfg i) \<noteq> None"
  by (simp add: mem_has_def mem_key_def)

lemma blob_value_update [simp]: "blob_value (cfg\<lparr>cf_checkpointID := i\<rparr>) c v s = blob_value cfg c v s"
  by (simp add: blob_value_def)

lemma seed_value_update [simp]: "seed_value (cfg\<lparr>cf_checkpointID := i\<rparr>) r s c = seed_value cfg r s c"
  by (simp add: seed_value_def)

lemma mem_parents: "mem_inv s \<Longrightarrow> parents_older s"
  by (simp add: mem_inv_def saver_ok_def)

lemma mem_hist_chain:
  assumes "mem_inv s" and "mem_has s cfg"
  shows "\<exists>ks. ancestors cfg s (mr_parentID (mem_record s cfg)) ks \<and> mem_hist s cfg c = chain_history cfg s c ks"
proof -
  from assms(2) have tid: "cf_threadID cfg \<noteq> []" "map_of (ms_records s) (memory_key cfg (target_id cfg s)) = Some (mem_record s cfg)"
    by (auto simp: mem_has_def target_id_def mem_record_def mem_key_def)
  from memory_history_chain [OF mem_parents [OF assms(1)] tid(1) _ tid(2), of "[c]"] obtain ks result where
    "ancestors cfg s (mr_parentID (mem_record s cfg)) ks"
    "memory_GetDeltaChannelHistory None cfg [c] s = Inr result"
    "\<forall>c'. map_of result c' = (if c' \<in> set [c] then Some (chain_history cfg s c' ks) else None)" by auto
  then show ?thesis by (intro exI [of _ ks]) (simp add: mem_hist_def dget_def)
qed

lemma mem_history:
  assumes "mem_inv s" and "mem_has s cfg"
  shows "\<exists>hs. memory_GetDeltaChannelHistory None cfg cs s = Inr hs \<and> (\<forall>c \<in> set cs. map_of hs c = Some (mem_hist s cfg c))"
proof (cases "cs = []")
  case True
  with assms(2) show ?thesis
    by (simp add: memory_GetDeltaChannelHistory_def ctx_err_def config_Validate_def mem_has_def)
next
  case False
  from assms(2) have tid: "cf_threadID cfg \<noteq> []" "map_of (ms_records s) (memory_key cfg (target_id cfg s)) = Some (mem_record s cfg)"
    by (auto simp: mem_has_def target_id_def mem_record_def mem_key_def)
  from memory_history_chain [OF mem_parents [OF assms(1)] tid(1) False tid(2)] obtain ks result where
    r: "ancestors cfg s (mr_parentID (mem_record s cfg)) ks"
    "memory_GetDeltaChannelHistory None cfg cs s = Inr result"
    "\<forall>c. map_of result c = (if c \<in> set cs then Some (chain_history cfg s c ks) else None)" by blast
  have "mem_hist s cfg c = chain_history cfg s c ks" for c
    using mem_hist_chain [OF assms, of c] ancestors_unique [OF r(1)] by metis
  with r show ?thesis by auto
qed

lemma mem_get:
  assumes "mem_inv s" and "mem_has s cfg"
  shows "\<exists>t. memory_GetTuple None cfg s = Inr (Some t) \<and> tp_config t = cfg \<and> tp_metadata t = mem_meta s cfg \<and>
    cp_channelVersions (tp_checkpoint t) = mem_vers s cfg \<and> distinct (dkeys (mem_vers s cfg)) \<and>
    distinct (dkeys (cp_channelValues (tp_checkpoint t))) \<and>
    (\<forall>c. map_of (cp_channelValues (tp_checkpoint t)) c = mem_val s cfg c)"
proof -
  let ?r = "mem_record s cfg"
  have r: "map_of (ms_records s) (memory_key cfg (cf_checkpointID cfg)) = Some ?r"
    using assms(2) by (auto simp: mem_has_def mem_record_def mem_key_def)
  have dis: "distinct (dkeys (cp_channelVersions (mr_checkpoint ?r)))"
    using assms(1) r by (auto simp: mem_inv_def)
  have "distinct (dkeys (fold (\<lambda>(channel, version) vs.
      case blob_value cfg channel version s of None \<Rightarrow> vs | Some v \<Rightarrow> dput channel v vs) kvs d))"
    if "distinct (dkeys d)" for kvs and d :: "'a vals"
    using that by (induction kvs arbitrary: d) (auto split: option.split)
  from this [of "[]"] have dis': "distinct (dkeys (channel_values cfg vs s))" for vs
    by (simp add: channel_values_def)
  have "map_of (channel_values cfg (mem_vers s cfg) s) c = mem_val s cfg c" for c
    using dis by (simp add: channel_values_lookup mem_val_def mem_vers_def seed_value_def)
  with r dis dis' assms(2) show ?thesis
    by (simp add: memory_GetTuple_def ctx_err_def config_Validate_def getTupleLocked_def mem_has_def Let_def
        mem_meta_def mem_vers_def)
qed

lemma mem_inv_writes:
  assumes "mem_inv s"
  shows "writes_wf (dget [] (ms_writes s) k)" "map_of (ms_records s) k = None \<Longrightarrow> dget [] (ms_writes s) k = []"
proof -
  from assms have a: "map_of (ms_writes s) k = Some ws \<longrightarrow>
      writes_wf ws \<and> (ws \<noteq> [] \<longrightarrow> map_of (ms_records s) k \<noteq> None)" for ws
    unfolding mem_inv_def by blast
  show "writes_wf (dget [] (ms_writes s) k)" "map_of (ms_records s) k = None \<Longrightarrow> dget [] (ms_writes s) k = []"
    using a by (auto simp: dget_def split: option.split) (simp add: writes_wf_def)
qed

lemma ancestors_cfg: "ancestors (cfg\<lparr>cf_checkpointID := j\<rparr>) s = ancestors cfg s"
proof (intro ext iffI)
  fix i ks
  show "ancestors (cfg\<lparr>cf_checkpointID := j\<rparr>) s i ks \<Longrightarrow> ancestors cfg s i ks"
    by (induction rule: ancestors.induct) (auto intro: ancestors.intros)
  show "ancestors cfg s i ks \<Longrightarrow> ancestors (cfg\<lparr>cf_checkpointID := j\<rparr>) s i ks"
    by (induction rule: ancestors.induct) (auto intro: ancestors.intros)
qed

lemma chain_history_cfg: "chain_history (cfg\<lparr>cf_checkpointID := j\<rparr>) s c ks = chain_history cfg s c ks"
proof (induction ks)
  case (Cons ir ks)
  then show ?case by (cases ir) (simp add: channel_writes_def split: option.split)
qed simp

lemma ancestors_older:
  assumes "parents_older s" and "ancestors cfg s i ks" and "(j, r) \<in> set ks"
  shows "j \<le> i"
  using assms(2,3)
proof (induction rule: ancestors.induct)
  case (anc_step i r' ks)
  show ?case
  proof (cases "(j, r) = (i, r')")
    case False
    with anc_step.prems have m: "(j, r) \<in> set ks" by auto
    with anc_step.IH have "j \<le> mr_parentID r'" by blast
    moreover have "j \<noteq> []" using ancestors_records [OF anc_step.hyps(3) m] by blast
    ultimately show ?thesis
      using parents_olderD [OF assms(1) anc_step.hyps(2)] by (cases "mr_parentID r' = []") auto
  qed simp
qed simp

text \<open>A chain of checkpoints is not touched by a newer checkpoint.\<close>

lemma ancestors_newer:
  assumes "parents_older s" and "ancestors cfg s i ks" and "i = [] \<or> i < n"
  shows "ancestors cfg (s\<lparr>ms_blobs := b, ms_records := dput (memory_key cfg n) r (ms_records s)\<rparr>) i ks"
  using assms(2,3)
proof (induction rule: ancestors.induct)
  case (anc_end i)
  then show ?case by (intro ancestors.anc_end) auto
next
  case (anc_step i r' ks)
  from parents_olderD [OF assms(1) anc_step.hyps(2)] anc_step.prems have "mr_parentID r' = [] \<or> mr_parentID r' < n"
    by auto
  with anc_step show ?case by (intro ancestors.anc_step) auto
qed

lemma mem_put_history:
  assumes inv: "mem_inv s" and put: "memory_Put ctx cfg cp md nv s = (s', Inr cfg')"
    and older: "cf_checkpointID cfg = [] \<or> mem_has s cfg \<and> cf_checkpointID cfg < cp_id cp"
    and fresh: "\<not> mem_has s (cfg\<lparr>cf_checkpointID := cp_id cp\<rparr>)" and inv': "mem_inv s'"
    and seed: "\<And>i r c. map_of (ms_records s) (memory_key cfg i) = Some r \<Longrightarrow> seed_value cfg r s' c = seed_value cfg r s c"
  shows "mem_hist s' cfg' c =
         (if cf_checkpointID cfg = [] then empty_history
          else extend_history (mem_val s cfg c) (mem_hist s cfg c) (of_channel c (mem_pend s cfg)))"
proof -
  note P = memory_Put_Inr [OF put]
  let ?k = "memory_key cfg (cp_id cp)" and ?r = "put_record cfg cp md"
  have cfg': "cfg' = cfg\<lparr>cf_checkpointID := cp_id cp\<rparr>" by (rule P(4))
  have rec: "mem_record s' cfg' = ?r" and has': "mem_has s' cfg'"
    using P(2,3) by (simp_all add: mem_record_def mem_key_def cfg' mem_has_update) (simp_all add: P(5))
  from mem_hist_chain [OF inv' has', of c] obtain ks where
    "ancestors cfg' s' (cf_checkpointID cfg) ks" "mem_hist s' cfg' c = chain_history cfg' s' c ks"
    unfolding rec put_record_fields by blast
  then have ks: "ancestors cfg s' (cf_checkpointID cfg) ks" "mem_hist s' cfg' c = chain_history cfg s' c ks"
    by (simp_all add: cfg' chain_history_cfg ancestors_cfg)
  show ?thesis
  proof (cases "cf_checkpointID cfg = []")
    case True
    with ks(1) have "ks = []" using ancestors_unique ancestors.anc_end by blast
    with ks(2) True show ?thesis by simp
  next
    case False
    with older have has: "mem_has s cfg" and lt: "cf_checkpointID cfg < cp_id cp" by auto
    let ?q = "mem_record s cfg"
    have q: "map_of (ms_records s) (memory_key cfg (cf_checkpointID cfg)) = Some ?q"
      using has by (auto simp: mem_has_def mem_record_def mem_key_def)
    from mem_hist_chain [OF inv has, of c] obtain ks0 where
      ks0: "ancestors cfg s (mr_parentID ?q) ks0" "mem_hist s cfg c = chain_history cfg s c ks0" by blast
    have "ancestors cfg s (cf_checkpointID cfg) ((cf_checkpointID cfg, ?q) # ks0)"
      using False q ks0(1) by (rule ancestors.anc_step)
    from ancestors_newer [OF mem_parents [OF inv] this] lt
    have "ancestors cfg s' (cf_checkpointID cfg) ((cf_checkpointID cfg, ?q) # ks0)" by (simp add: P(5))
    with ks(1) have ks_eq: "ks = (cf_checkpointID cfg, ?q) # ks0" using ancestors_unique by blast
    have wr: "pendingWritesLocked k s' = pendingWritesLocked k s" for k by (simp add: P(5) pendingWritesLocked_def)
    have "chain_history cfg s' c ks0 = chain_history cfg s c ks0"
      by (rule chain_history_cong) (use ancestors_records [OF ks0(1)] seed wr in fastforce)
    then show ?thesis
      using False ks(2) ks0(2) seed [OF q]
      by (auto simp: ks_eq extend_history_def mem_val_def of_channel_def mem_pend_def mem_key_def channel_writes_def wr Let_def
          split: option.split)
  qed
qed

lemma mem_put:
  assumes inv: "mem_inv s" and put: "memory_Put ctx cfg cp md nv s = (s', Inr cfg')"
    and older: "cf_checkpointID cfg = [] \<or> mem_has s cfg \<and> cf_checkpointID cfg < cp_id cp"
    and fresh: "\<not> mem_has s (cfg\<lparr>cf_checkpointID := cp_id cp\<rparr>)"
    and dis: "distinct (dkeys nv)" "distinct (dkeys (cp_channelVersions cp))"
    and nv: "\<And>c v. map_of nv c = Some v \<Longrightarrow> mem_unused s cfg c v \<and> map_of (cp_channelVersions cp) c = Some v"
    and base: "\<And>c v. map_of (cp_channelVersions cp) c = Some v \<Longrightarrow> map_of nv c = Some v \<or>
         mem_has s cfg \<and> map_of nv c = None \<and> map_of (mem_vers s cfg) c = Some v"
  shows "mem_inv s' \<and> cfg' = cfg\<lparr>cf_checkpointID := cp_id cp\<rparr> \<and> mem_has s' cfg' \<and>
      mem_vers s' cfg' = cp_channelVersions cp \<and> mem_meta s' cfg' = md \<and> mem_pend s' cfg' = [] \<and>
      (\<forall>c. mem_val s' cfg' c =
         (if map_of nv c \<noteq> None then map_of (cp_channelValues cp) c
          else if map_of (cp_channelVersions cp) c = None then None else mem_val s cfg c)) \<and>
      (\<forall>c. mem_hist s' cfg' c =
         (if cf_checkpointID cfg = [] then empty_history
          else extend_history (mem_val s cfg c) (mem_hist s cfg c) (of_channel c (mem_pend s cfg)))) \<and>
      (\<forall>i. mem_has s' (cfg\<lparr>cf_checkpointID := i\<rparr>) \<longleftrightarrow> i = cp_id cp \<or> mem_has s (cfg\<lparr>cf_checkpointID := i\<rparr>)) \<and>
      (\<forall>c v. mem_unused s cfg c v \<and> map_of nv c \<noteq> Some v \<longrightarrow> mem_unused s' cfg c v)"
proof -
  note P = memory_Put_Inr [OF put]
  let ?k = "memory_key cfg (cp_id cp)" and ?r = "put_record cfg cp md"
  have cfg': "cfg' = cfg\<lparr>cf_checkpointID := cp_id cp\<rparr>" by (rule P(4))
  have rec': "ms_records s' = dput ?k ?r (ms_records s)" and wr': "ms_writes s' = ms_writes s" by (simp_all add: P(5))
  have none: "map_of (ms_records s) ?k = None" using fresh P(2,3) by (auto simp: mem_has_update)
  have r': "mem_record s' cfg' = ?r" by (simp add: mem_record_def mem_key_def cfg' rec')
  have has': "mem_has s' cfg'" using P(2,3) by (simp add: cfg' mem_has_update rec')
  have blob: "map_of (ms_blobs s') (blob_key cfg c v) =
      (if map_of nv c = Some v then Some (map_of (cp_channelValues cp) c) else map_of (ms_blobs s) (blob_key cfg c v))" for c v
    unfolding P(5) using put_blobs_lookup [OF dis(1), of cfg "map_of (cp_channelValues cp)" "ms_blobs s" c v] by simp
  have used: "map_of (ms_blobs s) (blob_key cfg c v) \<noteq> None"
    if "map_of (ms_records s) (memory_key cfg i) = Some r" "map_of (cp_channelVersions (mr_checkpoint r)) c = Some v" for cfg i r c v
    using inv that unfolding mem_inv_def by blast
  have old_seed: "seed_value cfg r s' c = seed_value cfg r s c" if "map_of (ms_records s) (memory_key cfg i) = Some r" for i r c
  proof (cases "map_of (cp_channelVersions (mr_checkpoint r)) c")
    case (Some v)
    then have "map_of nv c \<noteq> Some v" using used [OF that Some] nv by (auto simp: mem_unused_def)
    with Some show ?thesis by (simp add: seed_value_def blob_value_def blob)
  qed (simp add: seed_value_def)
  have ok': "saver_ok s'"
    using memory_Put_ok [OF _ put] inv older by (auto simp: mem_inv_def)
  have used': "map_of (ms_blobs s') (blob_key cfg0 c v) \<noteq> None"
    if a: "map_of (ms_records s') (memory_key cfg0 i) = Some r" "map_of (cp_channelVersions (mr_checkpoint r)) c = Some v" for cfg0 i r c v
  proof (cases "memory_key cfg0 i = ?k")
    case True
    then have b0: "blob_key cfg0 = blob_key cfg" by (simp add: memory_key_def blob_key_def fun_eq_iff)
    from True a have "map_of (cp_channelVersions cp) c = Some v" by (auto simp: rec')
    with base [of c v] consider "map_of nv c = Some v" | "mem_has s cfg" "map_of (mem_vers s cfg) c = Some v" by blast
    then show ?thesis
    proof cases
      case 2
      then have "map_of (ms_blobs s) (blob_key cfg c v) \<noteq> None"
        by (intro used [of cfg "cf_checkpointID cfg" "mem_record s cfg"])
          (auto simp: mem_has_def mem_vers_def mem_record_def mem_key_def)
      then show ?thesis by (simp add: b0 blob)
    qed (simp add: b0 blob)
  next
    case False
    with a(1) have "map_of (ms_records s) (memory_key cfg0 i) = Some r" by (simp add: rec')
    from used [OF this a(2)] have "map_of (ms_blobs s) (blob_key cfg0 c v) \<noteq> None" .
    moreover have "map_of d k \<noteq> None \<Longrightarrow> map_of (fold (\<lambda>(channel, version).
        dput (blob_key cfg channel version) (f channel)) kvs d) k \<noteq> None" for kvs d k and f :: "string \<Rightarrow> 'a memoryBlob"
      by (induction kvs arbitrary: d) auto
    ultimately show ?thesis by (simp add: P(5))
  qed
  have inv': "mem_inv s'" unfolding mem_inv_def
  proof (intro conjI allI impI ok')
    fix k ws assume "map_of (ms_writes s') k = Some ws"
    then show "writes_wf ws" "ws \<noteq> [] \<Longrightarrow> map_of (ms_records s') k \<noteq> None"
      using inv by (auto simp: mem_inv_def wr' rec')
  next
    fix k r assume "map_of (ms_records s') k = Some r"
    then show "distinct (dkeys (cp_channelVersions (mr_checkpoint r)))"
      using inv dis(2) by (auto simp: mem_inv_def rec' split: if_splits)
  next
    fix cfg0 i r c v assume "map_of (ms_records s') (memory_key cfg0 i) = Some r \<and> map_of (cp_channelVersions (mr_checkpoint r)) c = Some v"
    then show "map_of (ms_blobs s') (blob_key cfg0 c v) \<noteq> None" using used' by blast
  qed
  have vers': "mem_vers s' cfg' = cp_channelVersions cp" "mem_meta s' cfg' = md"
    by (simp_all add: mem_vers_def mem_meta_def r')
  have pend': "mem_pend s' cfg' = []"
  proof -
    have "dget [] (ms_writes s) ?k = []" using mem_inv_writes [OF inv, of ?k] none by (auto simp: dget_def split: option.split)
    then show ?thesis by (simp add: mem_pend_def mem_key_def cfg' pendingWritesLocked_def wr' sortWrites_def)
  qed
  have seed': "mem_val s' cfg' c = seed_value cfg ?r s' c" for c
    unfolding mem_val_def r' by (simp add: cfg')
  have val': "mem_val s' cfg' c = (if map_of nv c \<noteq> None then map_of (cp_channelValues cp) c
          else if map_of (cp_channelVersions cp) c = None then None else mem_val s cfg c)" for c
  proof (cases "map_of nv c")
    case None
    show ?thesis
    proof (cases "map_of (cp_channelVersions cp) c")
      case (Some v)
      with base [OF Some] None have "mem_has s cfg" "map_of (mem_vers s cfg) c = Some v" by auto
      with None Some show ?thesis
        unfolding seed' by (simp add: seed_value_def blob_value_def blob mem_val_def mem_vers_def)
    qed (simp add: None seed' seed_value_def)
  next
    case (Some v)
    with nv [OF Some] show ?thesis by (simp add: seed' seed_value_def blob_value_def blob)
  qed
  have unused': "mem_unused s cfg c v \<Longrightarrow> map_of nv c \<noteq> Some v \<Longrightarrow> mem_unused s' cfg c v" for c v
    by (simp add: mem_unused_def blob)
  have hasi: "mem_has s' (cfg\<lparr>cf_checkpointID := i\<rparr>) \<longleftrightarrow> i = cp_id cp \<or> mem_has s (cfg\<lparr>cf_checkpointID := i\<rparr>)" for i
    using P(2,3) by (auto simp: mem_has_update rec')
  note hist' = mem_put_history [OF inv put older fresh inv' old_seed]
  show ?thesis
    by (intro conjI allI impI; (elim conjE)?; (rule inv' cfg' has' vers' pend' val' hist' hasi unused'; assumption?))
qed

lemma mem_pend_update:
  "mem_pend (s\<lparr>ms_writes := dput (mem_key cfg) d (ms_writes s)\<rparr>) cfg = sortWrites (map snd d)"
proof -
  have "(\<lambda>(k, w). w\<lparr>pw_value := clone_any (pw_value w)\<rparr>) = (\<lambda>kw :: writeKey \<times> 'a pendingWrite. snd kw)"
    by (auto simp: fun_eq_iff)
  then show ?thesis by (simp add: mem_pend_def pendingWritesLocked_def dget_def)
qed

lemma mem_pend_raw: "mem_pend s cfg = sortWrites (map snd (dget [] (ms_writes s) (mem_key cfg)))"
proof -
  have "(\<lambda>(k, w). w\<lparr>pw_value := clone_any (pw_value w)\<rparr>) = (\<lambda>kw :: writeKey \<times> 'a pendingWrite. snd kw)"
    by (auto simp: fun_eq_iff)
  then show ?thesis by (simp add: mem_pend_def pendingWritesLocked_def)
qed

lemma of_channel_sortWrites: "of_channel c (sortWrites ws) = sortWrites (of_channel c ws)"
  by (simp add: of_channel_def sortWrites_def filter_sort)

lemma of_channel_snd: "of_channel c (map snd d) = map snd (filter (\<lambda>kw. pw_channel (snd kw) = c) d)"
  by (simp add: of_channel_def filter_map comp_def)

lemma mem_put_writes:
  assumes inv: "mem_inv s" and has: "mem_has s cfg" and put: "memory_PutWrites ctx cfg t p ws s = (s', Inr ())"
  shows "mem_inv s'" "mem_has s' = mem_has s" "mem_val s' = mem_val s" "mem_vers s' = mem_vers s"
    "mem_hist s' cfg = mem_hist s cfg" "mem_meta s' = mem_meta s" "mem_unused s' = mem_unused s"
    "c \<notin> cw_channel ` set ws \<Longrightarrow> of_channel c (mem_pend s' cfg) = of_channel c (mem_pend s cfg)"
    "(\<forall>w \<in> set ws. SpecialWriteIndex (cw_channel w) = None) \<Longrightarrow> (\<forall>w \<in> set (mem_pend s cfg). pw_taskID w \<noteq> t) \<Longrightarrow>
      mem_pend s' cfg = sortWrites (mem_pend s cfg @ numbered t p 0 ws)"
    "\<forall>x \<in> set (mem_pend s' cfg). x \<in> set (mem_pend s cfg) \<or> pw_taskID x = t \<and> pw_channel x \<in> cw_channel ` set ws"
proof -
  let ?k = "mem_key cfg" and ?d = "dget [] (ms_writes s) (mem_key cfg)"
  have s': "s' = s\<lparr>ms_writes := dput ?k (put_writes t p 0 ws ?d) (ms_writes s)\<rparr>"
    using memory_PutWrites_Inr(4) [OF put] by (simp add: mem_key_def)
  have blobs: "ms_blobs s' = ms_blobs s" "ms_records s' = ms_records s" by (simp_all add: s')
  have blob: "blob_value cfg c v s' = blob_value cfg c v s" for cfg c v by (simp add: blob_value_def blobs)
  have seed: "seed_value cfg r s' c = seed_value cfg r s c" for cfg r c by (simp add: seed_value_def blob)
  have wf: "writes_wf ?d" using mem_inv_writes(1) [OF inv] .
  show inv': "mem_inv s'" unfolding mem_inv_def
  proof (intro conjI allI impI)
    show "saver_ok s'" using memory_PutWrites_ok [OF _ put] inv by (simp add: mem_inv_def)
    fix k d assume d: "map_of (ms_writes s') k = Some d"
    have "writes_wf d \<and> (d \<noteq> [] \<longrightarrow> map_of (ms_records s) k \<noteq> None)"
    proof (cases "k = ?k")
      case True
      with d put_writes_wf [OF wf] has show ?thesis by (auto simp: s' mem_has_def)
    next
      case False
      with d have "map_of (ms_writes s) k = Some d" by (simp add: s')
      with inv show ?thesis unfolding mem_inv_def by blast
    qed
    then show "writes_wf d" "d \<noteq> [] \<Longrightarrow> map_of (ms_records s') k \<noteq> None" by (simp_all add: blobs)
  next
    fix k r assume "map_of (ms_records s') k = Some r"
    with inv show "distinct (dkeys (cp_channelVersions (mr_checkpoint r)))"
      unfolding mem_inv_def blobs by blast
  next
    fix cfg0 i r c v assume "map_of (ms_records s') (memory_key cfg0 i) = Some r \<and> map_of (cp_channelVersions (mr_checkpoint r)) c = Some v"
    with inv show "map_of (ms_blobs s') (blob_key cfg0 c v) \<noteq> None" unfolding mem_inv_def blobs by blast
  qed
  have rec: "mem_record s' = mem_record s" by (simp add: fun_eq_iff mem_record_def blobs)
  show "mem_has s' = mem_has s" "mem_val s' = mem_val s" "mem_vers s' = mem_vers s" "mem_meta s' = mem_meta s"
    "mem_unused s' = mem_unused s"
    by (simp_all add: fun_eq_iff mem_has_def mem_val_def mem_vers_def mem_meta_def mem_unused_def rec blobs seed)
  show "mem_hist s' cfg = mem_hist s cfg"
  proof
    fix c
    have has': "mem_has s' cfg" using has by (simp add: mem_has_def blobs)
    obtain ks where ks: "ancestors cfg s (mr_parentID (mem_record s cfg)) ks" "mem_hist s cfg c = chain_history cfg s c ks"
      using mem_hist_chain [OF inv has] by blast
    obtain ks' where ks': "ancestors cfg s' (mr_parentID (mem_record s cfg)) ks'" "mem_hist s' cfg c = chain_history cfg s' c ks'"
      using mem_hist_chain [OF inv' has'] unfolding rec by blast
    have "ancestors cfg s' (mr_parentID (mem_record s cfg)) ks"
      using ks(1) by (rule ancestors_transfer) (use ancestors_records [OF ks(1)] in \<open>auto simp: blobs\<close>)
    with ks'(1) have "ks' = ks" using ancestors_unique by blast
    moreover have "chain_history cfg s' c ks = chain_history cfg s c ks"
    proof (rule chain_history_cong, safe)
      fix i r assume ir: "(i, r) \<in> set ks"
      show "seed_value cfg r s' c = seed_value cfg r s c" by (rule seed)
      have q: "map_of (ms_records s) (memory_key cfg (cf_checkpointID cfg)) = Some (mem_record s cfg)"
        using has by (auto simp: mem_has_def mem_record_def mem_key_def)
      have "i \<noteq> cf_checkpointID cfg"
        using ancestors_older [OF mem_parents [OF inv] ks(1) ir] parents_olderD [OF mem_parents [OF inv] q]
          ancestors_records [OF ks(1) ir] by auto
      then show "pendingWritesLocked (memory_key cfg i) s' = pendingWritesLocked (memory_key cfg i) s"
        by (simp add: pendingWritesLocked_def s' mem_key_def dget_def)
    qed
    ultimately show "mem_hist s' cfg c = mem_hist s cfg c" using ks(2) ks'(2) by simp
  qed
  have pend': "mem_pend s' cfg = sortWrites (map snd (put_writes t p 0 ws ?d))"
    unfolding s' by (rule mem_pend_update)
  show "\<forall>x \<in> set (mem_pend s' cfg). x \<in> set (mem_pend s cfg) \<or> pw_taskID x = t \<and> pw_channel x \<in> cw_channel ` set ws"
    unfolding pend' mem_pend_raw [of s] sortWrites_def using put_writes_mem [of _ t p 0 ws ?d] by (simp add: image_iff) blast
  show "of_channel c (mem_pend s' cfg) = of_channel c (mem_pend s cfg)" if "c \<notin> cw_channel ` set ws"
    unfolding pend' mem_pend_raw [of s] of_channel_sortWrites of_channel_snd put_writes_channel [OF wf that] ..
  show "mem_pend s' cfg = sortWrites (mem_pend s cfg @ numbered t p 0 ws)"
    if plain: "\<forall>w \<in> set ws. SpecialWriteIndex (cw_channel w) = None" and free: "\<forall>w \<in> set (mem_pend s cfg). pw_taskID w \<noteq> t"
  proof -
    have "map_of ?d (t, int j) = None" for j
    proof (rule ccontr)
      assume "map_of ?d (t, int j) \<noteq> None"
      then obtain w where "((t, int j), w) \<in> set ?d" by (auto dest: map_of_SomeD)
      with wf have "pw_taskID w = t" "w \<in> set (map snd ?d)" by (auto simp: writes_wf_def rev_image_eqI)
      with free show False unfolding mem_pend_raw sortWrites_def by auto
    qed
    with put_writes_fresh [of 0 ?d t ws p] plain
    have "map snd (put_writes t p 0 ws ?d) = map snd ?d @ numbered t p 0 ws" by blast
    then show ?thesis unfolding pend' by (simp add: mem_pend_raw sortWrites_def sort_key_sort_append)
  qed
qed

lemma mem_latest:
  assumes "mem_inv s" and "memory_GetTuple None cfg s = Inr (Some t)"
  shows "mem_has s (tp_config t) \<and> tp_config t = cfg\<lparr>cf_checkpointID := cf_checkpointID (tp_config t)\<rparr> \<and>
    memory_GetTuple None (tp_config t) s = Inr (Some t)"
proof -
  let ?i = "if cf_checkpointID cfg = [] then latest_id cfg s else cf_checkpointID cfg"
  have t: "getTupleLocked cfg s = Some t" "cf_threadID cfg \<noteq> []"
    using assms(2) by (auto simp: memory_GetTuple_def ctx_err_def config_Validate_def split: if_splits)
  then obtain r where i: "?i \<noteq> []" and r: "map_of (ms_records s) (memory_key cfg ?i) = Some r"
    and cfg: "tp_config t = cfg\<lparr>cf_checkpointID := ?i\<rparr>"
    by (auto simp: getTupleLocked_def Let_def split: if_splits option.splits)
  have cv: "channel_values (cfg\<lparr>cf_checkpointID := j\<rparr>) vs s = channel_values cfg vs s" for j vs
    by (simp add: channel_values_def)
  have "getTupleLocked (cfg\<lparr>cf_checkpointID := ?i\<rparr>) s = getTupleLocked cfg s"
    using i r by (simp add: getTupleLocked_def Let_def cv)
  with t i r cfg show ?thesis
    by (simp add: mem_has_update memory_GetTuple_def ctx_err_def config_Validate_def)
qed

lemma mem_newest:
  assumes "mem_inv s" and "cf_checkpointID cfg = []" and "memory_GetTuple None cfg s = Inr r"
    and has: "mem_has s (cfg\<lparr>cf_checkpointID := i\<rparr>)"
  shows "\<exists>t. r = Some t \<and> i \<le> cf_checkpointID (tp_config t)"
proof -
  have i: "i \<noteq> []" and r: "map_of (ms_records s) (memory_key cfg i) \<noteq> None"
    using has by (auto simp: mem_has_update)
  then have le: "i \<le> latest_id cfg s" by (intro latest_id_ge) (simp add: ids_of_def)
  with i have l: "latest_id cfg s \<noteq> []" by auto
  then obtain rc where "map_of (ms_records s) (memory_key cfg (latest_id cfg s)) = Some rc"
    using latest_id_cases [of cfg s] by (auto simp: ids_of_def)
  with assms(2,3) l le has show ?thesis
    by (auto simp: memory_GetTuple_def getTupleLocked_def Let_def ctx_err_def config_Validate_def mem_has_update res_simps)
qed

lemma memory_saver_ops:
  "sv_Put (memory_saver f) = memory_Put" "sv_PutWrites (memory_saver f) = memory_PutWrites"
  "sv_GetTuple (memory_saver f) = memory_GetTuple"
  "sv_GetDeltaChannelHistory (memory_saver f) = memory_GetDeltaChannelHistory"
  "sv_NextVersion (memory_saver f) t v = NextVersion (f t) v"
  by (simp_all add: memory_saver_def)

interpretation mem: saver_contract "memory_saver fractions" mem_inv mem_has mem_val mem_vers mem_hist mem_pend mem_meta mem_unused
  for fractions :: "nat \<Rightarrow> string res"
proof (unfold_locales, goal_cases)
  case 1
  then show ?case by (simp add: mem_has_def)
next
  case 2
  then show ?case by (simp add: memory_saver_def mem_get)
next
  case 3
  then show ?case by (simp add: mem_val_def mem_vers_def seed_value_def)
next
  case 4
  then show ?case by (auto simp: memory_saver_def memory_GetTuple_def ctx_err_def split: option.splits)
next
  case 5
  then show ?case by (simp add: memory_saver_def mem_history)
next
  case 6
  then show ?case by (auto simp: memory_saver_def memory_GetDeltaChannelHistory_def ctx_err_def split: option.splits)
next
  case 7
  then show ?case unfolding memory_saver_ops by (rule mem_put)
next
  case (8 s cfg ctx t p ws s')
  note w = mem_put_writes [OF 8 [unfolded memory_saver_ops]]
  have h: "mem_has s' (cfg\<lparr>cf_checkpointID := i\<rparr>) = mem_has s (cfg\<lparr>cf_checkpointID := i\<rparr>)" for i by (simp only: w(2))
  show ?case
    by (intro conjI allI impI; (elim conjE)?; (rule w(1,5,8,10,9) h w(3,4,6,7) [THEN fun_cong]; assumption?))
next
  case 9
  show ?case by (simp add: fun_eq_iff mem_unused_def)
next
  case 10
  then show ?case unfolding memory_saver_ops by (rule mem_latest)
next
  case 11
  then show ?case unfolding memory_saver_ops by (rule mem_newest)
qed

end
