(* ===== verification/Durability.thy ===== *)
theory Durability
  imports Executor_Properties Saver_Contract
begin

text \<open>
  Durable reconstruction: the state a graph keeps in memory and the state a saver can rebuild stay the
  same through every successful superstep. For each field of the live machine, \<open>agrees\<close> relates it to
  the value stored for its channel and the channel's delta history; restoring a checkpoint whose
  fields agree gives back the live machine, with its ephemeral fields consumed.
\<close>

section \<open>Lawful fields\<close>

text \<open>
  What the application promises for a field: a delta field has a reducer with the batching law on the
  values \<open>ok\<close>, and the copies of every other kind are equal to their originals.
\<close>

definition lawful_field :: "(string \<Rightarrow> 'x gval \<Rightarrow> bool) \<Rightarrow> string \<Rightarrow> 'x field \<Rightarrow> bool" where
  "lawful_field ok k spec \<longleftrightarrow> field_validate spec = Inr () \<and>
     (if f_kind spec = FieldDelta
      then batching_reducer (the (f_reducer spec)) (the (f_clone spec)) (ok k) \<and> ok k (the (f_initial spec))
      else \<forall>v. the (f_clone spec) v = v)"

text \<open>The live fields a validated specification has.\<close>

definition shaped :: "(string \<Rightarrow> 'x gval \<Rightarrow> bool) \<Rightarrow> string \<Rightarrow> 'x fieldState \<Rightarrow> bool" where
  "shaped ok k f \<longleftrightarrow>
     (case f_kind (fs_spec f) of
        FieldDelta \<Rightarrow> fs_value f = VNil \<and> \<not> fs_available f \<and>
          (case fs_delta f of None \<Rightarrow> False
           | Some ch \<Rightarrow> channel_of_spec (fs_spec f) ch \<and> (case d_cell ch of None \<Rightarrow> False | Some v \<Rightarrow> ok k v))
      | FieldUnknown b \<Rightarrow> False
      | FieldAggregate \<Rightarrow> fs_delta f = None \<and> fs_available f
      | _ \<Rightarrow> fs_delta f = None \<and> (fs_available f \<or> fs_value f = VNil))"

definition unwrap :: "'x gval \<Rightarrow> 'x gval" where
  "unwrap v = (case v of VSnapshot s \<Rightarrow> s | _ \<Rightarrow> v)"

definition seed_base :: "'x gval \<Rightarrow> 'x gval option \<Rightarrow> 'x deltaHistory \<Rightarrow> 'x gval" where
  "seed_base initial stored h =
     (case stored of Some v \<Rightarrow> unwrap v | None \<Rightarrow> if dh_hasSeed h then unwrap (dh_seed h) else initial)"

definition replayed_writes :: "'x gval option \<Rightarrow> 'x deltaHistory \<Rightarrow> 'x gval list" where
  "replayed_writes stored h = (case stored of Some v \<Rightarrow> [] | None \<Rightarrow> map pw_value (dh_writes h))"

definition replays :: "('x gval \<Rightarrow> bool) \<Rightarrow> 'x gval delta \<Rightarrow> 'x gval option \<Rightarrow> 'x deltaHistory \<Rightarrow> bool" where
  "replays ok ch stored h \<longleftrightarrow>
     (let b = seed_base (d_initial ch) stored h; ws = replayed_writes stored h
      in ok b \<and> (\<forall>w \<in> set ws. \<not> is_overwrite w) \<and>
         (if ws = [] then d_cell ch = Some b else \<exists>v. d_reduce ch b ws = Inr v \<and> d_cell ch = Some v))"

definition agrees ::
  "(string \<Rightarrow> 'x gval \<Rightarrow> bool) \<Rightarrow> string \<Rightarrow> 'x gval option \<Rightarrow> 'x deltaHistory \<Rightarrow> 'x fieldState \<Rightarrow> bool" where
  "agrees ok k stored h f \<longleftrightarrow>
     (case f_kind (fs_spec f) of
        FieldDelta \<Rightarrow> replays (ok k) (the (fs_delta f)) stored h
      | FieldEphemeral \<Rightarrow> stored = None
      | FieldAggregate \<Rightarrow> stored = Some (fs_value f) \<or> stored = None \<and> f_initial (fs_spec f) = Some (fs_value f)
      | _ \<Rightarrow> stored = (if fs_available f then Some (fs_value f) else None))"

lemma lawful_delta:
  assumes "lawful_field ok k (fs_spec f)" and "f_kind (fs_spec f) = FieldDelta" and "shaped ok k f"
  obtains ch v where "fs_delta f = Some ch" "d_cell ch = Some v" "ok k v" "channel_of_spec (fs_spec f) ch"
    "batching_reducer (d_reduce ch) (d_clone ch) (ok k)" "ok k (d_initial ch)"
  using assms
  by (auto simp: lawful_field_def shaped_def channel_of_spec_def split: option.splits)

lemma channel_of_spec_unique:
  assumes "channel_of_spec spec a" and "channel_of_spec spec b" and "d_cell a = d_cell b"
  shows "a = b"
  using assms by (cases a; cases b) (simp add: channel_of_spec_def)

section \<open>Rebuilding a field\<close>

lemma delta_write_update: "\<not> is_overwrite v \<Longrightarrow> delta_write v = UpdateValue v"
  by (cases v) (simp_all add: is_overwrite_def)

lemma map_delta_write:
  "\<forall>w \<in> set ws. \<not> is_overwrite w \<Longrightarrow> map delta_write ws = map UpdateValue ws"
  by (simp add: delta_write_update)

lemma no_overwrites: "filter IsOverwrite (map UpdateValue ws) = []"
  by (induction ws) auto

lemma Restore_seed:
  assumes "batching_reducer (d_reduce ch) (d_clone ch) ok" and "ok (seed_base (d_initial ch) stored h)"
  shows "Restore ch (delta_seed stored (Some h)) =
    Inr (ch\<lparr>d_cell := Some (seed_base (d_initial ch) stored h)\<rparr>)"
proof -
  have r: "Restore ch (seed_of v) = Inr (ch\<lparr>d_cell := Some (d_clone ch (unwrap v))\<rparr>)" for v
    by (simp add: seed_of_def unwrap_def specCopy_def split: gval.split)
  show ?thesis
    using assms(2) batching_reducer.ok_clone [OF assms(1)]
    by (auto simp: delta_seed_def seed_base_def r specCopy_def split: option.splits if_splits)
qed

lemma restore_delta_rebuilds:
  assumes lawful: "lawful_field ok k spec" and kind: "f_kind spec = FieldDelta"
    and ch: "channel_of_spec spec ch" and rep: "replays (ok k) ch stored h"
  shows "restore_delta spec stored (Some h) = Inr ch"
proof -
  from lawful kind obtain ch0 where ch0: "new_delta spec = Inr ch0" "channel_of_spec spec ch0"
    using new_delta_spec by (auto simp: lawful_field_def)
  have bat: "batching_reducer (d_reduce ch0) (d_clone ch0) (ok k)"
    using lawful kind ch0(2) by (auto simp: lawful_field_def channel_of_spec_def)
  have same: "d_initial ch0 = d_initial ch" "d_reduce ch0 = d_reduce ch" "d_clone ch0 = d_clone ch"
    using ch ch0(2) by (auto simp: channel_of_spec_def)
  let ?b = "seed_base (d_initial ch) stored h" and ?ws = "replayed_writes stored h"
  have b: "ok k ?b" and plain: "\<forall>w \<in> set ?ws. \<not> is_overwrite w"
    and cell: "if ?ws = [] then d_cell ch = Some ?b else \<exists>v. d_reduce ch ?b ?ws = Inr v \<and> d_cell ch = Some v"
    using rep by (auto simp: replays_def Let_def)
  let ?ch1 = "ch0\<lparr>d_cell := Some ?b\<rparr>"
  have res: "Restore ch0 (delta_seed stored (Some h)) = Inr ?ch1"
    using Restore_seed [OF bat, of stored h] b same by simp
  have eq: "channel_of_spec spec (ch0\<lparr>d_cell := c\<rparr>)" for c using ch0(2) by (simp add: channel_of_spec_def)
  show ?thesis
  proof (cases stored)
    case (Some v)
    then have "?ws = []" by (simp add: replayed_writes_def)
    with cell have "?ch1 = ch" using channel_of_spec_unique [OF eq ch] by simp
    with res ch0(1) Some show ?thesis by (simp add: restore_delta_def)
  next
    case None
    then have ws: "map (\<lambda>w. delta_write (pw_value w)) (dh_writes h) = map UpdateValue ?ws"
      using map_delta_write [OF plain] by (simp add: replayed_writes_def comp_def)
    show ?thesis
    proof (cases "?ws = []")
      case True
      with cell have "?ch1 = ch" using channel_of_spec_unique [OF eq ch] by simp
      with res ch0(1) None ws True show ?thesis by (simp add: restore_delta_def delta_Replay_def)
    next
      case False
      with cell obtain v where v: "d_reduce ch ?b ?ws = Inr v" "d_cell ch = Some v" by auto
      have "replay_value (d_reduce ch0) (d_clone ch0) (d_clone ch0 ?b) (map UpdateValue ?ws) = Inr v"
        using batching_reducer.replay_value_no_overwrite [OF bat b no_overwrites] batching_reducer.ok_clone [OF bat b]
          False v(1) same by (simp add: comp_def)
      then have "delta_Replay ?ch1 (map UpdateValue ?ws) = (?ch1\<lparr>d_cell := Some v\<rparr>, Inr ())"
        using False by (subst delta_Replay_spec) simp_all
      moreover have "?ch1\<lparr>d_cell := Some v\<rparr> = ch"
        using channel_of_spec_unique [OF eq ch] v(2) by simp
      ultimately show ?thesis using res ch0(1) None ws by (simp add: restore_delta_def)
    qed
  qed
qed

text \<open>A field that agrees with the store is rebuilt exactly, up to the end of its ephemeral life.\<close>

lemma new_field_rebuilds:
  assumes "lawful_field ok k (fs_spec f)" and "shaped ok k f" and "agrees ok k stored h f"
  shows "new_field (fs_spec f) stored (Some h) = Inr (consume_field f)"
proof (cases "f_kind (fs_spec f) = FieldDelta")
  case True
  obtain ch where ch: "fs_delta f = Some ch" "channel_of_spec (fs_spec f) ch"
    using lawful_delta [OF assms(1) True assms(2)] by metis
  with assms True have "restore_delta (fs_spec f) stored (Some h) = Inr ch"
    by (intro restore_delta_rebuilds) (auto simp: agrees_def)
  moreover have "f = (new_fieldState (fs_spec f))\<lparr>fs_delta := Some ch\<rparr>"
    using assms(2) True ch by (cases f) (simp add: shaped_def new_fieldState_def)
  ultimately show ?thesis using True by (simp add: new_field_def consume_field_def)
next
  case False
  obtain cl where cl: "f_clone (fs_spec f) = Some cl" "\<And>v. cl v = v"
    using assms(1) False field_validate_cloners by (fastforce simp: lawful_field_def)
  with assms False show ?thesis
    by (cases f; cases "f_kind (fs_spec f)")
      (auto simp: agrees_def shaped_def new_field_def consume_field_def new_fieldState_def)
qed

section \<open>Updating a field\<close>

lemma scan_overwrite_none: "scan_unique e is_overwrite 0 (-1) ws = Inr i \<Longrightarrow> \<not> 0 \<le> i \<Longrightarrow> \<forall>w \<in> set ws. \<not> is_overwrite w"
proof (cases rule: filter_count_cases [of is_overwrite ws])
  case (one w)
  assume "scan_unique e is_overwrite 0 (-1) ws = Inr i" "\<not> 0 \<le> i"
  with scan_unique_one [OF one, of e 0] show ?thesis by auto
next
  case many
  assume "scan_unique e is_overwrite 0 (-1) ws = Inr i"
  with scan_unique_many [OF many, of e 0] show ?thesis by simp
qed (simp add: filter_empty_conv)

lemma is_overwriteD: "is_overwrite w \<Longrightarrow> \<exists>x. w = VOverwrite x"
  by (cases w) (simp_all add: is_overwrite_def)

text \<open>What the updates of a superstep may bring: an overwrite of a delta field is a value it may hold.\<close>

definition good_write :: "(string \<Rightarrow> 'x gval \<Rightarrow> bool) \<Rightarrow> string \<Rightarrow> 'x fieldState \<Rightarrow> 'x gval \<Rightarrow> bool" where
  "good_write ok k f w \<longleftrightarrow> (f_kind (fs_spec f) = FieldDelta \<and> is_overwrite w \<longrightarrow>
     ok k (the (f_clone (fs_spec f)) (overwritten w)))"

lemma delta_apply_updates:
  assumes bat: "batching_reducer (d_reduce ch) (d_clone ch) ok" and v: "d_cell ch = Some v" "ok v"
    and ws: "ws \<noteq> []" and "delta_Apply ch (map UpdateValue ws) = (ch', Inr u)"
  shows "\<exists>v'. d_reduce ch v ws = Inr v' \<and> ok v' \<and> ch' = ch\<lparr>d_cell := Some v'\<rparr>"
proof -
  have c: "d_clone ch v = v" using batching_reducer.ok_clone [OF bat v(2)] .
  have "d_reduce ch v (map (\<lambda>w. if d_ownedReducerInput ch then writeValue w else d_clone ch (writeValue w)) (map UpdateValue ws)) =
      d_reduce ch v ws"
    using batching_reducer.reduce_clone [OF bat v(2), of ws]
    by (cases "d_ownedReducerInput ch") (simp_all add: comp_def)
  moreover have "delta_base ch = v" using v(1) c by (simp add: delta_base_def)
  ultimately have "delta_Apply ch (map UpdateValue ws) =
      (case d_reduce ch v ws of Inl e \<Rightarrow> (ch, Inl (Wrapf ''reduce delta channel update'' e))
       | Inr nv \<Rightarrow> (ch\<lparr>d_cell := Some nv\<rparr>, Inr True))"
    using ws by (simp add: delta_Apply_none no_overwrites)
  with assms(5) batching_reducer.reduce_ok [OF bat v(2)] show ?thesis by (auto split: sum.splits)
qed

lemma fieldState_apply_delta:
  assumes lawful: "lawful_field ok k (fs_spec f)" and kind: "f_kind (fs_spec f) = FieldDelta" and sh: "shaped ok k f"
    and good: "\<forall>w \<in> set ws. good_write ok k f w" and ap: "fieldState_apply f ws = (f', Inr ow)"
  shows "shaped ok k f' \<and> fs_spec f' = fs_spec f \<and>
    (\<not> ow \<longrightarrow> (\<forall>w \<in> set ws. \<not> is_overwrite w) \<and>
      (if ws = [] then f' = f
       else \<exists>v'. d_reduce (the (fs_delta f)) (the (d_cell (the (fs_delta f)))) ws = Inr v' \<and>
         the (fs_delta f') = (the (fs_delta f))\<lparr>d_cell := Some v'\<rparr>))"
proof -
  obtain ch v where ch: "fs_delta f = Some ch" "d_cell ch = Some v" "ok k v" "channel_of_spec (fs_spec f) ch"
    and bat: "batching_reducer (d_reduce ch) (d_clone ch) (ok k)"
    by (rule lawful_delta [OF lawful kind sh])
  from ap kind ch(1) obtain i ch' u where scan: "scan_unique ErrInvalidStateUpdate is_overwrite 0 (-1) ws = Inr i"
    and da: "delta_Apply ch (map delta_write ws) = (ch', Inr u)" and f': "f' = f\<lparr>fs_delta := Some ch'\<rparr>" and ow: "ow = (0 \<le> i)"
    by (auto simp: fieldState_apply_def split: sum.splits prod.splits)
  have spec': "channel_of_spec (fs_spec f) ch'"
    using delta_Apply_same_spec [of ch "map delta_write ws"] da ch(4) same_spec_channel by (metis fst_conv)
  have cell: "\<exists>v'. d_cell ch' = Some v' \<and> ok k v'"
  proof (cases "\<forall>w \<in> set ws. \<not> is_overwrite w")
    case True
    show ?thesis
    proof (cases "ws = []")
      case True
      with da ch(2,3) show ?thesis by (simp add: delta_Apply_def)
    next
      case False
      from delta_apply_updates [OF bat ch(2,3) this] da True show ?thesis by (force simp: map_delta_write)
    qed
  next
    case False
    then obtain w where w: "filter is_overwrite ws = [w]"
      using scan by (cases rule: filter_count_cases [of is_overwrite ws]) (auto simp: filter_empty_conv scan_unique_many)
    then have "is_overwrite w" "w \<in> set ws" by (auto simp: filter_eq_Cons_iff)
    then obtain x where x: "w = VOverwrite x" "w \<in> set ws" using is_overwriteD by blast
    have "IsOverwrite (delta_write w') = is_overwrite w'" for w' :: "'a gval"
      by (cases w') (simp_all add: is_overwrite_def)
    with w have "filter IsOverwrite (map delta_write ws) = [OverwriteValue x]"
      by (simp add: filter_map comp_def x(1))
    from delta_Apply_one [OF this, of ch] da have "d_cell ch' = Some (d_clone ch x)" by auto
    moreover have "ok k (d_clone ch x)"
      using good x kind ch(4) by (fastforce simp: good_write_def is_overwrite_def overwritten_def channel_of_spec_def)
    ultimately show ?thesis by simp
  qed
  have "shaped ok k f'" using sh kind spec' cell by (auto simp: f' shaped_def)
  moreover have "(\<forall>w \<in> set ws. \<not> is_overwrite w) \<and>
      (if ws = [] then f' = f
       else \<exists>v'. d_reduce ch v ws = Inr v' \<and> ch' = ch\<lparr>d_cell := Some v'\<rparr>)" if "\<not> ow"
  proof -
    have plain: "\<forall>w \<in> set ws. \<not> is_overwrite w" using scan_overwrite_none [OF scan] that ow by blast
    show ?thesis
    proof (cases "ws = []")
      case True
      with da ch(1) show ?thesis by (cases f) (simp add: delta_Apply_def f')
    next
      case False
      from delta_apply_updates [OF bat ch(2,3) this] da plain False show ?thesis by (force simp: map_delta_write)
    qed
  qed
  ultimately show ?thesis using ch by (auto simp: f')
qed

lemma fieldState_apply_other:
  assumes kind: "f_kind (fs_spec f) \<noteq> FieldDelta" and sh: "shaped ok k f"
    and ap: "fieldState_apply f ws = (f', Inr ow)"
  shows "shaped ok k f' \<and> fs_spec f' = fs_spec f \<and> fs_available f'"
proof -
  obtain i where scan: "scan_unique ErrInvalidStateUpdate is_overwrite 0 (-1) ws = Inr i"
    using ap by (cases "scan_unique ErrInvalidStateUpdate is_overwrite 0 (-1) ws") (simp_all add: fieldState_apply_def)
  have "\<exists>v. f' = f\<lparr>fs_value := v, fs_available := True\<rparr>"
  proof (cases "0 \<le> i")
    case True
    with ap scan kind show ?thesis
      by (auto simp: fieldState_apply_def call1_def split: option.splits)
  next
    case False
    with ap scan kind sh show ?thesis
      by (cases "f_kind (fs_spec f)")
        (auto simp: fieldState_apply_def shaped_def call1_def Let_def split: option.splits sum.splits if_splits)
  qed
  with sh kind show ?thesis by (cases "f_kind (fs_spec f)") (auto simp: shaped_def)
qed

section \<open>Agreement after a checkpoint\<close>

lemma agrees_snapshot:
  assumes "lawful_field ok k (fs_spec f)" and "shaped ok k f" and "f_kind (fs_spec f) = FieldDelta \<Longrightarrow> snapshot"
    and "fs_available f \<or> f_kind (fs_spec f) \<noteq> FieldAggregate"
  shows "agrees ok k (durable snapshot f) h f"
proof (cases "f_kind (fs_spec f) = FieldDelta")
  case True
  obtain ch v where ch: "fs_delta f = Some ch" "d_cell ch = Some v" "ok k v" "channel_of_spec (fs_spec f) ch"
    and bat: "batching_reducer (d_reduce ch) (d_clone ch) (ok k)"
    by (rule lawful_delta [OF assms(1) True assms(2)])
  have "the (f_clone (fs_spec f)) v = v"
    using batching_reducer.ok_clone [OF bat ch(3)] ch(4) by (simp add: channel_of_spec_def)
  with True ch assms(3) show ?thesis
    by (simp add: agrees_def durable_def replays_def seed_base_def replayed_writes_def unwrap_def Let_def)
next
  case False
  obtain cl where cl: "f_clone (fs_spec f) = Some cl" "\<And>v. cl v = v"
    using assms(1) False field_validate_cloners by (fastforce simp: lawful_field_def)
  with assms False show ?thesis
    by (cases "f_kind (fs_spec f)") (auto simp: agrees_def durable_def shaped_def)
qed

lemma replays_extend:
  assumes "batching_reducer (d_reduce ch) (d_clone ch) ok" and "replays ok ch stored h" and "d_cell ch = Some v"
    and "\<forall>w \<in> set ws. \<not> is_overwrite w" and "d_reduce ch v ws = Inr v'" and "ws \<noteq> []" and "map pw_value pws = ws"
  shows "replays ok (ch\<lparr>d_cell := Some v'\<rparr>) None (extend_history stored h pws)"
proof -
  let ?b = "seed_base (d_initial ch) stored h" and ?ws = "replayed_writes stored h"
  have b: "ok ?b" and plain: "\<forall>w \<in> set ?ws. \<not> is_overwrite w"
    and cell: "if ?ws = [] then v = ?b else d_reduce ch ?b ?ws = Inr v"
    using assms(2,3) by (auto simp: replays_def Let_def)
  have base: "seed_base (d_initial ch) None (extend_history stored h pws) = ?b"
    by (simp add: seed_base_def extend_history_def split: option.split)
  have writes: "replayed_writes None (extend_history stored h pws) = ?ws @ ws"
    using assms(7) by (auto simp: replayed_writes_def extend_history_def split: option.split)
  have "d_reduce ch ?b (?ws @ ws) = Inr v'"
    using cell assms(5) batching_reducer.batching [OF assms(1) b, of ?ws v ws] by (auto split: if_splits)
  then show ?thesis
    using b plain assms(4,6) by (auto simp: replays_def base writes Let_def)
qed

lemma replays_keep:
  "replays ok ch stored h \<Longrightarrow> replays ok ch None (extend_history stored h [])"
  "replays ok ch stored h \<Longrightarrow> replays ok ch stored (extend_history stored h [])"
  by (auto simp: replays_def extend_history_def seed_base_def replayed_writes_def Let_def split: option.splits)

text \<open>A delta field written without an overwrite and not snapshotted.\<close>

lemma agrees_extend:
  assumes "lawful_field ok k (fs_spec f)" and "f_kind (fs_spec f) = FieldDelta" and "shaped ok k f"
    and "agrees ok k stored h f" and "\<forall>w \<in> set ws. good_write ok k f w" and "fieldState_apply f ws = (f', Inr False)"
    and "map pw_value pws = ws"
  shows "agrees ok k None (extend_history stored h pws) f'"
proof -
  obtain ch v where ch: "fs_delta f = Some ch" "d_cell ch = Some v" "ok k v"
    and bat: "batching_reducer (d_reduce ch) (d_clone ch) (ok k)"
    using lawful_delta [OF assms(1-3)] by metis
  have rep: "replays (ok k) ch stored h" using assms(2,4) ch(1) by (simp add: agrees_def)
  from fieldState_apply_delta [OF assms(1-3,5,6)] ch(1,2) have
    spec: "fs_spec f' = fs_spec f" and plain: "\<forall>w \<in> set ws. \<not> is_overwrite w"
    and res: "if ws = [] then f' = f else \<exists>v'. d_reduce ch v ws = Inr v' \<and> the (fs_delta f') = ch\<lparr>d_cell := Some v'\<rparr>"
    by auto
  show ?thesis
  proof (cases "ws = []")
    case True
    with res assms(7) rep replays_keep(1) ch(1) show ?thesis by (simp add: agrees_def assms(2))
  next
    case False
    with res obtain v' where "d_reduce ch v ws = Inr v'" "the (fs_delta f') = ch\<lparr>d_cell := Some v'\<rparr>" by auto
    with replays_extend [OF bat rep ch(2) plain _ False assms(7)] spec assms(2) show ?thesis by (simp add: agrees_def)
  qed
qed

lemma agrees_keep: "agrees ok k stored h f \<Longrightarrow> agrees ok k stored (extend_history stored h []) f"
  by (auto simp: agrees_def replays_keep(2) split: fieldKind.splits)

lemma agrees_other: "f_kind (fs_spec f) \<noteq> FieldDelta \<Longrightarrow> agrees ok k stored h f \<Longrightarrow> agrees ok k stored h' f"
  by (auto simp: agrees_def split: fieldKind.splits)

lemma consume_shaped:
  "fs_spec (consume_field f) = fs_spec f" "shaped ok k f \<Longrightarrow> shaped ok k (consume_field f)"
  "agrees ok k stored h (consume_field f) = agrees ok k stored h f"
  by (auto simp: consume_field_def shaped_def agrees_def split: fieldKind.splits)

section \<open>Rebuilding a machine\<close>

definition spec_of :: "'x schema \<Rightarrow> string \<Rightarrow> 'x field" where
  "spec_of schema k = (case map_of (sc_fields schema) k of Some spec \<Rightarrow> spec | None \<Rightarrow> unknown_spec)"

text \<open>A schema the application keeps its promises for; its fields are not control channels.\<close>

definition lawful_schema :: "(string \<Rightarrow> 'x gval \<Rightarrow> bool) \<Rightarrow> 'x schema \<Rightarrow> bool" where
  "lawful_schema ok schema \<longleftrightarrow> schema_Validate schema = Inr () \<and> distinct (dkeys (sc_fields schema)) \<and>
     (\<forall>(k, spec) \<in> set (sc_fields schema). lawful_field ok k spec \<and> \<not> reserved_channel k)"

definition machine_shaped :: "(string \<Rightarrow> 'x gval \<Rightarrow> bool) \<Rightarrow> 'x schema \<Rightarrow> 'x stateMachine \<Rightarrow> bool" where
  "machine_shaped ok schema m \<longleftrightarrow> sm_schema m = schema \<and> distinct (dkeys (sm_fields m)) \<and>
     (\<forall>k f. map_of (sm_fields m) k = Some f \<longrightarrow> fs_spec f = spec_of schema k \<and> shaped ok k f \<and> \<not> reserved_channel k \<and>
        (map_of (sc_fields schema) k = None \<longrightarrow> sc_allowUnknown schema \<and> fs_available f)) \<and>
     (\<forall>k. map_of (sc_fields schema) k \<noteq> None \<longrightarrow> map_of (sm_fields m) k \<noteq> None)"

definition machine_agrees ::
  "(string \<Rightarrow> 'x gval \<Rightarrow> bool) \<Rightarrow> 'x stateMachine \<Rightarrow> (string \<Rightarrow> 'x gval option) \<Rightarrow> (string \<Rightarrow> 'x deltaHistory) \<Rightarrow> bool" where
  "machine_agrees ok m val hist \<longleftrightarrow>
     (\<forall>k f. map_of (sm_fields m) k = Some f \<longrightarrow> agrees ok k (val k) (hist k) f) \<and>
     (\<forall>k. map_of (sm_fields m) k = None \<and> \<not> reserved_channel k \<longrightarrow> val k = None)"

lemma unknown_spec_fields [simp]: "f_kind unknown_spec = FieldLast" "f_clone unknown_spec = Some identityClone"
    "f_readView unknown_spec = Some identityClone"
  by (simp_all add: unknown_spec_def LastValue_def)

lemma lawful_unknown: "lawful_field ok k unknown_spec"
  by (simp add: lawful_field_def field_validate_def identityClone_def)

lemma lawful_spec_of: "lawful_schema ok schema \<Longrightarrow> lawful_field ok k (spec_of schema k)"
  by (auto simp: spec_of_def lawful_schema_def lawful_unknown split: option.split dest!: map_of_SomeD)

lemma machine_shapedD:
  assumes "machine_shaped ok schema m" and "map_of (sm_fields m) k = Some f"
  shows "fs_spec f = spec_of schema k" "shaped ok k f" "\<not> reserved_channel k"
    "map_of (sc_fields schema) k = None \<Longrightarrow> sc_allowUnknown schema \<and> fs_available f"
  using assms by (simp_all add: machine_shaped_def)

lemma shaped_wf: "lawful_field ok k (fs_spec f) \<Longrightarrow> shaped ok k f \<Longrightarrow> field_wf f"
  by (auto simp: lawful_field_def shaped_def field_wf_def split: fieldKind.splits option.splits)

lemma machine_shaped_wf:
  assumes "lawful_schema ok schema" and "machine_shaped ok schema m"
  shows "machine_wf m"
proof -
  have "field_wf f" if "map_of (sm_fields m) k = Some f" for k f
    using machine_shapedD [OF assms(2) that] lawful_spec_of [OF assms(1), of k] by (metis shaped_wf)
  with assms(2) show ?thesis by (simp add: machine_wf_iff machine_shaped_def)
qed

lemma fold_res_dput:
  assumes "\<And>k x. (k, x) \<in> set xs \<Longrightarrow> g k x = Inr (r k)"
  shows "\<exists>d'. fold_res (\<lambda>kx d. res_bind (g (fst kx) (snd kx)) (\<lambda>y. Inr (dput (fst kx) y d))) xs d = Inr d' \<and>
    (\<forall>k. map_of d' k = (if k \<in> fst ` set xs then Some (r k) else map_of d k))"
  using assms
proof (induction xs arbitrary: d)
  case (Cons kx xs)
  from Cons.IH [of "dput (fst kx) (r (fst kx)) d"] Cons.prems obtain d' where
    "fold_res (\<lambda>kx d. res_bind (g (fst kx) (snd kx)) (\<lambda>y. Inr (dput (fst kx) y d))) xs (dput (fst kx) (r (fst kx)) d) = Inr d'"
    "\<forall>k. map_of d' k = (if k \<in> fst ` set xs then Some (r k) else map_of (dput (fst kx) (r (fst kx)) d) k)"
    by auto
  with Cons.prems [of "fst kx" "snd kx"] show ?case by (intro exI [of _ d']) auto
qed simp

lemma add_stored_fields:
  assumes "\<And>k v. (k, v) \<in> set stored \<Longrightarrow> map_of fs k = None \<Longrightarrow> allow" and "distinct (dkeys stored)"
  shows "\<exists>fs'. fold_res (add_stored_field allow) stored fs = Inr fs' \<and>
    (\<forall>k. map_of fs' k = (case map_of fs k of Some f \<Rightarrow> Some f
       | None \<Rightarrow> map_option (\<lambda>v. (new_fieldState unknown_spec)\<lparr>fs_value := v, fs_available := True\<rparr>) (map_of stored k)))"
  using assms
proof (induction stored arbitrary: fs)
  case Nil
  show ?case by (auto split: option.split)
next
  case (Cons kv stored)
  obtain k v where kv: "kv = (k, v)" by (cases kv)
  with Cons.prems(2) have k: "map_of stored k = None" and dis: "distinct (dkeys stored)" by (auto simp: map_of_eq_None_iff)
  let ?fs = "if map_of fs k \<noteq> None then fs
    else dput k ((new_fieldState unknown_spec)\<lparr>fs_value := v, fs_available := True\<rparr>) fs"
  have step: "add_stored_field allow kv fs = Inr ?fs"
    using Cons.prems(1) [of k v] by (auto simp: add_stored_field_def kv)
  have allow: "allow" if "(k', v') \<in> set stored" "map_of ?fs k' = None" for k' v'
    using that Cons.prems(1) [of k' v'] by (auto split: if_splits)
  from Cons.IH [OF allow dis] obtain fs' where "fold_res (add_stored_field allow) stored ?fs = Inr fs' \<and>
    (\<forall>k'. map_of fs' k' = (case map_of ?fs k' of Some f \<Rightarrow> Some f
       | None \<Rightarrow> map_option (\<lambda>v. (new_fieldState unknown_spec)\<lparr>fs_value := v, fs_available := True\<rparr>) (map_of stored k')))" ..
  note fs' = this [THEN conjunct1] this [THEN conjunct2, rule_format]
  have "fold_res (add_stored_field allow) (kv # stored) fs = Inr fs'" using step fs'(1) by simp
  moreover have "map_of fs' k' = (case map_of fs k' of Some f \<Rightarrow> Some f
       | None \<Rightarrow> map_option (\<lambda>v. (new_fieldState unknown_spec)\<lparr>fs_value := v, fs_available := True\<rparr>) (map_of (kv # stored) k'))" for k'
    using fs'(2) [of k'] k by (cases "k' = k"; cases "map_of fs k"; cases "map_of fs k'") (simp_all add: kv)
  ultimately show ?case by (intro exI [of _ fs'] conjI allI)
qed

lemma new_field_no_history: "f_kind spec \<noteq> FieldDelta \<Longrightarrow> new_field spec stored h = new_field spec stored h'"
  by (simp add: new_field_def split: fieldKind.split)

text \<open>A checkpoint whose channels agree with a machine rebuilds it.\<close>

lemma newStateMachine_rebuilds:
  assumes lawful: "lawful_schema ok schema" and sh: "machine_shaped ok schema m" and ag: "machine_agrees ok m val hist"
    and stored: "\<And>k. map_of stored k = (if reserved_channel k then None else val k)" "distinct (dkeys stored)"
    and histories: "\<And>k spec. map_of (sc_fields schema) k = Some spec \<Longrightarrow> f_kind spec = FieldDelta \<Longrightarrow> map_of histories k = Some (hist k)"
  shows "\<exists>m'. newStateMachine schema stored histories = Inr m' \<and> sm_schema m' = schema \<and>
    map_of (sm_fields m') = map_of (sm_fields (consumeEphemeral m))"
proof -
  let ?f = "\<lambda>k. the (map_of (sm_fields m) k)"
  have new: "new_field spec (map_of stored k) (map_of histories k) = Inr (consume_field (?f k))"
    if ks: "(k, spec) \<in> set (sc_fields schema)" for k spec
  proof -
    have sp: "map_of (sc_fields schema) k = Some spec" using lawful ks by (simp add: lawful_schema_def)
    then obtain f where f: "map_of (sm_fields m) k = Some f" using sh by (auto simp: machine_shaped_def)
    note d = machine_shapedD [OF sh f]
    have spec: "fs_spec f = spec" using d(1) sp by (simp add: spec_of_def)
    have st: "map_of stored k = val k" using stored(1) d(3) by simp
    have "new_field (fs_spec f) (val k) (Some (hist k)) = Inr (consume_field f)"
      using lawful_spec_of [OF lawful, of k] d ag f by (intro new_field_rebuilds) (auto simp: machine_agrees_def)
    moreover have "new_field spec (val k) (map_of histories k) = new_field spec (val k) (Some (hist k))"
      using histories [OF sp] new_field_no_history by (cases "f_kind spec = FieldDelta") auto
    ultimately show ?thesis using f spec st by simp
  qed
  have body: "add_schema_field stored histories = (\<lambda>kx d.
      res_bind (new_field (snd kx) (map_of stored (fst kx)) (map_of histories (fst kx))) (\<lambda>y. Inr (dput (fst kx) y d)))"
    by (intro ext) (simp add: add_schema_field_def)
  obtain fs where fs: "fold_res (add_schema_field stored histories) (sc_fields schema) [] = Inr fs"
    "\<And>k. map_of fs k = (if k \<in> fst ` set (sc_fields schema) then Some (consume_field (?f k)) else None)"
    using fold_res_dput [of "sc_fields schema" "\<lambda>k spec. new_field spec (map_of stored k) (map_of histories k)"
        "\<lambda>k. consume_field (?f k)" "[]"] new unfolding body by auto
  have sch: "k \<in> fst ` set (sc_fields schema) \<longleftrightarrow> map_of (sc_fields schema) k \<noteq> None" for k
    by (simp add: mem_keys_iff)
  have unknown: "val k = Some v \<Longrightarrow> \<not> reserved_channel k \<Longrightarrow> map_of (sc_fields schema) k = None \<Longrightarrow>
      \<exists>f. map_of (sm_fields m) k = Some f \<and> sc_allowUnknown schema" for k v
    using ag machine_shapedD(4) [OF sh] by (cases "map_of (sm_fields m) k") (auto simp: machine_agrees_def)
  have allow: "sc_allowUnknown schema" if "(k, v) \<in> set stored" "map_of fs k = None" for k v
  proof -
    from that(1) stored(2) have "map_of stored k = Some v" by simp
    then have "\<not> reserved_channel k" "val k = Some v" using stored(1) [of k] by (auto split: if_splits)
    moreover have "map_of (sc_fields schema) k = None" using that(2) fs(2) [of k] sch by (auto split: if_splits)
    ultimately show ?thesis using unknown by blast
  qed
  from add_stored_fields [OF allow stored(2)] obtain fs' where "fold_res (add_stored_field (sc_allowUnknown schema)) stored fs = Inr fs' \<and>
    (\<forall>k. map_of fs' k = (case map_of fs k of Some f \<Rightarrow> Some f
       | None \<Rightarrow> map_option (\<lambda>v. (new_fieldState unknown_spec)\<lparr>fs_value := v, fs_available := True\<rparr>) (map_of stored k)))" ..
  note fs' = this [THEN conjunct1] this [THEN conjunct2, rule_format]
  have "map_of fs' k = map_option consume_field (map_of (sm_fields m) k)" for k
  proof (cases "map_of (sc_fields schema) k")
    case (Some spec)
    then obtain f where "map_of (sm_fields m) k = Some f" using sh by (auto simp: machine_shaped_def)
    with Some show ?thesis using fs'(2) [of k] fs(2) [of k] sch [of k] by simp
  next
    case None
    then have nk: "map_of fs k = None" using fs(2) [of k] sch [of k] by simp
    show ?thesis
    proof (cases "map_of (sm_fields m) k")
      case None
      then have "map_of stored k = None" using ag stored(1) [of k] by (auto simp: machine_agrees_def)
      with None nk fs'(2) [of k] show ?thesis by simp
    next
      case (Some f)
      note d = machine_shapedD [OF sh Some]
      have sp: "fs_spec f = unknown_spec" "fs_available f" using d None by (simp_all add: spec_of_def)
      moreover have "agrees ok k (val k) (hist k) f" using ag Some by (simp add: machine_agrees_def)
      ultimately have "val k = Some (fs_value f)" by (simp add: agrees_def)
      then have "map_of stored k = Some (fs_value f)" using stored(1) [of k] d(3) by simp
      moreover have "(new_fieldState unknown_spec)\<lparr>fs_value := fs_value f, fs_available := True\<rparr> = f"
        using d(2) sp by (cases f) (simp add: new_fieldState_def shaped_def)
      ultimately show ?thesis using fs'(2) [of k] nk Some sp by (simp add: consume_field_def)
    qed
  qed
  then have "map_of fs' = map_of (sm_fields (consumeEphemeral m))" by (simp add: fun_eq_iff)
  moreover have "newStateMachine schema stored histories = Inr \<lparr>sm_schema = schema, sm_fields = fs'\<rparr>"
    using lawful fs(1) fs'(1) by (simp add: newStateMachine_def lawful_schema_def)
  ultimately show ?thesis by simp
qed

end
