(* ===== verification/Durable_Runs.thy ===== *)
theory Durable_Runs
  imports Durability
begin

text \<open>
  The executor over a saver that keeps the contract: what persisting a checkpoint changes, and that a
  run of supersteps, an input, a state edit and a read keep the live state and the saver's in agreement.
\<close>

section \<open>Fresh identifiers and versions\<close>

text \<open>
  The clock readings stay below a bound, and random fractions never give two calls of \<^verbatim>\<open>NextVersion\<close>
  the same version.
\<close>

definition clock_bounded :: "env \<Rightarrow> nat \<Rightarrow> bool" where
  "clock_bounded env B \<longleftrightarrow> (\<forall>t. unat (id_clock (e_nano env t) 0) \<le> B)"

definition versions_differ :: "('x, 's) saver \<Rightarrow> bool" where
  "versions_differ sv \<longleftrightarrow> (\<forall>t t' c c' v v'. t \<noteq> t' \<and> sv_NextVersion sv t c = Inr v \<and> sv_NextVersion sv t' c' = Inr v' \<longrightarrow> v \<noteq> v')"

definition issued_ids :: "(config \<Rightarrow> bool) \<Rightarrow> config \<Rightarrow> 64 word \<Rightarrow> bool" where
  "issued_ids has cfg clock \<longleftrightarrow>
     (\<forall>i. has (cfg\<lparr>cf_checkpointID := i\<rparr>) \<longrightarrow> (\<exists>c step r. i = id_text c step r \<and> c \<le> clock))"

definition fresh_versions :: "('x, 's) saver \<Rightarrow> (string \<Rightarrow> string \<Rightarrow> bool) \<Rightarrow> nat \<Rightarrow> bool" where
  "fresh_versions sv unused tick \<longleftrightarrow>
     (\<forall>t \<ge> tick. \<forall>cur v c. sv_NextVersion sv t cur = Inr v \<longrightarrow> unused c v)"

lemma id_clock_bound:
  assumes "unat (id_clock n 0) \<le> B"
  shows "unat (id_clock n prev) \<le> max B (Suc (unat prev))"
proof -
  let ?now = "word_of_int (if n < 0 then - (- n div 100) else n div 100) + gregorianUnixOffset100ns :: 64 word"
  have "unat ?now \<le> unat (id_clock n 0)"
    by (auto simp: id_clock_def Let_def word_le_nat_alt)
  moreover have "unat (prev + 1) \<le> Suc (unat prev)" by (simp add: unat_word_ariths)
  ultimately show ?thesis using assms by (auto simp: id_clock_def Let_def)
qed

lemma id_text_nonempty: "id_text c s r \<noteq> []"
  by (simp add: id_text_def)

lemma new_id_effect:
  assumes "new_id env step w = (w', Inr i)" and "clock_bounded env B" and "unat (w_clock w) \<le> B + w_tick w"
    and "B + w_tick w' < 2 ^ 60"
  shows "w' = w\<lparr>w_clock := w_clock w', w_tick := Suc (w_tick w)\<rparr>" "w_clock w < w_clock w'"
    "unat (w_clock w') \<le> B + w_tick w'" "\<exists>r. i = id_text (w_clock w') step r"
    "\<And>c s r. c \<le> w_clock w \<Longrightarrow> id_text c s r < i"
proof -
  let ?c = "id_clock (e_nano env (w_tick w)) (w_clock w)"
  from assms(1) have w': "w' = w\<lparr>w_clock := ?c, w_tick := Suc (w_tick w)\<rparr>"
    and i: "\<exists>r. i = id_text ?c step r"
    by (auto simp: new_id_def NewID_def Let_def res_simps)
  show a: "w' = w\<lparr>w_clock := w_clock w', w_tick := Suc (w_tick w)\<rparr>" by (simp add: w')
  show b: "unat (w_clock w') \<le> B + w_tick w'"
    using id_clock_bound [of "e_nano env (w_tick w)" B "w_clock w"] assms(2,3) by (auto simp: w' clock_bounded_def)
  have "unat (w_clock w) < 2 ^ 60" using assms(3,4) by (simp add: w')
  then have "w_clock w < - 1" by (simp add: word_less_nat_alt unsigned_minus_1_eq_mask mask_eq_exp_minus_1)
  then show lt: "w_clock w < w_clock w'" by (simp add: w' id_clock_greater)
  show "\<exists>r. i = id_text (w_clock w') step r" using i by (simp add: w')
  show "id_text c s r < i" if "c \<le> w_clock w" for c s r
  proof -
    have "c < w_clock w'" "unat (w_clock w') < 2 ^ 60" using that lt b assms(4) by auto
    with i show ?thesis using id_text_less by (auto simp: w')
  qed
qed

lemma next_versions_effect:
  assumes "next_versions sv keys vs nvs w = (w', Inr (vs', nvs'))" and "distinct keys"
  shows "\<exists>nv. w' = w\<lparr>w_tick := w_tick w + length keys\<rparr> \<and>
    (\<forall>c \<in> set keys. \<exists>t cur. w_tick w \<le> t \<and> t < w_tick w' \<and> sv_NextVersion sv t cur = Inr (nv c)) \<and>
    (\<forall>c. map_of vs' c = (if c \<in> set keys then Some (nv c) else map_of vs c)) \<and>
    (\<forall>c. map_of nvs' c = (if c \<in> set keys then Some (nv c) else map_of nvs c)) \<and>
    (distinct (dkeys vs) \<longrightarrow> distinct (dkeys vs')) \<and> (distinct (dkeys nvs) \<longrightarrow> distinct (dkeys nvs'))"
  using assms
proof (induction keys arbitrary: vs nvs w)
  case Nil
  then show ?case by (auto simp: act_simps)
next
  case (Cons key keys)
  let ?w = "w\<lparr>w_tick := Suc (w_tick w)\<rparr>"
  from Cons.prems(1) obtain v where v: "sv_NextVersion sv (w_tick w) (dget [] vs key) = Inr v"
    and rest: "next_versions sv keys (dput key v vs) (dput key v nvs) ?w = (w', Inr (vs', nvs'))"
    by (auto simp: act_simps)
  from Cons.IH [OF rest] Cons.prems(2) obtain nv where nv: "w' = ?w\<lparr>w_tick := w_tick ?w + length keys\<rparr>"
    "\<forall>c \<in> set keys. \<exists>t cur. w_tick ?w \<le> t \<and> t < w_tick w' \<and> sv_NextVersion sv t cur = Inr (nv c)"
    "\<forall>c. map_of vs' c = (if c \<in> set keys then Some (nv c) else map_of (dput key v vs) c)"
    "\<forall>c. map_of nvs' c = (if c \<in> set keys then Some (nv c) else map_of (dput key v nvs) c)"
    "distinct (dkeys (dput key v vs)) \<longrightarrow> distinct (dkeys vs')" "distinct (dkeys (dput key v nvs)) \<longrightarrow> distinct (dkeys nvs')"
    by auto
  have "\<forall>c \<in> set (key # keys). \<exists>t cur. w_tick w \<le> t \<and> t < w_tick w' \<and> sv_NextVersion sv t cur = Inr ((nv(key := v)) c)"
  proof
    fix c assume "c \<in> set (key # keys)"
    then consider "c = key" | "c \<noteq> key" "c \<in> set keys" by auto
    then show "\<exists>t cur. w_tick w \<le> t \<and> t < w_tick w' \<and> sv_NextVersion sv t cur = Inr ((nv(key := v)) c)"
    proof cases
      case 1
      with v nv(1) show ?thesis by (intro exI [of _ "w_tick w"]) auto
    next
      case 2
      with nv(2) obtain t cur where "w_tick ?w \<le> t" "t < w_tick w'" "sv_NextVersion sv t cur = Inr (nv c)" by blast
      with 2 show ?thesis by (intro exI [of _ t]) auto
    qed
  qed
  with nv Cons.prems(2) show ?case by (intro exI [of _ "nv(key := v)"]) auto
qed

section \<open>What persisting changes\<close>

context saver_contract begin

definition world_ok :: "env \<Rightarrow> nat \<Rightarrow> config \<Rightarrow> ('x, 's) world \<Rightarrow> bool" where
  "world_ok env B cfg w \<longleftrightarrow> inv (w_saver w) \<and> unat (w_clock w) \<le> B + w_tick w \<and>
     issued_ids (has (w_saver w)) cfg (w_clock w) \<and> fresh_versions sv (unused (w_saver w) cfg) (w_tick w)"

lemma base_versions_effect:
  assumes "base_versions env sv pc prev w = (w', Inr base)" and "inv (w_saver w)"
    and "cf_checkpointID pc = [] \<and> cp_channelVersions prev = [] \<or>
      has (w_saver w) pc \<and> (cp_channelVersions prev = [] \<or> cp_channelVersions prev = vers (w_saver w) pc)"
  shows "base = (if cf_checkpointID pc = [] then [] else vers (w_saver w) pc)" "\<exists>n. w' = w\<lparr>w_tick := w_tick w + n\<rparr>"
proof -
  consider (read) "cp_channelVersions prev = []" "cf_checkpointID pc \<noteq> []" "has (w_saver w) pc"
    | (given) "base = cp_channelVersions prev" "w' = w" "cp_channelVersions prev \<noteq> [] \<or> cf_checkpointID pc = []"
    using assms(1,3) by (auto simp: base_versions_def act_simps split: if_splits)
  then have "base = (if cf_checkpointID pc = [] then [] else vers (w_saver w) pc) \<and> (\<exists>n. w' = w\<lparr>w_tick := w_tick w + n\<rparr>)"
  proof cases
    case read
    from read assms(1) obtain tuple where
      t: "sv_GetTuple sv (e_ctx env (w_tick w)) pc (w_saver w) = Inr tuple" "w' = w\<lparr>w_tick := Suc (w_tick w)\<rparr>"
      "base = (case tuple of None \<Rightarrow> cp_channelVersions prev | Some t \<Rightarrow> cp_channelVersions (tp_checkpoint t))"
      by (auto simp: base_versions_def act_simps)
    from get_None [OF t(1)] get [OF assms(2) read(3)] t read(2) show ?thesis
      by (auto intro: exI [of _ 1])
  next
    case given
    have "w = w\<lparr>w_tick := w_tick w + 0\<rparr>" by simp
    with given assms(3) has_id show ?thesis by fastforce
  qed
  then show "base = (if cf_checkpointID pc = [] then [] else vers (w_saver w) pc)" "\<exists>n. w' = w\<lparr>w_tick := w_tick w + n\<rparr>"
    by blast+
qed

end

context saver_contract begin

lemma persist_effect:
  assumes sav: "co_saver (cg_options g) = Some sv"
    and per: "persist env g pc prev m tasks input w = (w', Inr (cfg', md))"
    and ok: "world_ok env B pc w" and differ: "versions_differ sv" and clock: "clock_bounded env B" and bound: "B + w_tick w' < 2 ^ 60"
    and par: "cf_checkpointID pc = [] \<and> cp_channelVersions prev = [] \<or>
      has (w_saver w) pc \<and> (cp_channelVersions prev = [] \<or> cp_channelVersions prev = vers (w_saver w) pc)"
  shows "\<exists>values. checkpointValues m (snd (count_fields input m)) = Inr values \<and> world_ok env B pc w' \<and>
    cfg' = pc\<lparr>cf_checkpointID := cf_checkpointID cfg'\<rparr> \<and> has (w_saver w') cfg' \<and> w_tick w \<le> w_tick w' \<and>
    meta (w_saver w') cfg' = md \<and> pend (w_saver w') cfg' = [] \<and>
    (\<forall>j. has (w_saver w') (pc\<lparr>cf_checkpointID := j\<rparr>) \<longrightarrow> j \<le> cf_checkpointID cfg') \<and>
    (\<forall>c. val (w_saver w') cfg' c =
       (if c \<in> set (version_keys input (snd (count_fields input m)))
        then map_of (persisted_values values tasks (mi_interrupts input)) c
        else if cf_checkpointID pc = [] then None else val (w_saver w) pc c)) \<and>
    (\<forall>c. hist (w_saver w') cfg' c =
       (if cf_checkpointID pc = [] then empty_history
        else extend_history (val (w_saver w) pc c) (hist (w_saver w) pc c) (of_channel c (pend (w_saver w) pc))))"
proof -
  let ?snaps = "snd (count_fields input m)" and ?s = "w_saver w"
  let ?keys = "version_keys input ?snaps"
  obtain vs0 base w1 versions nvs w2 i w3 cp where
    vals0: "checkpointValues m ?snaps = Inr vs0"
    and base: "base_versions env sv pc prev w = (w1, Inr base)"
    and nv: "next_versions sv ?keys base [] w1 = (w2, Inr (versions, nvs))"
    and idn: "new_id env (mi_step input) w2 = (w3, Inr i)"
    and sput: "act_saver env (\<lambda>ctx. sv_Put sv ctx pc cp md nvs) (w3\<lparr>w_tick := Suc (w_tick w3)\<rparr>) = (w', Inr cfg')"
    and cp: "cp_id cp = i" "cp_channelVersions cp = versions"
      "cp_channelValues cp = persisted_values vs0 tasks (mi_interrupts input)"
  proof -
    from per sav show thesis
      by (auto simp: persist_def Let_def act_simps case_prod_unfold intro: that)
  qed
  have keys: "distinct ?keys" by (simp add: version_keys_def uniqueSorted_def)
  have inv0: "inv ?s" using ok by (simp add: world_ok_def)
  have b: "base = (if cf_checkpointID pc = [] then [] else vers ?s pc)" "\<exists>n. w1 = w\<lparr>w_tick := w_tick w + n\<rparr>"
    using base_versions_effect [OF base inv0 par] by blast+
  then obtain n where w1: "w1 = w\<lparr>w_tick := w_tick w + n\<rparr>" by blast
  obtain f where w2: "w2 = w1\<lparr>w_tick := w_tick w1 + length ?keys\<rparr>"
    and f: "\<forall>c \<in> set ?keys. \<exists>t cur. w_tick w1 \<le> t \<and> t < w_tick w2 \<and> sv_NextVersion sv t cur = Inr (f c)"
    and vs: "\<forall>c. map_of versions c = (if c \<in> set ?keys then Some (f c) else map_of base c)"
    and nvs: "\<forall>c. map_of nvs c = (if c \<in> set ?keys then Some (f c) else None)"
    and dv: "distinct (dkeys base) \<longrightarrow> distinct (dkeys versions)" and dn: "distinct (dkeys nvs)"
    using next_versions_effect [OF nv keys] by auto
  have w': "w' = w3\<lparr>w_saver := w_saver w', w_tick := Suc (Suc (w_tick w3))\<rparr>"
    and putr: "sv_Put sv (e_ctx env (Suc (w_tick w3))) pc cp md nvs (w_saver w3) = (w_saver w', Inr cfg')"
    using sput by (auto simp: act_saver_def split: prod.splits)
  have clk: "unat (w_clock w2) \<le> B + w_tick w2" using ok by (auto simp: world_ok_def w2 w1)
  have tick3: "w_tick w' = Suc (Suc (w_tick w3))" by (subst w') simp
  have bound3: "B + w_tick w3 < 2 ^ 60" using bound tick3 by linarith
  note I = new_id_effect [OF idn clock clk bound3]
  have s3: "w_saver w3 = ?s" "w_clock w2 = w_clock w" by (subst I(1), simp add: w2 w1) (simp add: w2 w1)
  have older: "j < i" if "has ?s (pc\<lparr>cf_checkpointID := j\<rparr>)" for j
    using ok that I(5) s3(2) unfolding world_ok_def issued_ids_def by metis
  have fresh: "\<not> has ?s (pc\<lparr>cf_checkpointID := i\<rparr>)" using older by blast
  have old: "cf_checkpointID pc = [] \<or> has ?s pc \<and> cf_checkpointID pc < cp_id cp"
    using par older [of "cf_checkpointID pc"] cp(1) by auto
  have db: "distinct (dkeys base)" using b(1) get [OF inv0, of pc] par has_id by auto
  have ticks: "w_tick w \<le> w_tick w1" "w_tick w2 \<le> w_tick w'" by (simp_all add: w1 tick3) (subst I(1), simp)
  have tick_le: "w_tick w \<le> w_tick w'" using ticks by (simp add: w2)
  have c1: "unused ?s pc c v \<and> map_of (cp_channelVersions cp) c = Some v" if "map_of nvs c = Some v" for c v
    using that nvs f vs ok ticks(1) cp(2) unfolding world_ok_def fresh_versions_def
    by (metis option.distinct(1) option.inject order.trans)
  have c2: "map_of nvs c = Some v \<or> has ?s pc \<and> map_of nvs c = None \<and> map_of (vers ?s pc) c = Some v"
    if "map_of (cp_channelVersions cp) c = Some v" for c v
    using that nvs vs cp(2) b(1) par by (auto split: if_splits)
  have dv': "distinct (dkeys (cp_channelVersions cp))" using dv db cp(2) by simp
  note P = put [OF inv0 putr [unfolded s3(1)] old fresh [folded cp(1)] dn dv' c1 c2]
  have cfg': "cfg' = pc\<lparr>cf_checkpointID := i\<rparr>" using P cp(1) by blast
  have "world_ok env B pc w'" unfolding world_ok_def
  proof (intro conjI)
    show "inv (w_saver w')" using P by blast
    show "unat (w_clock w') \<le> B + w_tick w'" using I(3) by (subst w') (simp add: tick3)
    have "w_clock w' = w_clock w3" by (subst w') simp
    with P I(2,4) s3(2) ok cp(1) show "issued_ids (has (w_saver w')) pc (w_clock w')"
      unfolding issued_ids_def world_ok_def by (metis order.refl order.trans order_less_imp_le)
    show "fresh_versions sv (unused (w_saver w') pc) (w_tick w')"
      unfolding fresh_versions_def
    proof (intro allI impI)
      fix t cur v c
      assume t: "w_tick w' \<le> t" and v: "sv_NextVersion sv t cur = Inr v"
      have "unused ?s pc c v"
        using ok t v ticks unfolding world_ok_def fresh_versions_def by (metis tick_le order.trans)
      moreover have "map_of nvs c \<noteq> Some v"
      proof
        assume a: "map_of nvs c = Some v"
        with nvs have "c \<in> set ?keys" "f c = v" by (auto split: if_splits)
        with f obtain t' cur' where "t' < w_tick w2" "sv_NextVersion sv t' cur' = Inr v" by blast
        with t v ticks(2) differ show False unfolding versions_differ_def by (metis leD order.strict_trans1 order.trans)
      qed
      ultimately show "unused (w_saver w') pc c v" using P by blast
    qed
  qed
  moreover have Pv: "val (w_saver w') cfg' c = (if map_of nvs c \<noteq> None then map_of (cp_channelValues cp) c
      else if map_of (cp_channelVersions cp) c = None then None else val ?s pc c)" for c
    using P by blast
  have "val (w_saver w') cfg' c =
       (if c \<in> set ?keys then map_of (persisted_values vs0 tasks (mi_interrupts input)) c
        else if cf_checkpointID pc = [] then None else val ?s pc c)" for c
  proof (cases "c \<in> set ?keys")
    case True
    then have "map_of nvs c \<noteq> None" using nvs by simp
    with Pv [of c] True cp(3) show ?thesis by simp
  next
    case False
    then have "map_of nvs c = None" "map_of (cp_channelVersions cp) c = map_of base c" using nvs vs cp(2) by simp_all
    with Pv [of c] have "val (w_saver w') cfg' c = (if map_of base c = None then None else val ?s pc c)" by simp
    with False b(1) par val_vers [of ?s pc c] has_id show ?thesis by auto
  qed
  moreover have "hist (w_saver w') cfg' c = (if cf_checkpointID pc = [] then empty_history
        else extend_history (val ?s pc c) (hist ?s pc c) (of_channel c (pend ?s pc)))" for c
    using P by blast
  moreover have "cfg' = pc\<lparr>cf_checkpointID := cf_checkpointID cfg'\<rparr>" by (simp add: cfg')
  moreover have "has (w_saver w') cfg'" "meta (w_saver w') cfg' = md" "pend (w_saver w') cfg' = []" using P by blast+
  moreover have "j \<le> cf_checkpointID cfg'" if "has (w_saver w') (pc\<lparr>cf_checkpointID := j\<rparr>)" for j
  proof -
    from that P cp(1) have "j = i \<or> has ?s (pc\<lparr>cf_checkpointID := j\<rparr>)" by blast
    with older show ?thesis by (auto simp: cfg' intro: less_imp_le)
  qed
  ultimately show ?thesis using vals0 tick_le by blast
qed

end

section \<open>Agreement through a superstep\<close>

lemma map_of_deltaFields:
  assumes "distinct (dkeys (sm_fields m))"
  shows "map_of (deltaFields m) k = (case map_of (sm_fields m) k of
      Some f \<Rightarrow> if f_kind (fs_spec f) = FieldDelta \<and> (case fs_delta f of None \<Rightarrow> False | Some ch \<Rightarrow> IsAvailable ch)
        then Some (f_snapshotFrequency (fs_spec f)) else None
    | None \<Rightarrow> None)"
proof -
  have "map_of (map (\<lambda>(key, f). (key, g f)) (filter (\<lambda>(key, f). P f) fs)) k =
      (case map_of fs k of Some f \<Rightarrow> if P f then Some (g f) else None | None \<Rightarrow> None)"
    if "distinct (dkeys fs)" for fs :: "(string, 'a fieldState) dict" and g :: "'a fieldState \<Rightarrow> 64 word" and P
    using that
  proof (induction fs)
    case (Cons kf fs)
    obtain a f where kf: "kf = (a, f)" by (cases kf)
    with Cons.prems have "map_of fs a = None" by (simp add: map_of_eq_None_iff)
    with Cons kf show ?case by (auto split: option.splits)
  qed simp
  from this [OF assms] show ?thesis unfolding deltaFields_def .
qed

text \<open>The fields a checkpoint snapshots.\<close>

lemma snapshots_taken:
  assumes sh: "machine_shaped ok schema m" and k: "map_of (sm_fields m) k = Some f"
  shows "map_of (snd (count_fields input m)) k = (if f_kind (fs_spec f) = FieldDelta \<and>
      takes_snapshot input k (f_snapshotFrequency (fs_spec f)) (advance input k) then Some True else None)"
proof -
  have dis: "distinct (dkeys (sm_fields m))" using sh by (simp add: machine_shaped_def)
  have "f_kind (fs_spec f) = FieldDelta \<Longrightarrow> case fs_delta f of None \<Rightarrow> False | Some ch \<Rightarrow> IsAvailable ch"
    using machine_shapedD(2) [OF sh k] by (auto simp: shaped_def IsAvailable_def split: option.splits)
  then show ?thesis
    using count_fields_spec(2) [OF distinct_deltaFields [OF dis], of input k] k
    by (auto simp: map_of_deltaFields [OF dis])
qed

lemma snapshots_known:
  assumes "machine_shaped ok schema m" and "map_of (snd (count_fields input m)) k \<noteq> None"
  shows "map_of (sm_fields m) k \<noteq> None"
proof -
  have dis: "distinct (dkeys (sm_fields m))" using assms(1) by (simp add: machine_shaped_def)
  show ?thesis
    using count_fields_spec(2) [OF distinct_deltaFields [OF dis], of input k] assms(2)
    by (auto simp: map_of_deltaFields [OF dis] split: option.splits)
qed

lemma version_keys_iff:
  "k \<in> set (version_keys input snaps) \<longleftrightarrow>
   k \<in> set (mi_updated input) \<or> map_of snaps k \<noteq> None \<or> k = ChannelTasks \<or> k = ChannelInterrupt"
  by (auto simp: version_keys_def uniqueSorted_def mem_keys_iff)

lemma persisted_values_lookup:
  "\<not> reserved_channel k \<Longrightarrow> map_of (persisted_values vs tasks is) k = map_of vs k"
  by (auto simp: persisted_values_def reserved_channel_def Let_def)

lemma written_known:
  assumes "sm_apply m updates = (m', Inr ow)" and "\<forall>u \<in> set updates. distinct (dkeys u)"
  shows "map_of (sm_fields m') k = None \<longleftrightarrow> map_of (sm_fields m) k = None \<and> \<not> written updates k"
  using sm_apply_success [OF assms, of k] by auto

definition good_updates ::
  "(string \<Rightarrow> 'x gval \<Rightarrow> bool) \<Rightarrow> 'x schema \<Rightarrow> 'x vals list \<Rightarrow> bool" where
  "good_updates ok schema updates \<longleftrightarrow>
     (\<forall>u \<in> set updates. distinct (dkeys u) \<and> (\<forall>k. map_of u k \<noteq> None \<longrightarrow> \<not> reserved_channel k)) \<and>
     (\<forall>k w. w \<in> set (writes_of updates k) \<and> f_kind (spec_of schema k) = FieldDelta \<and> is_overwrite w \<longrightarrow>
        ok k (the (f_clone (spec_of schema k)) (overwritten w)))"

text \<open>Applying updates keeps the shape of the machine.\<close>

lemma apply_shaped:
  assumes lawful: "lawful_schema ok schema" and sh: "machine_shaped ok schema m" and good: "good_updates ok schema updates"
    and ap: "sm_apply m updates = (m', Inr ow)"
  shows "machine_shaped ok schema m' \<and>
    (\<forall>k f'. map_of (sm_fields m') k = Some f' \<longrightarrow>
      (if written updates k
       then (\<exists>f. f = field_or_new m k \<and> fs_spec f = spec_of schema k \<and> shaped ok k f \<and>
         fieldState_apply f (writes_of updates k) = (f', Inr (dget False ow k)))
       else map_of (sm_fields m) k = Some f'))"
proof -
  have dis: "\<forall>u \<in> set updates. distinct (dkeys u)" using good by (simp add: good_updates_def)
  note S = sm_apply_success [OF ap dis]
  have schema: "sm_schema m' = schema" using sm_apply_schema [OF ap] sh by (simp add: machine_shaped_def)
  have dist': "distinct (dkeys (sm_fields m'))"
    using sm_apply_wf [OF machine_shaped_wf [OF lawful sh], of updates] ap by (simp add: machine_wf_def)
  have new: "shaped ok k (new_fieldState unknown_spec)" for k by (simp add: shaped_def new_fieldState_def)
  have old: "fs_spec (field_or_new m k) = spec_of schema k \<and> shaped ok k (field_or_new m k)" for k
  proof (cases "map_of (sm_fields m) k")
    case None
    then have "map_of (sc_fields schema) k = None" using sh by (auto simp: machine_shaped_def)
    with None new show ?thesis by (simp add: field_or_new_def spec_of_def) (simp add: new_fieldState_def)
  next
    case (Some f)
    with machine_shapedD [OF sh Some] show ?thesis by (simp add: field_or_new_def)
  qed
  have each: "fs_spec f' = spec_of schema k \<and> shaped ok k f' \<and> \<not> reserved_channel k \<and>
      (map_of (sc_fields schema) k = None \<longrightarrow> sc_allowUnknown schema \<and> fs_available f') \<and>
      (if written updates k
       then fieldState_apply (field_or_new m k) (writes_of updates k) = (f', Inr (dget False ow k))
       else map_of (sm_fields m) k = Some f')"
    if f': "map_of (sm_fields m') k = Some f'" for k f'
  proof (cases "written updates k")
    case False
    with S [of k] f' have "map_of (sm_fields m) k = Some f'" by simp
    with machine_shapedD [OF sh this] False show ?thesis by simp
  next
    case True
    let ?f = "field_or_new m k"
    have ap': "fieldState_apply ?f (writes_of updates k) = (f', Inr (dget False ow k))"
      and allowed: "map_of (sm_fields m) k \<noteq> None \<or> sc_allowUnknown (sm_schema m)"
      using S [of k] f' True by (auto simp: prod_eq_iff)
    have res: "\<not> reserved_channel k" using True good by (auto simp: written_def good_updates_def)
    have lf: "lawful_field ok k (fs_spec ?f)" using lawful_spec_of [OF lawful] old by simp
    have "shaped ok k f' \<and> fs_spec f' = fs_spec ?f \<and> (f_kind (fs_spec ?f) \<noteq> FieldDelta \<longrightarrow> fs_available f')"
    proof (cases "f_kind (fs_spec ?f) = FieldDelta")
      case True
      have "\<forall>w \<in> set (writes_of updates k). good_write ok k ?f w"
        using good old by (auto simp: good_updates_def good_write_def)
      from fieldState_apply_delta [OF lf True _ this ap'] old True show ?thesis by simp
    next
      case False
      from fieldState_apply_other [OF False _ ap', of ok k] old show ?thesis by blast
    qed
    moreover have "map_of (sc_fields schema) k = None \<Longrightarrow> sc_allowUnknown schema \<and> f_kind (fs_spec ?f) \<noteq> FieldDelta"
      using allowed sh machine_shapedD(4) [OF sh] old by (auto simp: machine_shaped_def spec_of_def)
    ultimately show ?thesis using True ap' res old by simp
  qed
  have known: "map_of (sm_fields m') k \<noteq> None" if "map_of (sc_fields schema) k \<noteq> None" for k
    using that sh written_known [OF ap dis, of k] by (auto simp: machine_shaped_def)
  show ?thesis using each schema dist' known old unfolding machine_shaped_def by simp
qed

text \<open>
  One checkpoint: the parent's channels agree with the machine before the updates, the pending writes
  of the parent are the updates, and the overwritten fields are snapshotted. Then the new channels
  agree with the machine after the updates.
\<close>

lemma persist_agrees:
  assumes lawful: "lawful_schema ok schema" and sh: "machine_shaped ok schema m" and good: "good_updates ok schema updates"
    and ap: "sm_apply m updates = (m', Inr ow)" and ag: "machine_agrees ok m val0 hist0"
    and upd: "set (mi_updated input) = {k. written updates k}"
    and vs: "checkpointValues m' (snd (count_fields input m')) = Inr vs"
    and val': "\<And>k. val' k = (if k \<in> set (version_keys input (snd (count_fields input m')))
        then map_of (persisted_values vs tasks is) k else val0 k)"
    and snap: "mi_forceDeltaSnapshots input \<or> mi_overwrites input = ow \<and>
       (\<forall>k. \<not> reserved_channel k \<longrightarrow> (\<exists>pws. map pw_value pws = writes_of updates k \<and> hist' k = extend_history (val0 k) (hist0 k) pws))"
  shows "machine_shaped ok schema m' \<and> machine_agrees ok m' val' hist'"
proof -
  let ?snaps = "snd (count_fields input m')"
  have sh': "machine_shaped ok schema m'" and each: "\<And>k f'. map_of (sm_fields m') k = Some f' \<Longrightarrow>
      (if written updates k
       then (\<exists>f. f = field_or_new m k \<and> fs_spec f = spec_of schema k \<and> shaped ok k f \<and>
         fieldState_apply f (writes_of updates k) = (f', Inr (dget False ow k)))
       else map_of (sm_fields m) k = Some f')"
    using apply_shaped [OF lawful sh good ap] by blast+
  have dis: "\<forall>u \<in> set updates. distinct (dkeys u)" using good by (simp add: good_updates_def)
  have wf': "machine_wf m'" using lawful sh' by (rule machine_shaped_wf)
  have stored: "map_of vs k = Option.bind (map_of (sm_fields m') k) (durable (dget False ?snaps k))" for k
    using checkpointValues_durable [OF wf', of ?snaps] vs by auto
  have ag': "agrees ok k (val' k) (hist' k) f'" if f': "map_of (sm_fields m') k = Some f'" for k f'
  proof -
    note d = machine_shapedD [OF sh' f']
    have lf: "lawful_field ok k (fs_spec f')" using lawful_spec_of [OF lawful, of k] d(1) by simp
    have avail: "fs_available f' \<or> f_kind (fs_spec f') \<noteq> FieldAggregate" using d(2) by (auto simp: shaped_def)
    have snapk: "map_of ?snaps k = (if f_kind (fs_spec f') = FieldDelta \<and>
        takes_snapshot input k (f_snapshotFrequency (fs_spec f')) (advance input k) then Some True else None)"
      by (rule snapshots_taken [OF sh' f'])
    have rk: "k \<noteq> ChannelTasks" "k \<noteq> ChannelInterrupt" using d(3) by (auto simp: reserved_channel_def)
    show ?thesis
    proof (cases "written updates k \<or> map_of ?snaps k \<noteq> None")
      case True
      then have v: "val' k = durable (dget False ?snaps k) f'"
        using val' [of k] upd stored [of k] f' d(3) by (auto simp: version_keys_iff persisted_values_lookup)
      show ?thesis
      proof (cases "f_kind (fs_spec f') = FieldDelta \<and> map_of ?snaps k = None")
        case False
        then have "f_kind (fs_spec f') = FieldDelta \<Longrightarrow> dget False ?snaps k" using snapk by (auto simp: dget_def split: if_splits)
        with agrees_snapshot [OF lf d(2) _ avail] v show ?thesis by simp
      next
        case delta: True
        with True have wr: "written updates k" by simp
        from delta snapk have "\<not> takes_snapshot input k (f_snapshotFrequency (fs_spec f')) (advance input k)" by (auto split: if_splits)
        then have nf: "\<not> mi_forceDeltaSnapshots input" "\<not> dget False (mi_overwrites input) k" by (auto simp: takes_snapshot_def)
        with snap d(3) obtain pws where ow: "mi_overwrites input = ow" and pws: "map pw_value pws = writes_of updates k"
          "hist' k = extend_history (val0 k) (hist0 k) pws" by blast
        let ?f = "field_or_new m k"
        from each [OF f'] wr have f: "fs_spec ?f = spec_of schema k" "shaped ok k ?f"
          "fieldState_apply ?f (writes_of updates k) = (f', Inr (dget False ow k))" by auto
        have "map_of (sm_fields m) k \<noteq> None"
        proof
          assume "map_of (sm_fields m) k = None"
          then have "map_of (sc_fields schema) k = None" using sh by (auto simp: machine_shaped_def)
          with delta d(1) show False by (simp add: spec_of_def)
        qed
        then have "agrees ok k (val0 k) (hist0 k) ?f" using ag by (auto simp: machine_agrees_def field_or_new_def)
        moreover have "\<forall>w \<in> set (writes_of updates k). good_write ok k ?f w"
          using good f(1) by (auto simp: good_updates_def good_write_def)
        ultimately have "agrees ok k None (extend_history (val0 k) (hist0 k) pws) f'"
          using lf delta d(1) f nf(2) ow pws(1) by (intro agrees_extend [where f = ?f and ws = "writes_of updates k"]) simp_all
        moreover have "durable (dget False ?snaps k) f' = None" using delta by (simp add: durable_def dget_def)
        ultimately show ?thesis using v pws(2) by simp
      qed
    next
      case False
      then have v: "val' k = val0 k" using val' [of k] upd rk by (auto simp: version_keys_iff)
      from each [OF f'] False have fm: "map_of (sm_fields m) k = Some f'" by simp
      then have a: "agrees ok k (val0 k) (hist0 k) f'" using ag by (simp add: machine_agrees_def)
      show ?thesis
      proof (cases "f_kind (fs_spec f') = FieldDelta")
        case True
        with snapk False have "\<not> takes_snapshot input k (f_snapshotFrequency (fs_spec f')) (advance input k)" by (auto split: if_splits)
        with snap d(3) obtain pws where pws: "map pw_value pws = writes_of updates k"
          "hist' k = extend_history (val0 k) (hist0 k) pws" by (auto simp: takes_snapshot_def)
        moreover have "writes_of updates k = []" using False by (simp add: written_def writes_of_def)
        ultimately show ?thesis using agrees_keep [OF a] v by simp
      qed (use agrees_other [OF _ a] v in simp)
    qed
  qed
  have "val' k = None" if "map_of (sm_fields m') k = None" "\<not> reserved_channel k" for k
  proof -
    have "map_of vs k = None" using stored [of k] that(1) by simp
    moreover have "map_of (sm_fields m) k = None" using written_known [OF ap dis, of k] that(1) by simp
    then have "val0 k = None" using ag that(2) by (simp add: machine_agrees_def)
    ultimately show ?thesis using val' [of k] that(2) by (simp add: persisted_values_lookup)
  qed
  with ag' sh' show ?thesis by (simp add: machine_agrees_def)
qed

section \<open>Pending writes are the updates\<close>

lemma special_reserved: "\<not> reserved_channel c \<Longrightarrow> SpecialWriteIndex c = None"
  by (auto simp: reserved_channel_def SpecialWriteIndex_def specialWriteIndexes_def)

lemma numbered_sorted:
  assumes "\<forall>w \<in> set ws. SpecialWriteIndex (cw_channel w) = None"
  shows "sorted (map write_order (numbered t p i ws)) \<and>
    (\<forall>w \<in> set (numbered t p i ws). pw_taskID w = t \<and> pw_taskPath w = p \<and> int i \<le> pw_index w)"
  using assms
proof (induction ws arbitrary: i)
  case (Cons w ws)
  then have a: "assigned_index i w = int i" by (simp add: assigned_index_def)
  have IH: "sorted (map write_order (numbered t p (Suc i) ws))"
    "\<forall>w \<in> set (numbered t p (Suc i) ws). pw_taskID w = t \<and> pw_taskPath w = p \<and> int (Suc i) \<le> pw_index w"
    using Cons.IH [of "Suc i"] Cons.prems by (simp_all del: of_nat_Suc)
  then have "\<forall>x \<in> set (numbered t p (Suc i) ws). write_order (write_of t p i w) \<le> write_order x"
    by (auto simp: write_order_def a)
  with IH a show ?case by auto
qed simp

lemma numbered_channel:
  "map pw_value (of_channel c (numbered t p i ws)) = map cw_value (filter (\<lambda>w. cw_channel w = c) ws)"
  by (induction ws arbitrary: i) (auto simp: of_channel_def)

lemma stateWrites_channel:
  assumes "distinct (dkeys u)"
  shows "map cw_value (filter (\<lambda>w. cw_channel w = c) (stateWrites u)) =
    (case map_of u c of None \<Rightarrow> [] | Some v \<Rightarrow> expand v)"
proof -
  let ?w = "\<lambda>key. map (\<lambda>v. \<lparr>cw_channel = key, cw_value = v\<rparr>) (expand (dget VNil u key))"
  have one: "filter (\<lambda>w. cw_channel w = c) (?w key) = (if key = c then ?w key else [])" for key
    by (induction "expand (dget VNil u key)") (auto simp: filter_map comp_def)
  have "filter (\<lambda>w. cw_channel w = c) (concat (map ?w ks)) = (if c \<in> set ks then ?w c else [])" if "distinct ks" for ks
    using that by (induction ks) (auto simp: one)
  from this [of "sorted_keys u"] assms have
    "filter (\<lambda>w. cw_channel w = c) (stateWrites u) = (if c \<in> fst ` set u then ?w c else [])"
    by (simp add: stateWrites_def keysOf_def)
  then show ?thesis by (auto simp: comp_def dget_def mem_keys_iff split: option.split)
qed

lemma stateWrites_channels: "w \<in> set (stateWrites u) \<Longrightarrow> cw_channel w \<in> fst ` set u"
  by (force simp: stateWrites_def keysOf_def)

text \<open>The tasks of a superstep in the order in which their writes are replayed.\<close>

definition task_less :: "'x task \<Rightarrow> 'x task \<Rightarrow> bool" where
  "task_less a b \<longleftrightarrow> (tk_path a, tk_id a) < (tk_path b, tk_id b)"

definition ordered_tasks :: "'x task list \<Rightarrow> bool" where
  "ordered_tasks ts \<longleftrightarrow> sorted_wrt task_less ts \<and> (\<forall>t \<in> set ts. tk_id t \<noteq> ''__resume__'')"

definition idle_write :: "'x pendingWrite \<Rightarrow> bool" where
  "idle_write w \<longleftrightarrow> pw_taskID w = ''__resume__'' \<and> reserved_channel (pw_channel w)"

definition replay_order :: "'x task list \<Rightarrow> 'x pendingWrite list \<Rightarrow> bool" where
  "replay_order done ws \<longleftrightarrow>
     (\<forall>w \<in> set ws. idle_write w \<or> (\<exists>t \<in> set done. pw_taskPath w = tk_path t \<and> pw_taskID w = tk_id t)) \<and>
     (\<forall>c. \<not> reserved_channel c \<longrightarrow> sorted (map write_order (of_channel c ws)))"

lemma replay_order_step:
  assumes ord: "replay_order before ws" and less: "\<forall>t \<in> set before. task_less t task"
    and plain: "\<forall>w \<in> set nws. \<not> reserved_channel (cw_channel w)" and c: "\<not> reserved_channel c"
  shows "of_channel c (sortWrites (ws @ numbered (tk_id task) (tk_path task) 0 nws)) =
    of_channel c ws @ of_channel c (numbered (tk_id task) (tk_path task) 0 nws)"
proof -
  let ?n = "numbered (tk_id task) (tk_path task) 0 nws"
  have n: "sorted (map write_order ?n)" "\<forall>w \<in> set ?n. pw_taskID w = tk_id task \<and> pw_taskPath w = tk_path task"
    using numbered_sorted [of nws "tk_id task" "tk_path task" 0] plain special_reserved by auto
  have "write_order w \<le> write_order x" if w: "w \<in> set (of_channel c ws)" and x: "x \<in> set (of_channel c ?n)" for w x
  proof -
    from w c have "w \<in> set ws" "\<not> idle_write w" by (auto simp: of_channel_def idle_write_def)
    with ord obtain t where "t \<in> set before" "pw_taskPath w = tk_path t" "pw_taskID w = tk_id t"
      by (auto simp: replay_order_def)
    with less n(2) x show ?thesis by (fastforce simp: write_order_def task_less_def of_channel_def)
  qed
  moreover have "sorted (map write_order (of_channel c ?n))"
    using n(1) by (simp add: of_channel_def sorted_filter)
  ultimately have "sorted (map write_order (of_channel c ws @ of_channel c ?n))"
    using ord c by (auto simp: replay_order_def sorted_append)
  then have "sortWrites (of_channel c ws @ of_channel c ?n) = of_channel c ws @ of_channel c ?n"
    by (simp add: sortWrites_def sort_key_id_if_sorted)
  then show ?thesis unfolding of_channel_sortWrites by (simp add: of_channel_def)
qed

context saver_contract begin

text \<open>What putting writes leaves unchanged.\<close>

definition same_checkpoint :: "config \<Rightarrow> ('x, 's) world \<Rightarrow> ('x, 's) world \<Rightarrow> bool" where
  "same_checkpoint cfg w w' \<longleftrightarrow> inv (w_saver w') \<and>
     (\<forall>i. has (w_saver w') (cfg\<lparr>cf_checkpointID := i\<rparr>) = has (w_saver w) (cfg\<lparr>cf_checkpointID := i\<rparr>)) \<and>
     val (w_saver w') cfg = val (w_saver w) cfg \<and> vers (w_saver w') cfg = vers (w_saver w) cfg \<and>
     hist (w_saver w') cfg = hist (w_saver w) cfg \<and> meta (w_saver w') cfg = meta (w_saver w) cfg \<and>
     unused (w_saver w') cfg = unused (w_saver w) cfg \<and> w_clock w' = w_clock w \<and> w_tick w \<le> w_tick w'"

lemma same_checkpoint_trans: "same_checkpoint cfg a b \<Longrightarrow> same_checkpoint cfg b c \<Longrightarrow> same_checkpoint cfg a c"
  by (auto simp: same_checkpoint_def)

lemma same_checkpoint_refl: "inv (w_saver w) \<Longrightarrow> same_checkpoint cfg w w"
  by (simp add: same_checkpoint_def)

lemma same_checkpoint_has: "same_checkpoint cfg w w' \<Longrightarrow> has (w_saver w') cfg = has (w_saver w) cfg"
  unfolding same_checkpoint_def by (metis (full_types) config.surjective config.update_convs(3))

lemma same_checkpoint_world: "same_checkpoint cfg w w' \<Longrightarrow> world_ok env B cfg w \<Longrightarrow> world_ok env B cfg w'"
  unfolding same_checkpoint_def world_ok_def issued_ids_def fresh_versions_def by (auto intro: order.trans)

lemma saver_put_writes:
  assumes "inv (w_saver w)" and "has (w_saver w) cfg"
    and "act_saver env (\<lambda>ctx. sv_PutWrites sv ctx cfg t p ws) w = (w', Inr ())"
  shows "same_checkpoint cfg w w'"
    "c \<notin> cw_channel ` set ws \<Longrightarrow> of_channel c (pend (w_saver w') cfg) = of_channel c (pend (w_saver w) cfg)"
    "(\<forall>x \<in> set ws. SpecialWriteIndex (cw_channel x) = None) \<Longrightarrow> (\<forall>x \<in> set (pend (w_saver w) cfg). pw_taskID x \<noteq> t) \<Longrightarrow>
      pend (w_saver w') cfg = sortWrites (pend (w_saver w) cfg @ numbered t p 0 ws)"
    "\<forall>x \<in> set (pend (w_saver w') cfg). x \<in> set (pend (w_saver w) cfg) \<or> pw_taskID x = t \<and> pw_channel x \<in> cw_channel ` set ws"
proof -
  from assms(3) have p: "sv_PutWrites sv (e_ctx env (w_tick w)) cfg t p ws (w_saver w) = (w_saver w', Inr ())"
    and w': "w_clock w' = w_clock w" "w_tick w' = Suc (w_tick w)"
    by (auto simp: act_saver_def split: prod.splits)
  note P = put_writes [OF assms(1,2) p]
  show "same_checkpoint cfg w w'" unfolding same_checkpoint_def using P w' by simp
  show "\<forall>x \<in> set (pend (w_saver w') cfg). x \<in> set (pend (w_saver w) cfg) \<or> pw_taskID x = t \<and> pw_channel x \<in> cw_channel ` set ws"
    using P by (elim conjE)
  show "c \<notin> cw_channel ` set ws \<Longrightarrow> of_channel c (pend (w_saver w') cfg) = of_channel c (pend (w_saver w) cfg)"
    using P by blast
  show "(\<forall>x \<in> set ws. SpecialWriteIndex (cw_channel x) = None) \<Longrightarrow> (\<forall>x \<in> set (pend (w_saver w) cfg). pw_taskID x \<noteq> t) \<Longrightarrow>
      pend (w_saver w') cfg = sortWrites (pend (w_saver w) cfg @ numbered t p 0 ws)"
    using P by blast
qed

lemma put_updates_pending:
  assumes sav: "co_saver (cg_options g) = Some sv"
    and "put_updates env g cfg tus w = (w', Inr ())" and "inv (w_saver w)" and "has (w_saver w) cfg"
    and "sorted_wrt task_less (before @ map fst tus)" and "\<forall>t \<in> set (before @ map fst tus). tk_id t \<noteq> ''__resume__''"
    and "distinct (map tk_id (before @ map fst tus))"
    and "\<forall>u \<in> set (map snd tus). distinct (dkeys u) \<and> (\<forall>k. map_of u k \<noteq> None \<longrightarrow> \<not> reserved_channel k)"
    and "replay_order before (pend (w_saver w) cfg)"
  shows "same_checkpoint cfg w w' \<and> replay_order (before @ map fst tus) (pend (w_saver w') cfg) \<and>
    (\<forall>c. \<not> reserved_channel c \<longrightarrow> map pw_value (of_channel c (pend (w_saver w') cfg)) =
       map pw_value (of_channel c (pend (w_saver w) cfg)) @ writes_of (map snd tus) c)"
  using assms(2-)
proof (induction tus arbitrary: before w)
  case Nil
  then show ?case by (auto simp: put_updates_def act_simps same_checkpoint_refl writes_of_def)
next
  case (Cons tu tus)
  obtain task u where tu: "tu = (task, u)" by (cases tu)
  from Cons.prems(1) obtain w1 where one: "put_update env g cfg task u w = (w1, Inr ())"
    and rest: "put_updates env g cfg tus w1 = (w', Inr ())"
    by (auto simp: put_updates_def tu act_simps)
  have u: "distinct (dkeys u)" "\<And>k. map_of u k \<noteq> None \<Longrightarrow> \<not> reserved_channel k" using Cons.prems(7) by (auto simp: tu)
  have less: "\<forall>t \<in> set before. task_less t task" using Cons.prems(4) by (auto simp: tu sorted_wrt_append)
  have plain: "\<forall>x \<in> set (stateWrites u). \<not> reserved_channel (cw_channel x)"
    using stateWrites_channels u(2) by (fastforce simp: mem_keys_iff)
  have step: "same_checkpoint cfg w w1 \<and> replay_order (before @ [task]) (pend (w_saver w1) cfg) \<and>
    (\<forall>c. \<not> reserved_channel c \<longrightarrow> map pw_value (of_channel c (pend (w_saver w1) cfg)) =
       map pw_value (of_channel c (pend (w_saver w) cfg)) @ writes_of [u] c)"
  proof (cases "u = []")
    case True
    with one sav have "w1 = w" by (simp add: put_update_def act_simps)
    with True Cons.prems(2,8) show ?thesis
      by (auto simp: same_checkpoint_refl writes_of_def replay_order_def)
  next
    case False
    with one sav have put1: "act_saver env (\<lambda>ctx. sv_PutWrites sv ctx cfg (tk_id task) (tk_path task) (stateWrites u)) w = (w1, Inr ())"
      by (simp add: put_update_def)
    have free: "\<forall>x \<in> set (pend (w_saver w) cfg). pw_taskID x \<noteq> tk_id task"
    proof
      fix x assume "x \<in> set (pend (w_saver w) cfg)"
      with Cons.prems(8) have "idle_write x \<or> (\<exists>t \<in> set before. pw_taskID x = tk_id t)" by (auto simp: replay_order_def)
      moreover have "tk_id task \<notin> tk_id ` set before" using Cons.prems(6) by (auto simp: tu)
      ultimately show "pw_taskID x \<noteq> tk_id task" using Cons.prems(5)
        by (auto simp: tu idle_write_def) (metis imageI)
    qed
    have nosp: "\<forall>x \<in> set (stateWrites u). SpecialWriteIndex (cw_channel x) = None" using plain special_reserved by blast
    note P = saver_put_writes [OF Cons.prems(2,3) put1]
    let ?n = "numbered (tk_id task) (tk_path task) 0 (stateWrites u)"
    have pend1: "pend (w_saver w1) cfg = sortWrites (pend (w_saver w) cfg @ ?n)" using P(3) [OF nosp free] .
    have ch: "of_channel c (pend (w_saver w1) cfg) = of_channel c (pend (w_saver w) cfg) @ of_channel c ?n"
      if "\<not> reserved_channel c" for c
      unfolding pend1 by (rule replay_order_step [OF Cons.prems(8) less plain that])
    have vals: "map pw_value (of_channel c ?n) = writes_of [u] c" for c
      using numbered_channel [of c "tk_id task" "tk_path task" 0 "stateWrites u"] stateWrites_channel [OF u(1), of c]
      by (simp add: writes_of_def)
    have "replay_order (before @ [task]) (pend (w_saver w1) cfg)"
      unfolding replay_order_def
    proof (intro conjI ballI allI impI)
      fix x assume "x \<in> set (pend (w_saver w1) cfg)"
      then consider "x \<in> set (pend (w_saver w) cfg)" | "x \<in> set ?n" by (auto simp: pend1 sortWrites_def)
      then show "idle_write x \<or> (\<exists>t \<in> set (before @ [task]). pw_taskPath x = tk_path t \<and> pw_taskID x = tk_id t)"
        using Cons.prems(8) numbered_sorted [OF nosp] by cases (auto simp: replay_order_def)
    next
      fix c assume c: "\<not> reserved_channel c"
      have "sorted (map write_order (pend (w_saver w1) cfg))" by (simp add: pend1 sortWrites_def)
      then show "sorted (map write_order (of_channel c (pend (w_saver w1) cfg)))" by (simp add: of_channel_def sorted_filter)
    qed
    with P(1) ch vals show ?thesis by simp
  qed
  have "same_checkpoint cfg w1 w' \<and> replay_order ((before @ [task]) @ map fst tus) (pend (w_saver w') cfg) \<and>
    (\<forall>c. \<not> reserved_channel c \<longrightarrow> map pw_value (of_channel c (pend (w_saver w') cfg)) =
       map pw_value (of_channel c (pend (w_saver w1) cfg)) @ writes_of (map snd tus) c)"
  proof (rule Cons.IH [OF rest])
    show "inv (w_saver w1)" using step by (simp add: same_checkpoint_def)
    show "has (w_saver w1) cfg" using step same_checkpoint_has Cons.prems(3) by blast
  qed (use Cons.prems step in \<open>simp_all add: tu\<close>)
  with step show ?case
    by (auto simp: tu writes_of_def intro: same_checkpoint_trans)
qed

end

end
