(* ===== verification/Durable_Execution.thy ===== *)
theory Durable_Execution
  imports Durable_Runs
begin

text \<open>
  Durability of executions: the tasks of a superstep are stored and replayed in task order, and every
  superstep keeps the live state and the saver in agreement.
\<close>

section \<open>The order of tasks\<close>

lemma fmt_slash_inject:
  assumes "fmt_08d a @ ''/'' @ x = fmt_08d b @ ''/'' @ y"
  shows "a = b \<and> x = y"
proof -
  have t: "takeWhile (\<lambda>c. c \<noteq> CHR ''/'') (fmt_08d n @ ''/'' @ z) = fmt_08d n" for n z
    using digit_not_colon by (subst takeWhile_append2) auto
  from t [of a x] t [of b y] assms have "a = b" by (metis fmt_08d_inject)
  with assms show ?thesis by simp
qed

lemma fmt_e_differs: "fmt_08d a \<noteq> ''e'' @ x"
  using digit_not_colon [of "CHR ''e''" a] by (cases "fmt_08d a") auto

lemma indexed_Cons:
  assumes "distinct qs \<and> (\<forall>q \<in> set qs. \<exists>j \<ge> Suc i. q = h j)" and "\<And>j. h j = h i \<Longrightarrow> j = i"
  shows "distinct (h i # qs) \<and> (\<forall>q \<in> set (h i # qs). \<exists>j \<ge> i. q = h j)"
proof
  have "h i \<notin> set qs" using assms by (metis Suc_n_not_le_n)
  with assms(1) show "distinct (h i # qs)" by simp
  show "\<forall>q \<in> set (h i # qs). \<exists>j \<ge> i. q = h j" using assms(1) by (auto dest: Suc_leD)
qed

lemma route_sends_paths:
  "route_sends g p i ss = Inr ts \<Longrightarrow> distinct (map tk_path ts) \<and>
   (\<forall>q \<in> set (map tk_path ts). \<exists>j \<ge> i. q = p @ ''/'' @ fmt_08d j)"
proof (induction ss arbitrary: i ts)
  case (Cons send ss)
  show ?case
  proof (cases "sn_node send = End")
    case True
    with Cons.prems have "route_sends g p (Suc i) ss = Inr ts" by simp
    from Cons.IH [OF this] show ?thesis by (meson Suc_leD)
  next
    case False
    with Cons.prems obtain ts' where ts': "route_sends g p (Suc i) ss = Inr ts'"
      "ts = (new_task (sn_node send) (p @ ''/'' @ fmt_08d i))\<lparr>tk_input := values_Clone (sn_input send)\<rparr> # ts'"
      by (auto simp: res_simps split: if_splits)
    have "map tk_path ts = (p @ ''/'' @ fmt_08d i) # map tk_path ts'" by (simp add: ts'(2) new_task_def)
    then show ?thesis
      using indexed_Cons [where h = "\<lambda>j. p @ ''/'' @ fmt_08d j", OF Cons.IH [OF ts'(1)]] by (simp add: fmt_08d_inject del: set_map)
  qed
qed simp

lemma route_destinations_paths:
  "route_destinations g p i ds = Inr ts \<Longrightarrow> distinct (map tk_path ts) \<and>
   (\<forall>q \<in> set (map tk_path ts). \<exists>j \<ge> i. q = p @ ''/e'' @ fmt_08d j)"
proof (induction ds arbitrary: i ts)
  case (Cons d ds)
  show ?case
  proof (cases "d = End")
    case True
    with Cons.prems have "route_destinations g p (Suc i) ds = Inr ts" by simp
    from Cons.IH [OF this] show ?thesis by (meson Suc_leD)
  next
    case False
    with Cons.prems obtain ts' where ts': "route_destinations g p (Suc i) ds = Inr ts'"
      "ts = new_task d (p @ ''/e'' @ fmt_08d i) # ts'"
      by (auto simp: res_simps split: if_splits)
    have "map tk_path ts = (p @ ''/e'' @ fmt_08d i) # map tk_path ts'" by (simp add: ts'(2) new_task_def)
    then show ?thesis
      using indexed_Cons [where h = "\<lambda>j. p @ ''/e'' @ fmt_08d j", OF Cons.IH [OF ts'(1)]] by (simp add: fmt_08d_inject del: set_map)
  qed
qed simp

lemma route_results_paths:
  "route_results g vs step i rs w = (w', Inr ts) \<Longrightarrow> distinct (map tk_path ts) \<and>
   (\<forall>q \<in> set (map tk_path ts). \<exists>j \<ge> i. \<exists>z. q = fmt_08d step @ ''/'' @ fmt_08d j @ ''/'' @ z)"
proof (induction rs arbitrary: i ts w)
  case (Cons r rs)
  let ?p = "fmt_08d step @ ''/'' @ fmt_08d i"
  from Cons.prems obtain w2 ss ds es os where
    ss: "route_sends g ?p 0 (cmd_sends (tr_command r)) = Inr ss" and es: "route_destinations g ?p 0 ds = Inr es"
    and os: "route_results g vs step (Suc i) rs w2 = (w', Inr os)" and ts: "ts = ss @ es @ os"
    by (auto simp: act_simps Let_def)
  note S = route_sends_paths [OF ss] and E = route_destinations_paths [OF es] and R = Cons.IH [OF os]
  have se: "set (map tk_path ss) \<inter> set (map tk_path es) = {}"
  proof (rule ccontr)
    assume "set (map tk_path ss) \<inter> set (map tk_path es) \<noteq> {}"
    then obtain j j' where "?p @ ''/'' @ fmt_08d j = ?p @ ''/e'' @ fmt_08d j'" using S E by fastforce
    then show False using fmt_e_differs [of j "fmt_08d j'"] by simp
  qed
  have here: "\<exists>z. q = fmt_08d step @ ''/'' @ fmt_08d i @ ''/'' @ z" if "q \<in> set (map tk_path (ss @ es))" for q
    using that S E by fastforce
  have "q \<notin> set (map tk_path os)" if "q \<in> set (map tk_path (ss @ es))" for q
  proof
    assume "q \<in> set (map tk_path os)"
    with R obtain j z where j: "j \<ge> Suc i" "q = fmt_08d step @ ''/'' @ fmt_08d j @ ''/'' @ z" by blast
    with here [OF that] obtain z' where "fmt_08d i @ ''/'' @ z' = fmt_08d j @ ''/'' @ z" by auto
    with fmt_slash_inject [of i z' j z] j(1) show False by simp
  qed
  then have "set (map tk_path (ss @ es)) \<inter> set (map tk_path os) = {}" by blast
  with S E R se have "distinct (map tk_path ts)" by (auto simp: ts)
  moreover have "\<exists>j \<ge> i. \<exists>z. q = fmt_08d step @ ''/'' @ fmt_08d j @ ''/'' @ z" if "q \<in> set (map tk_path ts)" for q
  proof (cases "q \<in> set (map tk_path (ss @ es))")
    case True
    with here show ?thesis by blast
  next
    case False
    with that have "q \<in> set (map tk_path os)" by (auto simp: ts)
    with R show ?thesis by (meson Suc_leD)
  qed
  ultimately show ?case by blast
qed (simp add: act_simps)

lemma number_tasks_paths:
  "\<forall>t \<in> set ts. tk_path t \<noteq> [] \<Longrightarrow> map tk_path (number_tasks n ts) = map tk_path ts"
  by (induction ts arbitrary: n) auto

lemma number_tasks_ids: "t \<in> set (number_tasks n ts) \<Longrightarrow> \<exists>i. tk_id t = fmt_08d i @ '':'' @ tk_node t"
  by (induction ts arbitrary: n) auto

lemma task_id_differs: "fmt_08d i @ '':'' @ x \<noteq> CHR ''_'' # y"
  using digit_not_colon [of "CHR ''_''" i] by (cases "fmt_08d i") auto

lemma sorted_wrt_paths: "sorted_wrt (<) (map tk_path ts) \<Longrightarrow> sorted_wrt task_less ts"
  by (induction ts) (auto simp: task_less_def)

lemma sorted_fst: "sorted (map task_order ts) \<Longrightarrow> sorted (map tk_path ts)"
  by (induction ts) (auto simp: task_order_def less_eq_prod_def)

text \<open>Tasks with different paths are replayed in the order in which they were numbered.\<close>

lemma normalizeTasks_ordered:
  assumes "distinct (map tk_path ts)" and "\<forall>t \<in> set ts. tk_path t \<noteq> []"
  shows "ordered_tasks (normalizeTasks ts)" "distinct (map tk_id (normalizeTasks ts))"
proof -
  let ?s = "sort_key task_order ts"
  have "sorted (map task_order ?s)" by simp
  then have "sorted (map tk_path ?s)" by (rule sorted_fst)
  moreover have "distinct (map tk_path ?s)"
  proof -
    have "mset (map tk_path ?s) = mset (map tk_path ts)" by simp
    then show ?thesis using assms(1) by (metis mset_eq_imp_distinct_iff)
  qed
  ultimately have "sorted_wrt (<) (map tk_path ?s)" by (simp add: strict_sorted_iff)
  moreover have "map tk_path (normalizeTasks ts) = map tk_path ?s"
    unfolding normalizeTasks_def using assms(2) by (intro number_tasks_paths) simp
  ultimately have "sorted_wrt task_less (normalizeTasks ts)" by (intro sorted_wrt_paths) simp
  moreover have "\<forall>t \<in> set (normalizeTasks ts). tk_id t \<noteq> ''__resume__''"
    unfolding normalizeTasks_def using number_tasks_ids task_id_differs by fastforce
  ultimately show "ordered_tasks (normalizeTasks ts)" by (simp add: ordered_tasks_def)
  show "distinct (map tk_id (normalizeTasks ts))" unfolding normalizeTasks_def by (rule distinct_number_tasks)
qed

lemma route_ordered:
  assumes "route g m results step w = (w', Inr next_tasks)"
  shows "ordered_tasks next_tasks" "distinct (map tk_id next_tasks)" "list_all (known_task g) next_tasks"
proof -
  obtain vs w1 ts where ts: "route_results g vs step 0 results w1 = (w', Inr ts)" "next_tasks = normalizeTasks ts"
    using assms by (auto simp: route_def act_simps)
  have "\<forall>t \<in> set ts. tk_path t \<noteq> []"
  proof
    fix t assume "t \<in> set ts"
    with route_results_paths [OF ts(1)] obtain j z where "tk_path t = fmt_08d step @ ''/'' @ fmt_08d j @ ''/'' @ z"
      by (metis image_eqI list.set_map)
    then show "tk_path t \<noteq> []" by simp
  qed
  with route_results_paths [OF ts(1)] show "ordered_tasks next_tasks" "distinct (map tk_id next_tasks)"
    unfolding ts(2) by (intro normalizeTasks_ordered; blast)+
  show "list_all (known_task g) next_tasks" using route_tasks [OF assms] by blast
qed

lemma start_tasks_paths:
  "distinct (map tk_path (start_tasks i ds :: 'x task list)) \<and>
   (\<forall>q \<in> set (map tk_path (start_tasks i ds :: 'x task list)). \<exists>j \<ge> i. q = ''s/'' @ fmt_08d j)"
proof (induction ds arbitrary: i)
  case (Cons d ds)
  show ?case
  proof (cases "d = End")
    case True
    with Cons.IH [of "Suc i"] show ?thesis by (auto dest: Suc_leD)
  next
    case False
    then have "map tk_path (start_tasks i (d # ds) :: 'x task list) =
        (''s/'' @ fmt_08d i) # map tk_path (start_tasks (Suc i) ds :: 'x task list)"
      by (simp add: new_task_def)
    then show ?thesis
      using indexed_Cons [where h = "\<lambda>j. ''s/'' @ fmt_08d j", OF Cons.IH [of "Suc i"]] by (simp add: fmt_08d_inject del: set_map)
  qed
qed simp

lemma start_tasks_nodes: "t \<in> set (start_tasks i ds) \<Longrightarrow> tk_node t \<in> set ds \<and> tk_node t \<noteq> End"
  by (induction ds arbitrary: i) (auto simp: new_task_def split: if_splits)

lemma startTasks_ordered:
  assumes "Compile options b = Inr g"
  shows "ordered_tasks (startTasks g)" "distinct (map tk_id (startTasks g))" "list_all (known_task g) (startTasks g)"
proof -
  let ?ts = "start_tasks 0 (dget [] (cg_edges g) Start) :: 'a task list"
  have "\<forall>t \<in> set ?ts. tk_path t \<noteq> []"
  proof
    fix t assume "t \<in> set ?ts"
    then have "tk_path t \<in> set (map tk_path ?ts)" by simp
    with start_tasks_paths [of 0 "dget [] (cg_edges g) Start", THEN conjunct2] show "tk_path t \<noteq> []" by fastforce
  qed
  then show "ordered_tasks (startTasks g)" "distinct (map tk_id (startTasks g))"
    unfolding startTasks_def by (intro normalizeTasks_ordered; simp add: start_tasks_paths [THEN conjunct1])+
  have "known_task g t" if "t \<in> set (startTasks g)" for t
  proof -
    from that obtain t' where t': "t' \<in> set ?ts" "tk_node t = tk_node t'"
      using set_normalizeTasks unfolding startTasks_def by blast
    from start_tasks_nodes [OF t'(1)] obtain ds where "map_of (cg_edges g) Start = Some ds" "tk_node t \<in> set ds" "tk_node t \<noteq> End"
      using t'(2) by (cases "map_of (cg_edges g) Start") (auto simp: dget_def)
    with compiled_edges_closed [OF assms] show ?thesis by (auto simp: known_task_def)
  qed
  then show "list_all (known_task g) (startTasks g)" by (simp add: list_all_iff)
qed

section \<open>A fresh machine\<close>

lemma new_field_fresh:
  assumes "lawful_field ok k spec"
  shows "\<exists>f. new_field spec None None = Inr f \<and> fs_spec f = spec \<and> shaped ok k f \<and> agrees ok k None empty_history f"
proof (cases "f_kind spec = FieldDelta")
  case True
  with assms obtain ch where ch: "new_delta spec = Inr ch" "channel_of_spec spec ch"
    using new_delta_spec by (auto simp: lawful_field_def)
  with assms True have bat: "batching_reducer (d_reduce ch) (d_clone ch) (ok k)" and i: "ok k (d_initial ch)"
    by (auto simp: lawful_field_def channel_of_spec_def)
  have "d_clone ch (d_initial ch) = d_initial ch" using batching_reducer.ok_clone [OF bat i] .
  then have "restore_delta spec None None = Inr (ch\<lparr>d_cell := Some (d_initial ch)\<rparr>)"
    using ch(1) by (simp add: restore_delta_def delta_seed_def specCopy_def)
  with True ch(2) i show ?thesis
    by (auto simp: new_field_def new_fieldState_def shaped_def channel_of_spec_def agrees_def replays_def
        seed_base_def replayed_writes_def empty_history_def)
next
  case False
  with assms show ?thesis
    by (cases "f_kind spec")
      (auto simp: lawful_field_def field_validate_def new_field_def new_fieldState_def shaped_def agrees_def split: if_splits option.splits)
qed

lemma fresh_machine:
  assumes "lawful_schema ok schema" and "newStateMachine schema [] [] = Inr m"
  shows "machine_shaped ok schema m \<and> machine_agrees ok m (\<lambda>_. None) (\<lambda>_. empty_history)"
proof -
  have lf: "\<exists>f. new_field spec None None = Inr f \<and> fs_spec f = spec \<and> shaped ok k f \<and> agrees ok k None empty_history f"
    if "(k, spec) \<in> set (sc_fields schema)" for k spec
    using assms(1) that by (intro new_field_fresh) (auto simp: lawful_schema_def)
  define r where "r k = (SOME f. new_field (spec_of schema k) None None = Inr f \<and> fs_spec f = spec_of schema k \<and>
    shaped ok k f \<and> agrees ok k None empty_history f)" for k
  have spec: "spec_of schema k = spec" if "(k, spec) \<in> set (sc_fields schema)" for k spec
    using assms(1) that by (simp add: lawful_schema_def spec_of_def)
  have r: "new_field (spec_of schema k) None None = Inr (r k)" "fs_spec (r k) = spec_of schema k"
    "shaped ok k (r k)" "agrees ok k None empty_history (r k)"
    if "map_of (sc_fields schema) k = Some spec" for k spec
    using someI_ex [OF lf [OF map_of_SomeD [OF that]]] spec [OF map_of_SomeD [OF that]] unfolding r_def by auto
  have body: "add_schema_field [] [] = (\<lambda>kx d. res_bind (new_field (snd kx) None None) (\<lambda>y. Inr (dput (fst kx) y d)))"
    by (intro ext) (simp add: add_schema_field_def)
  have "new_field x None None = Inr (r k)" if "(k, x) \<in> set (sc_fields schema)" for k x
    using r(1) [of k x] assms(1) that spec [OF that] by (simp add: lawful_schema_def)
  from fold_res_dput [of "sc_fields schema" "\<lambda>k spec. new_field spec None None" r "[]", OF this]
  have fs: "map_of (sm_fields m) k = (if k \<in> fst ` set (sc_fields schema) then Some (r k) else None)" for k
    using assms by (auto simp: newStateMachine_def body lawful_schema_def rev_image_eqI)
  have m: "sm_schema m = schema" "distinct (dkeys (sm_fields m))"
    using assms newStateMachine_wf [OF assms(2)] by (auto simp: newStateMachine_def res_simps machine_wf_def)
  have "\<not> reserved_channel k" if "map_of (sc_fields schema) k = Some spec" for k spec
    using assms(1) map_of_SomeD [OF that] by (auto simp: lawful_schema_def)
  with r fs m show ?thesis
    by (auto simp: machine_shaped_def machine_agrees_def mem_keys_iff split: if_splits)
qed

section \<open>Good commands\<close>

definition good_nodes :: "(string \<Rightarrow> 'x gval \<Rightarrow> bool) \<Rightarrow> ('x, 's) compiled \<Rightarrow> bool" where
  "good_nodes ok g \<longleftrightarrow> (\<forall>name n vs rt t c. map_of (cg_nodes g) name = Some n \<and> n vs rt t = Returns c \<longrightarrow>
     good_updates ok (cg_schema g) [cmd_update c])"

lemma good_updates_Nil: "good_updates ok schema [[]]"
  by (simp add: good_updates_def writes_of_def)

lemma good_updates_all: "\<forall>u \<in> set us. good_updates ok schema [u] \<Longrightarrow> good_updates ok schema us"
  by (fastforce simp: good_updates_def writes_of_def)

lemma call_attempts_good:
  assumes "good_nodes ok g" and "call_attempts env p (map_of (cg_nodes g) name) vs rt n w = (w', Inr c)"
  shows "good_updates ok (cg_schema g) [cmd_update c]"
  using assms(2)
proof (induction n arbitrary: w)
  case 0
  then show ?case by (simp add: act_simps empty_command_def good_updates_Nil)
next
  case (Suc n)
  show ?case
  proof (cases "callNode (map_of (cg_nodes g) name) (values_Clone vs) rt (w_tick w)")
    case (Inl e)
    with Suc show ?thesis by (auto simp: act_simps split: option.splits if_splits)
  next
    case (Inr c')
    with Suc.prems have "c' = c" by (auto simp: act_simps split: option.splits)
    with Inr assms(1) show ?thesis
      unfolding good_nodes_def callNode_def by (auto split: option.splits outcome.splits)
  qed
qed

lemma act_try_ret:
  "act_bind (act_try a) (\<lambda>r. act_ret (h r)) w = (w', Inr y) \<longleftrightarrow> (\<exists>q. a w = (w', q) \<and> y = h q)"
  by (auto simp: act_simps)

lemma run_task_good:
  assumes "good_nodes ok g" and "run_task env g m cfg resume deps conf step task w = (w', Inr r)"
  shows "good_updates ok (cg_schema g) [cmd_update (tr_command r)] \<and> tr_task r = task"
proof (cases "tr_err r")
  case None
  have "tr_task r = task \<and> (\<exists>vs rt n w1. call_attempts env (co_retry (cg_options g))
      (map_of (cg_nodes g) (tk_node task)) vs rt n w1 = (w', Inr (tr_command r)))"
    using assms(2) None unfolding run_task_def act_try_ret
  proof (elim exE conjE, goal_cases)
    case (1 q)
    then show ?case
      by (cases q) (auto simp: act_simps callNodeWithRetry_def Let_def split: option.splits)
  qed
  then show ?thesis using call_attempts_good [OF assms(1)] by blast
next
  case (Some e)
  with run_task_result [of env g m cfg resume deps conf step task w] assms(2) show ?thesis
    by (auto simp: empty_command_def good_updates_Nil)
qed

lemma executeTasks_good:
  assumes "good_nodes ok g" and "executeTasks env g m tasks cfg resume deps conf step w = (w', Inr results)"
  shows "map tr_task results = tasks \<and> (\<forall>r \<in> set results. good_updates ok (cg_schema g) [cmd_update (tr_command r)])"
  using assms(2) unfolding executeTasks_def
  by (induction tasks arbitrary: w results) (fastforce simp: act_simps dest!: run_task_good [OF assms(1)])+

lemma executeTasks_quiet [quiet_intros]: "quiet (executeTasks env g m tasks cfg resume deps conf step)"
proof -
  have "quiet (run_task env g m cfg resume deps conf step task)" for task
    unfolding quiet_def using run_task_result by (metis fst_conv)
  then show ?thesis unfolding executeTasks_def by (rule quiet_map)
qed

lemma destinations_of_quiet [quiet_intros]: "quiet (destinations_of g vs r)"
  by (auto simp: destinations_of_def intro!: quiet_intros split: option.split)

lemma route_results_quiet [quiet_intros]: "quiet (route_results g vs step i rs)"
  by (induction rs arbitrary: i) (auto simp: Let_def intro!: quiet_intros)

lemma route_quiet [quiet_intros]: "quiet (route g m results step)"
  unfolding route_def by (intro quiet_intros)

lemma emit_updates_quiet [quiet_intros]: "quiet (emit_updates g iv step m results)"
  unfolding emit_updates_def by (auto intro!: quiet_intros quiet_each split: option.split)

section \<open>Durable states\<close>

definition tasks_ok :: "('x, 's) compiled \<Rightarrow> 'x task list \<Rightarrow> bool" where
  "tasks_ok g ts \<longleftrightarrow> ordered_tasks ts \<and> distinct (map tk_id ts) \<and> (\<forall>t \<in> set ts. tk_node t \<noteq> [])"

lemma known_nonempty: "map_of (cg_nodes g) [] = None \<Longrightarrow> list_all (known_task g) ts \<Longrightarrow> \<forall>t \<in> set ts. tk_node t \<noteq> []"
  by (auto simp: list_all_iff known_task_def)

lemma written_iff: "written us k \<longleftrightarrow> (\<exists>u \<in> set us. k \<in> fst ` set u)"
  by (simp add: written_def mem_keys_iff)

lemma written_updatedKeys: "set (updatedKeys updates) = {k. written updates k}"
  by (auto simp: updatedKeys_def written_iff)

lemma written_keysOf: "set (keysOf u) = {k. written [u] k}"
  by (auto simp: keysOf_def written_iff)

lemma consume_machine:
  "machine_shaped ok schema m \<Longrightarrow> machine_shaped ok schema (consumeEphemeral m)"
  "machine_agrees ok m v h \<Longrightarrow> machine_agrees ok (consumeEphemeral m) v h"
proof -
  have f: "map_of (sm_fields (consumeEphemeral m)) k = map_option consume_field (map_of (sm_fields m) k)" for k
    by simp
  show "machine_agrees ok (consumeEphemeral m) v h" if "machine_agrees ok m v h"
    using that unfolding machine_agrees_def f by (auto simp: consume_shaped)
  have unk: "fs_available (consume_field f)" if "fs_available f" "fs_spec f = unknown_spec" for f :: "'a fieldState"
    using that by (simp add: consume_field_def)
  show "machine_shaped ok schema (consumeEphemeral m)" if "machine_shaped ok schema m"
    using that unfolding machine_shaped_def f
    by (auto simp: consume_shaped consumeEphemeral_def comp_def case_prod_unfold spec_of_def intro!: unk)
qed

lemma interrupt_channel_value:
  "map_of (persisted_values vs tasks is) ChannelTasks = Some (encodeTasks tasks)"
  by (simp add: persisted_values_def Let_def ChannelTasks_def ChannelInterrupt_def)

lemma idle_values: "\<forall>x \<in> set ws. idle_write x \<Longrightarrow> \<not> reserved_channel c \<Longrightarrow> of_channel c ws = []"
  by (auto simp: idle_write_def of_channel_def filter_empty_conv)

lemma idle_replay_order: "\<forall>x \<in> set ws. idle_write x \<Longrightarrow> replay_order [] ws"
  by (simp add: replay_order_def idle_values)

context saver_contract begin

definition durable_at :: "(string \<Rightarrow> 'x gval \<Rightarrow> bool) \<Rightarrow> ('x, 's) compiled \<Rightarrow> ('x, 's) world \<Rightarrow> 'x locals \<Rightarrow> bool" where
  "durable_at ok g w lc \<longleftrightarrow> has (w_saver w) (lc_current lc) \<and>
     machine_shaped ok (cg_schema g) (lc_machine lc) \<and>
     machine_agrees ok (lc_machine lc) (val (w_saver w) (lc_current lc)) (hist (w_saver w) (lc_current lc)) \<and>
     meta (w_saver w) (lc_current lc) = lc_metadata lc \<and>
     val (w_saver w) (lc_current lc) ChannelTasks = Some (encodeTasks (lc_tasks lc)) \<and> tasks_ok g (lc_tasks lc) \<and>
     (\<forall>x \<in> set (pend (w_saver w) (lc_current lc)). idle_write x)"

definition newest_at :: "config \<Rightarrow> ('x, 's) world \<Rightarrow> bool" where
  "newest_at cfg w \<longleftrightarrow> (\<forall>i. has (w_saver w) (cfg\<lparr>cf_checkpointID := i\<rparr>) \<longrightarrow> i \<le> cf_checkpointID cfg)"

text \<open>The scope is the thread, and whether the current checkpoint is its latest.\<close>

definition running :: "env \<Rightarrow> nat \<Rightarrow> threadKey \<times> bool \<Rightarrow> (string \<Rightarrow> 'x gval \<Rightarrow> bool) \<Rightarrow> ('x, 's) compiled \<Rightarrow> ('x, 's) world \<Rightarrow> 'x locals \<Rightarrow> bool" where
  "running env B scope ok g w lc \<longleftrightarrow> durable_at ok g w lc \<and> world_ok env B (lc_current lc) w \<and>
     thread_key (lc_current lc) = fst scope \<and> (snd scope \<longrightarrow> newest_at (lc_current lc) w)"

lemma world_ok_id: "world_ok env B (cfg\<lparr>cf_checkpointID := i\<rparr>) w = world_ok env B cfg w"
  by (simp add: world_ok_def issued_ids_def unused_thread)

lemma world_ok_same_store: "world_ok env B cfg w \<Longrightarrow> same_store w w' \<Longrightarrow> world_ok env B cfg w'"
  by (auto simp: world_ok_def same_store_def fresh_versions_def dest: order.trans)

lemma running_same_store:
  assumes "running env B scope ok g w lc" and "same_store w w'"
  shows "running env B scope ok g w' lc"
  using assms world_ok_same_store by (auto simp: running_def durable_at_def newest_at_def same_store_def)


text \<open>The commit of a step: the writes of its tasks, the updates, and a new checkpoint.\<close>

lemma commit_durable:
  assumes sav: "co_saver (cg_options g) = Some sv" and lawful: "lawful_schema ok (cg_schema g)"
    and differ: "versions_differ sv" and clock: "clock_bounded env B" and bound: "B + w_tick w3 < 2 ^ 60"
    and run: "running env B scope ok g w lc"
    and m0: "machine_shaped ok (cg_schema g) m0"
      "machine_agrees ok m0 (val (w_saver w) (lc_current lc)) (hist (w_saver w) (lc_current lc))"
    and tus: "sorted_wrt task_less (map fst tus)" "\<forall>t \<in> set (map fst tus). tk_id t \<noteq> ''__resume__''" "distinct (map tk_id (map fst tus))"
    and good: "good_updates ok (cg_schema g) (map snd tus)"
    and put: "put_updates env g (lc_current lc) tus w = (w1, Inr ())"
    and ap: "sm_apply m0 (map snd tus) = (m', Inr ow)" and q: "same_store w1 w2"
    and per: "persist env g (lc_current lc) empty_checkpoint m' tasks input w2 = (w3, Inr (cfg', md))"
    and input: "set (mi_updated input) = {k. written (map snd tus) k}" "mi_overwrites input = ow"
    and tasks: "tasks_ok g tasks"
  shows "running env B scope ok g w3 \<lparr>lc_machine = m', lc_current = cfg', lc_tasks = tasks, lc_metadata = md\<rparr>"
proof -
  let ?cur = "lc_current lc"
  have inv0: "inv (w_saver w)" and has0: "has (w_saver w) ?cur" and idle: "\<forall>x \<in> set (pend (w_saver w) ?cur). idle_write x"
    using run by (auto simp: running_def durable_at_def world_ok_def)
  have plain: "\<forall>u \<in> set (map snd tus). distinct (dkeys u) \<and> (\<forall>k. map_of u k \<noteq> None \<longrightarrow> \<not> reserved_channel k)"
    using good unfolding good_updates_def by blast
  have "same_checkpoint ?cur w w1 \<and> replay_order ([] @ map fst tus) (pend (w_saver w1) ?cur) \<and>
    (\<forall>c. \<not> reserved_channel c \<longrightarrow> map pw_value (of_channel c (pend (w_saver w1) ?cur)) =
       map pw_value (of_channel c (pend (w_saver w) ?cur)) @ writes_of (map snd tus) c)"
    using tus by (intro put_updates_pending [OF sav put inv0 has0 _ _ _ plain idle_replay_order [OF idle]]) simp_all
  then have sc: "same_checkpoint ?cur w w1" and pw: "\<And>c. \<not> reserved_channel c \<Longrightarrow>
      map pw_value (of_channel c (pend (w_saver w1) ?cur)) = writes_of (map snd tus) c"
    using idle_values [OF idle] by auto
  have s2: "w_saver w2 = w_saver w1" using q by (simp add: same_store_def)
  have w1: "world_ok env B ?cur w1" using same_checkpoint_world [OF sc] run by (simp add: running_def)
  then have w2: "world_ok env B ?cur w2" using q by (rule world_ok_same_store)
  have has2: "has (w_saver w2) ?cur" using same_checkpoint_has [OF sc] has0 s2 by simp
  then have id: "cf_checkpointID ?cur \<noteq> []" using has_id by blast
  obtain vs where vs: "checkpointValues m' (snd (count_fields input m')) = Inr vs"
    and P: "world_ok env B ?cur w3" "cfg' = ?cur\<lparr>cf_checkpointID := cf_checkpointID cfg'\<rparr>" "has (w_saver w3) cfg'"
      "meta (w_saver w3) cfg' = md" "pend (w_saver w3) cfg' = []"
      "\<And>j. has (w_saver w3) (?cur\<lparr>cf_checkpointID := j\<rparr>) \<Longrightarrow> j \<le> cf_checkpointID cfg'"
    and Pv: "\<And>c. val (w_saver w3) cfg' c =
       (if c \<in> set (version_keys input (snd (count_fields input m')))
        then map_of (persisted_values vs tasks (mi_interrupts input)) c else val (w_saver w2) ?cur c)"
    and Ph: "\<And>c. hist (w_saver w3) cfg' c =
       extend_history (val (w_saver w2) ?cur c) (hist (w_saver w2) ?cur c) (of_channel c (pend (w_saver w2) ?cur))"
    using persist_effect [OF sav per w2 differ clock bound] has2 id by (auto simp: empty_checkpoint_def)
  have vh: "val (w_saver w2) ?cur = val (w_saver w) ?cur" "hist (w_saver w2) ?cur = hist (w_saver w) ?cur"
    using sc s2 by (simp_all add: same_checkpoint_def)
  have "machine_shaped ok (cg_schema g) m' \<and> machine_agrees ok m' (val (w_saver w3) cfg') (hist (w_saver w3) cfg')"
  proof (rule persist_agrees [OF lawful m0(1) good ap m0(2) input(1) vs Pv [unfolded vh]])
    show "mi_forceDeltaSnapshots input \<or> mi_overwrites input = ow \<and>
       (\<forall>k. \<not> reserved_channel k \<longrightarrow> (\<exists>pws. map pw_value pws = writes_of (map snd tus) k \<and>
         hist (w_saver w3) cfg' k = extend_history (val (w_saver w) ?cur k) (hist (w_saver w) ?cur k) pws))"
      using input(2) pw Ph s2 vh by metis
  qed
  moreover have "val (w_saver w3) cfg' ChannelTasks = Some (encodeTasks tasks)"
    using Pv [of ChannelTasks] by (simp add: version_keys_iff interrupt_channel_value)
  moreover have "world_ok env B cfg' w3" using P(1,2) world_ok_id by metis
  moreover have "newest_at cfg' w3"
    unfolding newest_at_def by (subst P(2)) (simp add: P(6))
  moreover have "thread_key cfg' = fst scope" using run by (subst P(2)) (simp add: thread_key_def running_def)
  ultimately show ?thesis using P(3-5) tasks by (simp add: running_def durable_at_def)
qed

end

section \<open>Ticks\<close>

text \<open>Actions move the tick forward only and leave the sessions alone.\<close>

definition ticking :: "('x, 's, 'a) act \<Rightarrow> bool" where
  "ticking a \<longleftrightarrow> (\<forall>w. w_tick w \<le> w_tick (fst (a w)) \<and> w_sessions (fst (a w)) = w_sessions w)"

named_theorems ticking_intros \<open>actions that keep the sessions and do not turn back the tick\<close>

lemma ticking_quiet: "quiet a \<Longrightarrow> ticking a"
  by (simp add: quiet_def ticking_def same_store_def)

lemmas ticking_basic [ticking_intros] = quiet_basic [THEN ticking_quiet] quiet_emit [THEN ticking_quiet]
  executeTasks_quiet [THEN ticking_quiet] route_quiet [THEN ticking_quiet] emit_updates_quiet [THEN ticking_quiet]

lemma tickingD:
  assumes "ticking a" and "a w = (w', r)"
  shows "w_tick w \<le> w_tick w'" "w_sessions w' = w_sessions w"
  using assms unfolding ticking_def by (metis fst_conv)+

lemma ticking_bind [ticking_intros]: "ticking a \<Longrightarrow> (\<And>x. ticking (f x)) \<Longrightarrow> ticking (act_bind a f)"
  unfolding ticking_def act_bind_def
  by (auto split: prod.splits sum.splits) (metis fst_conv order.trans)+

lemma ticking_saver [ticking_intros]: "ticking (act_saver env f)"
  by (simp add: ticking_def act_saver_def split: prod.split)

lemma ticking_each: "(\<And>x. ticking (f x)) \<Longrightarrow> ticking (act_each f xs)"
  by (induction xs) (auto intro!: ticking_intros)

lemma ticking_next_versions [ticking_intros]: "ticking (next_versions sv keys vs nvs)"
  by (induction keys arbitrary: vs nvs) (auto intro!: ticking_intros)

lemma ticking_new_id [ticking_intros]: "ticking (new_id env step)"
  by (simp add: ticking_def new_id_def split: prod.split)

lemma ticking_base_versions [ticking_intros]: "ticking (base_versions env sv pc prev)"
  unfolding base_versions_def by (auto intro!: ticking_intros)

lemma ticking_persist [ticking_intros]: "ticking (persist env g pc prev m tasks input)"
  unfolding persist_def
  by (auto simp: Let_def intro!: ticking_intros split: option.split prod.split)

lemma ticking_put_updates [ticking_intros]: "ticking (put_updates env g cfg tus)"
  unfolding put_updates_def put_update_def
  by (intro ticking_each) (auto intro!: ticking_intros split: option.split)

lemma ticking_superstep [ticking_intros]: "ticking (superstep env g iv deps step resume lc)"
  unfolding superstep_def interrupt_step_def advance_step_def
  by (auto simp: Let_def intro!: ticking_intros ticking_each split: option.split prod.split if_split)

lemma ticking_run_loop [ticking_intros]: "ticking (run_loop env g iv deps n step resume lc)"
  by (induction n arbitrary: step resume lc)
    (auto intro!: ticking_intros split: progress.split)

lemma ticking_put_resume [ticking_intros]: "ticking (put_resume env g iv cfg)"
  unfolding put_resume_def by (auto intro!: ticking_intros split: option.split)


section \<open>Steps\<close>

lemma apply_updates_Inr: "apply_updates m us = Inr (m', ow) \<longleftrightarrow> sm_apply m us = (m', Inr ow)"
  by (auto simp: apply_updates_def split: prod.splits sum.splits)

context saver_contract begin

text \<open>
  What durability relies on: the graph is compiled with this saver, its fields and nodes are lawful,
  no node is nameless, versions never repeat and the clock stays within its range.
\<close>

definition durable_graph :: "env \<Rightarrow> nat \<Rightarrow> (string \<Rightarrow> 'x gval \<Rightarrow> bool) \<Rightarrow> ('x, 's) compiled \<Rightarrow> bool" where
  "durable_graph env B ok g \<longleftrightarrow> (\<exists>options b. Compile options b = Inr g) \<and> co_saver (cg_options g) = Some sv \<and>
     lawful_schema ok (cg_schema g) \<and> good_nodes ok g \<and> map_of (cg_nodes g) [] = None \<and>
     versions_differ sv \<and> clock_bounded env B"

lemma durable_graphD:
  assumes "durable_graph env B ok g"
  shows "co_saver (cg_options g) = Some sv" "lawful_schema ok (cg_schema g)" "versions_differ sv" "clock_bounded env B"
    "good_nodes ok g" "map_of (cg_nodes g) [] = None"
  using assms by (simp_all add: durable_graph_def)

lemma running_machine:
  assumes "running env B scope ok g w lc"
  shows "machine_shaped ok (cg_schema g) (lc_machine lc)"
    "machine_agrees ok (lc_machine lc) (val (w_saver w) (lc_current lc)) (hist (w_saver w) (lc_current lc))"
    "tasks_ok g (lc_tasks lc)"
  using assms by (simp_all add: running_def durable_at_def)

lemma advance_step_durable:
  assumes dg: "durable_graph env B ok g" and run: "running env B scope ok g w lc"
    and step: "advance_step env g iv step lc results w = (w', Inr (Continues lc'))" and bound: "B + w_tick w' < 2 ^ 60"
    and res: "map tr_task results = lc_tasks lc" "\<forall>r \<in> set results. good_updates ok (cg_schema g) [cmd_update (tr_command r)]"
  shows "running env B scope ok g w' lc'"
proof -
  let ?us = "task_updates results"
  let ?tus = "zip (lc_tasks lc) ?us"
  obtain w1 m' ow w2 ts w3 cfg' md where put: "put_updates env g (lc_current lc) ?tus w = (w1, Inr ())"
    and ap: "sm_apply (consumeEphemeral (lc_machine lc)) ?us = (m', Inr ow)"
    and rt: "route g m' results step w1 = (w2, Inr ts)"
    and per: "persist env g (lc_current lc) empty_checkpoint m' ts (loop_input lc ?us ow []) w2 = (w3, Inr (cfg', md))"
    and em: "emit_updates g iv step m' results w3 = (w', Inr ())"
    and lc': "lc' = \<lparr>lc_machine = m', lc_current = cfg', lc_tasks = ts, lc_metadata = md\<rparr>"
    using step by (auto simp: advance_step_def act_simps Let_def apply_updates_Inr res(1))
  have len: "length (lc_tasks lc) = length ?us" using res(1) by (simp add: task_updates_def) (metis length_map)
  have fs: "map fst ?tus = lc_tasks lc" "map snd ?tus = ?us" using len by simp_all
  have "w_tick w3 \<le> w_tick w'" using quietD [OF emit_updates_quiet em] by (simp add: same_store_def)
  then have b3: "B + w_tick w3 < 2 ^ 60" using bound by linarith
  have good: "good_updates ok (cg_schema g) ?us"
    using res(2) by (intro good_updates_all) (auto simp: task_updates_def)
  have tasks: "tasks_ok g ts"
    using route_ordered [OF rt] known_nonempty [OF durable_graphD(6) [OF dg]] by (simp add: tasks_ok_def)
  note ord = running_machine(3) [OF run, unfolded tasks_ok_def ordered_tasks_def]
  have "running env B scope ok g w3 lc'" unfolding lc'
    using ord durable_graphD [OF dg] good ap
    by (intro commit_durable [OF _ _ _ _ b3 run consume_machine(1) [OF running_machine(1) [OF run]] consume_machine(2) [OF running_machine(2) [OF run]] _ _ _ _ put _ quietD [OF route_quiet rt] per _ _ tasks])
       (simp_all add: fs loop_input_def written_updatedKeys)
  then show ?thesis using running_same_store quietD [OF emit_updates_quiet em] by blast
qed

lemma interrupt_step_durable:
  assumes dg: "durable_graph env B ok g" and run: "running env B scope ok g w lc"
    and step: "interrupt_step env g step lc results is w = (w', Inr (Returned ex lc'))" and bound: "B + w_tick w' < 2 ^ 60"
    and res: "map tr_task results = lc_tasks lc" "\<forall>r \<in> set results. good_updates ok (cg_schema g) [cmd_update (tr_command r)]"
  shows "running env B scope ok g w' lc'"
proof -
  let ?us = "interrupt_updates results"
  let ?tus = "zip (lc_tasks lc) ?us"
  obtain w1 m' ow w3 cfg' md where put: "put_updates env g (lc_current lc) ?tus w = (w1, Inr ())"
    and ap: "sm_apply (lc_machine lc) ?us = (m', Inr ow)"
    and per: "persist env g (lc_current lc) empty_checkpoint m' (lc_tasks lc) (loop_input lc ?us ow is) w1 = (w3, Inr (cfg', md))"
    and em: "act_each (\<lambda>i. emit g (EventInterrupt (int step) i)) is w3 = (w', Inr ())"
    and lc': "lc' = \<lparr>lc_machine = m', lc_current = cfg', lc_tasks = lc_tasks lc, lc_metadata = md\<rparr>"
    using step by (auto simp: interrupt_step_def act_simps Let_def apply_updates_Inr res(1))
  have len: "length (lc_tasks lc) = length ?us" using res(1) by (simp add: interrupt_updates_def) (metis length_map)
  have fs: "map fst ?tus = lc_tasks lc" "map snd ?tus = ?us" using len by simp_all
  have em': "same_store w3 w'" using quietD [OF quiet_each [OF quiet_emit] em] .
  then have b3: "B + w_tick w3 < 2 ^ 60" using bound by (simp add: same_store_def)
  have good: "good_updates ok (cg_schema g) ?us"
    using res(2) good_updates_Nil by (intro good_updates_all) (auto simp: interrupt_updates_def)
  note ord = running_machine(3) [OF run, unfolded tasks_ok_def ordered_tasks_def]
  have "running env B scope ok g w3 lc'" unfolding lc'
    using ord durable_graphD [OF dg] good ap
    by (intro commit_durable [OF _ _ _ _ b3 run running_machine(1,2) [OF run] _ _ _ _ put _ same_store_refl per _ _ running_machine(3) [OF run]])
       (simp_all add: fs loop_input_def written_updatedKeys)
  then show ?thesis using running_same_store em' by blast
qed

lemma superstep_durable:
  assumes dg: "durable_graph env B ok g" and run: "running env B scope ok g w lc"
    and step: "superstep env g iv deps step resume lc w = (w', Inr p)" and bound: "B + w_tick w' < 2 ^ 60"
  shows "running env B scope ok g w' (case p of Returned ex lc' \<Rightarrow> lc' | Continues lc' \<Rightarrow> lc')"
proof (cases "lc_tasks lc = []")
  case True
  with step obtain ex where "p = Returned ex lc" and "w' = w\<lparr>w_tick := Suc (w_tick w)\<rparr>"
    by (auto simp: superstep_def act_simps)
  with run running_same_store [of env B scope ok g w lc w'] show ?thesis by (simp add: same_store_def)
next
  case False
  let ?w = "w\<lparr>w_tick := Suc (w_tick w)\<rparr>"
  from False step obtain results w1 where
    ex: "executeTasks env g (lc_machine lc) (lc_tasks lc) (lc_current lc) resume deps (iv_configurable iv) step ?w = (w1, Inr results)"
    and rest: "interrupt_step env g step lc results (collectInterrupts results) w1 = (w', Inr p) \<or>
      advance_step env g iv step lc results w1 = (w', Inr p)"
    by (auto simp: superstep_def act_simps Let_def split: if_splits option.splits)
  note G = executeTasks_good [OF durable_graphD(5) [OF dg] ex]
  have "same_store w ?w" by (simp add: same_store_def)
  then have run1: "running env B scope ok g w1 lc"
    using running_same_store [OF run] quietD [OF executeTasks_quiet ex] same_store_trans by blast
  from rest show ?thesis
  proof
    assume i: "interrupt_step env g step lc results (collectInterrupts results) w1 = (w', Inr p)"
    then obtain ex lc' where "p = Returned ex lc'" using interrupt_step_returned by blast
    with interrupt_step_durable [OF dg run1 _ bound] i G show ?thesis by auto
  next
    assume a: "advance_step env g iv step lc results w1 = (w', Inr p)"
    then obtain lc' where "p = Continues lc'" using advance_step_continues by blast
    with advance_step_durable [OF dg run1 _ bound] a G show ?thesis by auto
  qed
qed

lemma run_loop_durable:
  assumes dg: "durable_graph env B ok g" and run: "running env B scope ok g w lc"
    and loop: "run_loop env g iv deps n step resume lc w = (w', Inr (ex, lc'))" and bound: "B + w_tick w' < 2 ^ 60"
  shows "running env B scope ok g w' lc'"
  using run loop
proof (induction n arbitrary: step resume lc w)
  case (Suc n)
  from Suc.prems(2) obtain w1 p where p: "superstep env g iv deps step resume lc w = (w1, Inr p)"
    "(case p of Returned execution lc' \<Rightarrow> act_ret (execution, lc')
       | Continues lc' \<Rightarrow> run_loop env g iv deps n (Suc step) VNil lc') w1 = (w', Inr (ex, lc'))"
    by (auto simp: act_simps)
  show ?case
  proof (cases p)
    case (Returned ex' lc2)
    with p(2) have "w1 = w'" "lc2 = lc'" by (auto simp: act_simps)
    with superstep_durable [OF dg Suc.prems(1) p(1)] bound Returned show ?thesis by simp
  next
    case (Continues lc2)
    then have l: "run_loop env g iv deps n (Suc step) VNil lc2 w1 = (w', Inr (ex, lc'))" using p(2) by simp
    then have "B + w_tick w1 < 2 ^ 60" using tickingD(1) [OF ticking_run_loop l] bound by linarith
    with superstep_durable [OF dg Suc.prems(1) p(1)] Continues Suc.IH [OF _ l] show ?thesis by simp
  qed
qed (simp add: act_simps)

end

end
