(* ===== verification/Durable_Invocations.thy ===== *)
theory Durable_Invocations
  imports Durable_Execution
begin

text \<open>
  Durability of whole operations over a saver that keeps the contract: restoring, input, invocation with
  or without a retained session, reading and editing the state of a thread.
\<close>

section \<open>Restoring\<close>

lemma map_of_distinct_filter: "distinct (dkeys xs) \<Longrightarrow> map_of (filter (\<lambda>(k, v). P k) xs) k = (if P k then map_of xs k else None)"
  by (induction xs) (auto simp: map_of_eq_None_iff)

lemma deltaNames_iff: "c \<in> set (deltaNames g) \<longleftrightarrow> (\<exists>spec. (c, spec) \<in> set (sc_fields (cg_schema g)) \<and> f_kind spec = FieldDelta)"
  by (force simp: deltaNames_def)

lemma shaped_transfer:
  assumes "machine_shaped ok schema m" and "map_of (sm_fields m') = map_of (sm_fields (consumeEphemeral m))"
    and "sm_schema m' = schema" and "machine_wf m'"
  shows "machine_shaped ok schema m'"
proof -
  have "distinct (dkeys (sm_fields m'))" using assms(4) by (simp add: machine_wf_def)
  with consume_machine(1) [OF assms(1)] assms(3) show ?thesis unfolding machine_shaped_def assms(2) by blast
qed

lemma agrees_transfer:
  assumes "machine_agrees ok m v h" and "map_of (sm_fields m') = map_of (sm_fields (consumeEphemeral m))"
  shows "machine_agrees ok m' v h"
  using consume_machine(2) [OF assms(1)] unfolding machine_agrees_def assms(2) .

context saver_contract begin

definition restored :: "'x locals \<Rightarrow> 'x locals \<Rightarrow> bool" where
  "restored lc lc' \<longleftrightarrow> lc_current lc' = lc_current lc \<and> lc_tasks lc' = lc_tasks lc \<and> lc_metadata lc' = lc_metadata lc \<and>
     map_of (sm_fields (lc_machine lc')) = map_of (sm_fields (consumeEphemeral (lc_machine lc)))"

lemma read_tuple:
  assumes "act_read env (\<lambda>ctx. sv_GetTuple sv ctx cfg) w = (w', Inr r)"
  shows "w' = w\<lparr>w_tick := Suc (w_tick w)\<rparr>" "sv_GetTuple sv None cfg (w_saver w) = Inr r"
proof -
  from assms have r: "w' = w\<lparr>w_tick := Suc (w_tick w)\<rparr>" "sv_GetTuple sv (e_ctx env (w_tick w)) cfg (w_saver w) = Inr r"
    by (simp_all add: act_simps)
  with get_None [OF r(2)] show "w' = w\<lparr>w_tick := Suc (w_tick w)\<rparr>" "sv_GetTuple sv None cfg (w_saver w) = Inr r"
    by simp_all
qed

text \<open>Restoring a durable checkpoint gives back the live state, its ephemeral fields consumed.\<close>

lemma restore_machine:
  assumes lawful: "lawful_schema ok (cg_schema g)" and dur: "durable_at ok g w lc" and iv: "inv (w_saver w)"
    and t: "sv_GetTuple sv None cfg (w_saver w) = Inr (Some t)" "tp_config t = lc_current lc"
    and hs: "\<forall>c \<in> set (deltaNames g). map_of histories c = Some (hist (w_saver w) (lc_current lc) c)"
  shows "\<exists>m. newStateMachine (cg_schema g) (filter (\<lambda>(key, value). \<not> reserved_channel key) (cp_channelValues (tp_checkpoint t))) histories = Inr m \<and>
    decodeTasks (dget VNil (cp_channelValues (tp_checkpoint t)) ChannelTasks) = Inr (lc_tasks lc) \<and>
    tp_metadata t = lc_metadata lc \<and> machine_shaped ok (cg_schema g) m \<and>
    map_of (sm_fields m) = map_of (sm_fields (consumeEphemeral (lc_machine lc)))"
proof -
  let ?cv = "cp_channelValues (tp_checkpoint t)" and ?cur = "lc_current lc"
  have has0: "has (w_saver w) ?cur" and sh: "machine_shaped ok (cg_schema g) (lc_machine lc)"
    and ag: "machine_agrees ok (lc_machine lc) (val (w_saver w) ?cur) (hist (w_saver w) ?cur)"
    using dur by (auto simp: durable_at_def)
  have "sv_GetTuple sv None ?cur (w_saver w) = Inr (Some t)" using latest [OF iv t(1)] t(2) by simp
  with get [OF iv has0] have tup: "tp_metadata t = meta (w_saver w) ?cur" "distinct (dkeys ?cv)"
    "\<And>c. map_of ?cv c = val (w_saver w) ?cur c" by auto
  have st: "map_of (filter (\<lambda>(key, value). \<not> reserved_channel key) ?cv) k = (if reserved_channel k then None else val (w_saver w) ?cur k)" for k
    using map_of_distinct_filter [OF tup(2), of "\<lambda>k. \<not> reserved_channel k" k] tup(3) by simp
  have dis: "distinct (dkeys (filter (\<lambda>(key, value). \<not> reserved_channel key) ?cv))"
    using tup(2) by (rule distinct_map_filter)
  have hist': "map_of histories k = Some (hist (w_saver w) ?cur k)"
    if "map_of (sc_fields (cg_schema g)) k = Some spec" "f_kind spec = FieldDelta" for k spec
    using bspec [OF hs, of k] that map_of_SomeD [OF that(1)] deltaNames_iff by blast
  obtain m where m: "newStateMachine (cg_schema g) (filter (\<lambda>(key, value). \<not> reserved_channel key) ?cv) histories = Inr m"
    "sm_schema m = cg_schema g" "map_of (sm_fields m) = map_of (sm_fields (consumeEphemeral (lc_machine lc)))"
    using newStateMachine_rebuilds [OF lawful sh ag st dis, of histories] hist' by metis
  have "dget VNil ?cv ChannelTasks = encodeTasks (lc_tasks lc)"
    using tup(3) [of ChannelTasks] dur by (simp add: dget_def durable_at_def)
  moreover have "\<forall>t \<in> set (lc_tasks lc). tk_node t \<noteq> []" using dur by (simp add: durable_at_def tasks_ok_def)
  ultimately have "decodeTasks (dget VNil ?cv ChannelTasks) = Inr (lc_tasks lc)" using decodeTasks_inverse by simp
  with m shaped_transfer [OF sh m(3) m(2) newStateMachine_wf [OF m(1)]] tup(1) dur show ?thesis
    by (simp add: durable_at_def)
qed

lemma restore_durable:
  assumes dg: "durable_graph env B ok g" and run: "running env B scope ok g w lc"
    and t: "sv_GetTuple sv None (iv_config iv) (w_saver w) = Inr (Some t)" "tp_config t = lc_current lc"
    and res: "restore env g iv w = (w', Inr lc')"
  shows "same_store w w' \<and> restored lc lc' \<and> running env B scope ok g w' lc'"
proof -
  have iv: "inv (w_saver w)" and dur: "durable_at ok g w lc" using run by (auto simp: running_def world_ok_def)
  note sav = durable_graphD(1) [OF dg] and lawful = durable_graphD(2) [OF dg]
  from res sav obtain t' w1 where t': "act_read env (\<lambda>ctx. sv_GetTuple sv ctx (iv_config iv)) w = (w1, Inr t')"
    and rest: "(case t' of None \<Rightarrow> act_of (fresh_locals g) | Some t \<Rightarrow>
        act_bind (act_read env (\<lambda>ctx. sv_GetDeltaChannelHistory sv ctx (tp_config t) (deltaNames g))) (\<lambda>histories.
        let channelValues = cp_channelValues (tp_checkpoint t);
            storedState = filter (\<lambda>(key, value). \<not> reserved_channel key) channelValues
        in act_of (res_bind (newStateMachine (cg_schema g) storedState histories) (\<lambda>machine.
             res_bind (decodeTasks (dget VNil channelValues ChannelTasks)) (\<lambda>tasks.
               Inr \<lparr>lc_machine = machine, lc_current = tp_config t, lc_tasks = tasks, lc_metadata = tp_metadata t\<rparr>))))) w1 = (w', Inr lc')"
    unfolding restore_def by (simp only: option.case act_bind_Inr) blast
  have w1: "w1 = w\<lparr>w_tick := Suc (w_tick w)\<rparr>" and tt: "t' = Some t"
    using read_tuple [OF t'] t(1) by simp_all
  from rest obtain hs where
    h: "sv_GetDeltaChannelHistory sv (e_ctx env (w_tick w1)) (tp_config t) (deltaNames g) (w_saver w) = Inr hs"
    and w': "w' = w1\<lparr>w_tick := Suc (w_tick w1)\<rparr>"
    and lc': "res_bind (newStateMachine (cg_schema g) (filter (\<lambda>(key, value). \<not> reserved_channel key) (cp_channelValues (tp_checkpoint t))) hs) (\<lambda>machine.
             res_bind (decodeTasks (dget VNil (cp_channelValues (tp_checkpoint t)) ChannelTasks)) (\<lambda>tasks.
               Inr \<lparr>lc_machine = machine, lc_current = tp_config t, lc_tasks = tasks, lc_metadata = tp_metadata t\<rparr>)) = Inr lc'"
    by (auto simp: tt w1 act_bind_Inr act_read_Inr act_of_Inr Let_def)
  have has0: "has (w_saver w) (lc_current lc)" using dur by (simp add: durable_at_def)
  from h history_None [OF h] history [OF iv has0, of "deltaNames g"] t(2)
  have hs: "\<forall>c \<in> set (deltaNames g). map_of hs c = Some (hist (w_saver w) (lc_current lc) c)" by auto
  from restore_machine [OF lawful dur iv t hs] obtain m where
    m: "lc' = \<lparr>lc_machine = m, lc_current = lc_current lc, lc_tasks = lc_tasks lc, lc_metadata = lc_metadata lc\<rparr>"
    "machine_shaped ok (cg_schema g) m" "map_of (sm_fields m) = map_of (sm_fields (consumeEphemeral (lc_machine lc)))"
    using lc' t(2) by auto
  have ss: "same_store w w'" by (simp add: w' w1 same_store_def)
  have "durable_at ok g w lc'"
    using dur m(1,2) agrees_transfer [OF _ m(3)] by (simp add: durable_at_def)
  with run m(1) have "running env B scope ok g w lc'" by (simp add: running_def)
  with ss m show ?thesis using running_same_store by (simp add: restored_def)
qed

end

section \<open>Input\<close>

lemma startTasks_ok:
  assumes "Compile options b = Inr g" and "map_of (cg_nodes g) [] = None"
  shows "tasks_ok g (startTasks g)"
  using startTasks_ordered [OF assms(1)] known_nonempty [OF assms(2)] by (simp add: tasks_ok_def)

context saver_contract begin

lemma durable_startTasks: "durable_graph env B ok g \<Longrightarrow> tasks_ok g (startTasks g)"
  using startTasks_ok unfolding durable_graph_def by blast

lemma forced_durable:
  assumes dg: "durable_graph env B ok g" and bound: "B + w_tick w' < 2 ^ 60" and world: "world_ok env B pc w"
    and m: "machine_shaped ok (cg_schema g) m"
      "machine_agrees ok m (if cf_checkpointID pc = [] then \<lambda>_. None else val (w_saver w) pc) h"
    and good: "good_updates ok (cg_schema g) updates" and ap: "sm_apply m updates = (m', Inr ow)"
    and per: "persist env g pc prev m' tasks input w = (w', Inr (cfg', md))"
    and par: "cf_checkpointID pc = [] \<and> cp_channelVersions prev = [] \<or>
      has (w_saver w) pc \<and> (cp_channelVersions prev = [] \<or> cp_channelVersions prev = vers (w_saver w) pc)"
    and th: "thread_key pc = fst scope"
    and input: "set (mi_updated input) = {k. written updates k}" "mi_forceDeltaSnapshots input" and tasks: "tasks_ok g tasks"
  shows "running env B scope ok g w' \<lparr>lc_machine = m', lc_current = cfg', lc_tasks = tasks, lc_metadata = md\<rparr>"
proof -
  note D = durable_graphD [OF dg]
  obtain vs where vs: "checkpointValues m' (snd (count_fields input m')) = Inr vs"
    and P: "world_ok env B pc w'" "cfg' = pc\<lparr>cf_checkpointID := cf_checkpointID cfg'\<rparr>" "has (w_saver w') cfg'"
      "meta (w_saver w') cfg' = md" "pend (w_saver w') cfg' = []"
      "\<And>j. has (w_saver w') (pc\<lparr>cf_checkpointID := j\<rparr>) \<Longrightarrow> j \<le> cf_checkpointID cfg'"
    and Pv: "\<And>c. val (w_saver w') cfg' c =
       (if c \<in> set (version_keys input (snd (count_fields input m')))
        then map_of (persisted_values vs tasks (mi_interrupts input)) c
        else if cf_checkpointID pc = [] then None else val (w_saver w) pc c)"
    using persist_effect [OF D(1) per world D(3,4) bound par] by auto
  have "machine_shaped ok (cg_schema g) m' \<and> machine_agrees ok m' (val (w_saver w') cfg') (hist (w_saver w') cfg')"
  proof (rule persist_agrees [OF D(2) m(1) good ap m(2) input(1) vs])
    show "val (w_saver w') cfg' k = (if k \<in> set (version_keys input (snd (count_fields input m')))
        then map_of (persisted_values vs tasks (mi_interrupts input)) k
        else (if cf_checkpointID pc = [] then \<lambda>_. None else val (w_saver w) pc) k)" for k
      by (simp add: Pv)
  qed (simp add: input(2))
  moreover have "val (w_saver w') cfg' ChannelTasks = Some (encodeTasks tasks)"
    using Pv [of ChannelTasks] by (simp add: version_keys_iff interrupt_channel_value)
  moreover have "world_ok env B cfg' w'" using P(1,2) world_ok_id by metis
  moreover have "newest_at cfg' w'"
    unfolding newest_at_def by (subst P(2)) (simp add: P(6))
  moreover have "thread_key cfg' = fst scope" using th by (subst P(2)) (simp add: thread_key_def)
  ultimately show ?thesis using P(3-5) tasks by (simp add: running_def durable_at_def)
qed

lemma first_input_durable:
  assumes dg: "durable_graph env B ok g" and bound: "B + w_tick w' < 2 ^ 60" and world: "world_ok env B (iv_config iv) w"
    and m: "newStateMachine (cg_schema g) [] [] = Inr (lc_machine lc)"
    and good: "good_updates ok (cg_schema g) [iv_state iv]"
    and th: "thread_key (iv_config iv) = fst scope" and step: "first_input env g iv lc w = (w', Inr lc')"
  shows "running env B scope ok g w' lc'"
proof -
  let ?pc = "\<lparr>cf_threadID = cf_threadID (iv_config iv), cf_namespace = cf_namespace (iv_config iv), cf_checkpointID = []\<rparr>"
  have pc: "?pc = (iv_config iv)\<lparr>cf_checkpointID := []\<rparr>" by (cases "iv_config iv") simp
  obtain m' ow cfg' md where ap: "sm_apply (lc_machine lc) [iv_state iv] = (m', Inr ow)"
    and per: "persist env g ?pc empty_checkpoint m' (startTasks g)
             \<lparr>mi_source = ''input'', mi_step = -1, mi_updated = keysOf (iv_state iv), mi_overwrites = [],
              mi_interrupts = [], mi_forceDeltaSnapshots = True, mi_previousMetadata = empty_metadata\<rparr> w = (w', Inr (cfg', md))"
    and lc': "lc' = \<lparr>lc_machine = m', lc_current = cfg', lc_tasks = startTasks g, lc_metadata = md\<rparr>"
    using step by (auto simp: first_input_def act_simps Let_def apply_updates_Inr res_simps)
  note F = fresh_machine [OF durable_graphD(2) [OF dg] m]
  have w0: "world_ok env B ?pc w" using world unfolding pc world_ok_id .
  have ag: "machine_agrees ok (lc_machine lc) (if cf_checkpointID ?pc = [] then \<lambda>_. None else val (w_saver w) ?pc) (\<lambda>_. empty_history)"
    using F by simp
  show ?thesis unfolding lc'
    by (rule forced_durable [OF dg bound w0 F [THEN conjunct1] ag good ap per _ _ _ _ durable_startTasks [OF dg]])
      (use th in \<open>simp_all add: written_keysOf empty_checkpoint_def thread_key_def\<close>)
qed

lemma later_input_durable:
  assumes dg: "durable_graph env B ok g" and bound: "B + w_tick w' < 2 ^ 60" and run: "running env B scope ok g w lc"
    and good: "good_updates ok (cg_schema g) [iv_state iv]" and ne: "iv_state iv \<noteq> []"
    and step: "later_input env g iv lc w = (w', Inr lc')"
  shows "running env B scope ok g w' lc'"
proof -
  let ?ts = "if lc_tasks lc = [] then startTasks g else lc_tasks lc"
  let ?task = "\<lparr>tk_node = [], tk_input = [], tk_id = ''__input__'', tk_path = []\<rparr>" and ?in = "iv_state iv"
  note D = durable_graphD [OF dg]
  obtain w1 m' ow cfg' md where put: "act_saver env (\<lambda>ctx. sv_PutWrites sv ctx (lc_current lc) ''__input__'' [] (stateWrites ?in)) w = (w1, Inr ())"
    and ap: "sm_apply (lc_machine lc) [?in] = (m', Inr ow)"
    and per: "persist env g (lc_current lc) empty_checkpoint m' ?ts
             \<lparr>mi_source = ''input'', mi_step = md_step (lc_metadata lc) + 1, mi_updated = keysOf ?in, mi_overwrites = ow,
              mi_interrupts = [], mi_forceDeltaSnapshots = False, mi_previousMetadata = lc_metadata lc\<rparr> w1 = (w', Inr (cfg', md))"
    and lc': "lc' = \<lparr>lc_machine = m', lc_current = cfg', lc_tasks = ?ts, lc_metadata = md\<rparr>"
    using step D(1) by (auto simp: later_input_def act_simps Let_def apply_updates_Inr res_simps)
  have put': "put_updates env g (lc_current lc) [(?task, ?in)] w = (w1, Inr ())"
    using put D(1) ne by (simp add: put_updates_def put_update_def act_bind_def act_ret_def)
  have ts: "tasks_ok g ?ts" using durable_startTasks [OF dg] running_machine(3) [OF run] by simp
  show ?thesis unfolding lc'
    using D good ap by (intro commit_durable [OF _ _ _ _ bound run running_machine(1,2) [OF run] _ _ _ _ put' _ same_store_refl per _ _ ts])
      (simp_all add: written_keysOf)
qed

end

section \<open>Invocations\<close>

context saver_contract begin

lemma put_resume_durable:
  assumes dg: "durable_graph env B ok g" and run: "running env B scope ok g w lc"
    and step: "put_resume env g iv (lc_current lc) w = (w', Inr ())"
  shows "running env B scope ok g w' lc"
proof (cases "iv_resume iv = VNil")
  case True
  with step have "w' = w" by (simp add: put_resume_def act_simps)
  with run show ?thesis by simp
next
  case False
  let ?ws = "[\<lparr>cw_channel = ChannelResume, cw_value = iv_resume iv\<rparr>]" and ?cur = "lc_current lc"
  from False step durable_graphD(1) [OF dg]
  have put: "act_saver env (\<lambda>ctx. sv_PutWrites sv ctx ?cur ''__resume__'' [] ?ws) w = (w', Inr ())"
    by (simp add: put_resume_def)
  have h: "inv (w_saver w)" "has (w_saver w) ?cur" using run by (simp_all add: running_def durable_at_def world_ok_def)
  note P = saver_put_writes [OF h put]
  have "\<forall>x \<in> set (pend (w_saver w') ?cur). idle_write x"
    using P(4) run by (auto simp: running_def durable_at_def idle_write_def reserved_channel_def)
  then show ?thesis
    using run P(1) same_checkpoint_has [OF P(1)] same_checkpoint_world [OF P(1)]
    by (auto simp: running_def durable_at_def newest_at_def same_checkpoint_def)
qed

text \<open>The locals an invocation starts from: nothing stored yet, or a durable state.\<close>

definition starts :: "env \<Rightarrow> nat \<Rightarrow> threadKey \<times> bool \<Rightarrow> (string \<Rightarrow> 'x gval \<Rightarrow> bool) \<Rightarrow> ('x, 's) compiled \<Rightarrow> config \<Rightarrow>
    ('x, 's) world \<Rightarrow> 'x locals \<Rightarrow> bool" where
  "starts env B scope ok g cfg w lc \<longleftrightarrow>
     (if cf_checkpointID (lc_current lc) = []
      then newStateMachine (cg_schema g) [] [] = Inr (lc_machine lc) \<and> world_ok env B cfg w \<and> thread_key cfg = fst scope
      else running env B scope ok g w lc)"

lemma invoke_run_durable:
  assumes dg: "durable_graph env B ok g" and start: "starts env B scope ok g (iv_config iv) w lc0"
    and good: "good_updates ok (cg_schema g) [iv_state iv]"
    and inv: "invoke_run env g iv lc0 w = (w', Inr (ex, lc'))" and bound: "B + w_tick w' < 2 ^ 60"
  shows "running env B scope ok g w' lc' \<and> ex_config ex = lc_current lc' \<and> sm_values (lc_machine lc') = Inr (ex_state ex)"
proof -
  obtain w1 w2 lc deps n where lc: "(if cf_checkpointID (lc_current lc0) = [] then first_input env g iv lc0
       else if iv_state iv \<noteq> [] then later_input env g iv lc0 else act_ret lc0) w = (w1, Inr lc)"
    and put: "put_resume env g iv (lc_current lc) w1 = (w2, Inr ())"
    and run: "run_loop env g iv deps n 0 (iv_resume iv) lc w2 = (w', Inr (ex, lc'))"
    using inv unfolding invoke_run_def act_bind_Inr by auto
  have "w_tick w1 \<le> w_tick w2" "w_tick w2 \<le> w_tick w'"
    using tickingD(1) [OF ticking_put_resume put] tickingD(1) [OF ticking_run_loop run] by blast+
  with bound have b1: "B + w_tick w1 < 2 ^ 60" by linarith
  have "running env B scope ok g w1 lc"
  proof (cases "cf_checkpointID (lc_current lc0) = []")
    case True
    with lc start good show ?thesis by (intro first_input_durable [OF dg b1]) (auto simp: starts_def)
  next
    case False
    then have "running env B scope ok g w lc0" using start by (simp add: starts_def)
    with False lc good later_input_durable [OF dg b1] show ?thesis
      by (cases "iv_state iv = []") (auto simp: act_simps)
  qed
  then have "running env B scope ok g w2 lc" using put_resume_durable [OF dg _ put] by blast
  with run_loop_durable [OF dg _ run bound] run_loop_result [OF run] show ?thesis by blast
qed

definition session_locals :: "'x threadSession \<Rightarrow> 'x stateMachine \<Rightarrow> 'x locals" where
  "session_locals s m = \<lparr>lc_machine = m, lc_current = ts_config s, lc_tasks = ts_tasks s, lc_metadata = ts_metadata s\<rparr>"

text \<open>
  The invariant of a thread between invocations: what its latest checkpoint restores to, and what a
  valid retained session holds, is a durable state.
\<close>

definition resumes :: "env \<Rightarrow> nat \<Rightarrow> (string \<Rightarrow> 'x gval \<Rightarrow> bool) \<Rightarrow> ('x, 's) compiled \<Rightarrow> config \<Rightarrow> ('x, 's) world \<Rightarrow> bool" where
  "resumes env B ok g cfg w \<longleftrightarrow> cf_checkpointID cfg = [] \<and> world_ok env B cfg w \<and>
     (\<forall>t. sv_GetTuple sv None cfg (w_saver w) = Inr (Some t) \<longrightarrow> (\<exists>lc. durable_at ok g w lc \<and> lc_current lc = tp_config t)) \<and>
     (\<forall>s. co_retainThreadState (cg_options g) \<and> map_of (w_sessions w) (thread_key cfg) = Some s \<and> ts_valid s \<longrightarrow>
        (\<exists>m. ts_machine s = Some m \<and> running env B (thread_key cfg, True) ok g w (session_locals s m)))"

lemma config_thread: "thread_key a = thread_key b \<longleftrightarrow> a\<lparr>cf_checkpointID := i\<rparr> = b\<lparr>cf_checkpointID := i\<rparr>"
  by (cases a; cases b) (simp add: thread_key_def)

lemma config_id: "a\<lparr>cf_checkpointID := cf_checkpointID a\<rparr> = a"
  by simp

text \<open>The latest checkpoint is the one a run ended with.\<close>

lemma running_latest:
  assumes run: "running env B (thread_key cfg, True) ok g w lc" and id: "cf_checkpointID cfg = []"
    and r: "sv_GetTuple sv None cfg (w_saver w) = Inr r"
  shows "\<exists>t. r = Some t \<and> tp_config t = lc_current lc"
proof -
  have iv: "inv (w_saver w)" and h: "has (w_saver w) (lc_current lc)" and nw: "newest_at (lc_current lc) w"
    and th: "thread_key (lc_current lc) = thread_key cfg"
    using run by (simp_all add: running_def durable_at_def world_ok_def)
  have eq: "cfg\<lparr>cf_checkpointID := i\<rparr> = (lc_current lc)\<lparr>cf_checkpointID := i\<rparr>" for i
    using th config_thread by metis
  then have "has (w_saver w) (cfg\<lparr>cf_checkpointID := cf_checkpointID (lc_current lc)\<rparr>)" using h by (simp add: eq)
  from newest [OF iv id r this] obtain t where t: "r = Some t" "cf_checkpointID (lc_current lc) \<le> cf_checkpointID (tp_config t)" by blast
  from latest [OF iv r [unfolded t(1)]] have "has (w_saver w) (tp_config t)"
    and tc: "tp_config t = cfg\<lparr>cf_checkpointID := cf_checkpointID (tp_config t)\<rparr>" by blast+
  with nw eq have "cf_checkpointID (tp_config t) \<le> cf_checkpointID (lc_current lc)" unfolding newest_at_def by metis
  with t(2) have same: "cf_checkpointID (tp_config t) = cf_checkpointID (lc_current lc)" by simp
  have "tp_config t = lc_current lc" by (subst tc, subst same, subst eq) simp
  with t(1) show ?thesis by blast
qed

lemma running_sessions: "running env B scope ok g (set_session c s w) lc = running env B scope ok g w lc"
  by (simp add: running_def durable_at_def world_ok_def newest_at_def set_session_def)

end

lemma restore_fresh: "fresh_locals g = Inr lc \<Longrightarrow> newStateMachine (cg_schema g) [] [] = Inr (lc_machine lc) \<and>
    lc_current lc = empty_config \<and> lc_tasks lc = []"
  by (auto simp: fresh_locals_def res_simps)

context saver_contract begin

lemma restore_quiet [quiet_intros]: "quiet (restore env g iv)"
  unfolding restore_def by (auto simp: Let_def intro!: quiet_intros split: option.split)

lemma latest_running:
  assumes world: "world_ok env B cfg w" and id: "cf_checkpointID cfg = []" and dur: "durable_at ok g w lc"
    and t: "sv_GetTuple sv None cfg (w_saver w) = Inr (Some t)" "lc_current lc = tp_config t"
  shows "running env B (thread_key cfg, True) ok g w lc"
proof -
  have iv: "inv (w_saver w)" using world by (simp add: world_ok_def)
  from latest [OF iv t(1)] t(2) have cur: "lc_current lc = cfg\<lparr>cf_checkpointID := cf_checkpointID (lc_current lc)\<rparr>" by simp
  have eq: "(lc_current lc)\<lparr>cf_checkpointID := i\<rparr> = cfg\<lparr>cf_checkpointID := i\<rparr>" for i by (subst cur) simp
  have "world_ok env B (lc_current lc) w" using world world_ok_id cur by metis
  moreover have "newest_at (lc_current lc) w"
    unfolding newest_at_def eq using newest [OF iv id t(1)] t(2) by auto
  moreover have "thread_key (lc_current lc) = thread_key cfg" by (subst cur) (simp add: thread_key_def)
  ultimately show ?thesis using dur by (simp add: running_def)
qed

lemma restore_starts:
  assumes dg: "durable_graph env B ok g" and res: "resumes env B ok g (iv_config iv) w"
    and r: "restore env g iv w = (w', Inr lc0)"
  shows "same_store w w' \<and> starts env B (thread_key (iv_config iv), True) ok g (iv_config iv) w' lc0 \<and>
    (cf_checkpointID (lc_current lc0) = [] \<longrightarrow> lc_tasks lc0 = [])"
proof -
  let ?cfg = "iv_config iv"
  have world: "world_ok env B ?cfg w" and id: "cf_checkpointID ?cfg = []" using res by (simp_all add: resumes_def)
  have ss: "same_store w w'" using quietD [OF restore_quiet r] .
  obtain t' w1 where t': "act_read env (\<lambda>ctx. sv_GetTuple sv ctx ?cfg) w = (w1, Inr t')"
    and none: "t' = None \<Longrightarrow> fresh_locals g = Inr lc0"
    using r durable_graphD(1) [OF dg] by (auto simp: restore_def act_bind_Inr act_of_Inr split: option.splits)
  note T = read_tuple(2) [OF t']
  show ?thesis
  proof (cases t')
    case None
    with none restore_fresh world_ok_same_store [OF world ss] ss show ?thesis
      by (auto simp: starts_def empty_config_def)
  next
    case (Some t)
    with res T obtain lc where lc: "durable_at ok g w lc" "lc_current lc = tp_config t" by (auto simp: resumes_def)
    have run: "running env B (thread_key ?cfg, True) ok g w lc"
      using latest_running [OF world id lc(1) _ lc(2)] T Some by simp
    from restore_durable [OF dg run T [unfolded Some] lc(2) [symmetric] r]
    have run': "running env B (thread_key ?cfg, True) ok g w' lc0" by blast
    then have "cf_checkpointID (lc_current lc0) \<noteq> []" using has_id by (auto simp: running_def durable_at_def)
    with run' ss show ?thesis by (simp add: starts_def)
  qed
qed

lemma running_resumes:
  assumes id: "cf_checkpointID cfg = []" and run: "running env B (thread_key cfg, True) ok g w lc"
    and ses: "\<And>s. co_retainThreadState (cg_options g) \<Longrightarrow> map_of (w_sessions w) (thread_key cfg) = Some s \<Longrightarrow> ts_valid s \<Longrightarrow>
      \<exists>m. ts_machine s = Some m \<and> running env B (thread_key cfg, True) ok g w (session_locals s m)"
  shows "resumes env B ok g cfg w"
proof -
  have "thread_key (lc_current lc) = thread_key cfg" using run by (simp add: running_def)
  then have "(lc_current lc)\<lparr>cf_checkpointID := []\<rparr> = cfg\<lparr>cf_checkpointID := []\<rparr>" using config_thread by blast
  then have "world_ok env B cfg w" using run world_ok_id unfolding running_def by metis
  moreover have "\<exists>lc. durable_at ok g w lc \<and> lc_current lc = tp_config t" if "sv_GetTuple sv None cfg (w_saver w) = Inr (Some t)" for t
    using running_latest [OF run id that] run by (auto simp: running_def)
  ultimately show ?thesis using id ses by (simp add: resumes_def)
qed

lemma restoreRetained_starts:
  assumes dg: "durable_graph env B ok g" and res: "resumes env B ok g (iv_config iv) w"
    and s: "session = None \<or> co_retainThreadState (cg_options g) \<and>
      (session = map_of (w_sessions w) (thread_key (iv_config iv)))"
    and r: "restoreRetained env g iv session w = (w', Inr lc0)"
  shows "same_store w w' \<and> starts env B (thread_key (iv_config iv), True) ok g (iv_config iv) w' lc0"
proof (cases "\<exists>x. session = Some x \<and> ts_valid x")
  case True
  then obtain x where x: "session = Some x" "ts_valid x" by blast
  with s have "co_retainThreadState (cg_options g)" "map_of (w_sessions w) (thread_key (iv_config iv)) = Some x" by auto
  with x res obtain m where m: "ts_machine x = Some m" "running env B (thread_key (iv_config iv), True) ok g w (session_locals x m)"
    unfolding resumes_def by blast
  with r x have "w' = w" "lc0 = session_locals x m" by (auto simp: restoreRetained_def act_simps session_locals_def)
  moreover have "cf_checkpointID (ts_config x) \<noteq> []"
    using m(2) has_id by (auto simp: running_def durable_at_def session_locals_def)
  ultimately show ?thesis using m(2) by (simp add: starts_def session_locals_def)
next
  case False
  with r have "restore env g iv w = (w', Inr lc0)" by (auto simp: restoreRetained_def split: option.splits)
  with restore_starts [OF dg res] show ?thesis by blast
qed

lemma resumes_stale:
  assumes "resumes env B ok g cfg w" and "\<not> ts_valid s"
  shows "resumes env B ok g cfg (set_session c s w)"
proof -
  have d: "durable_at ok g (set_session c s w) lc = durable_at ok g w lc" "world_ok env B cfg (set_session c s w) = world_ok env B cfg w" for lc
    by (simp_all add: durable_at_def world_ok_def set_session_def)
  have "\<exists>m. ts_machine x = Some m \<and> running env B (thread_key cfg, True) ok g w (session_locals x m)"
    if "co_retainThreadState (cg_options g)" "map_of (w_sessions (set_session c s w)) (thread_key cfg) = Some x" "ts_valid x" for x
    using that assms unfolding resumes_def by (cases "thread_key cfg = thread_key c") (auto simp: set_session_def)
  then show ?thesis using assms(1) unfolding resumes_def d running_sessions by (auto simp: set_session_def)
qed

lemma resumes_session:
  assumes "resumes env B ok g cfg w" and "get_threadSession g c w = (w', Inr session)"
  shows "resumes env B ok g cfg w' \<and> w_saver w' = w_saver w \<and> (session = None \<longleftrightarrow> \<not> co_retainThreadState (cg_options g)) \<and>
    (session \<noteq> None \<longrightarrow> session = map_of (w_sessions w') (thread_key c))"
proof (cases "co_retainThreadState (cg_options g) \<and> map_of (w_sessions w) (thread_key c) = None")
  case True
  then have w': "w' = set_session c empty_session w" "session = Some empty_session"
    using assms(2) by (auto simp: get_threadSession_def set_session_def)
  moreover have "resumes env B ok g cfg w'"
    unfolding w' by (rule resumes_stale [OF assms(1)]) (simp add: empty_session_def)
  ultimately show ?thesis using True by (simp add: set_session_def)
next
  case False
  then consider "\<not> co_retainThreadState (cg_options g)"
    | x where "co_retainThreadState (cg_options g)" "map_of (w_sessions w) (thread_key c) = Some x" by auto
  then have "w' = w \<and> (session = None \<longleftrightarrow> \<not> co_retainThreadState (cg_options g)) \<and>
      (session \<noteq> None \<longrightarrow> session = map_of (w_sessions w) (thread_key c))"
  proof cases
    case 1
    with assms(2) show ?thesis by (auto simp: get_threadSession_def)
  next
    case (2 x)
    with assms(2) have "w' = w" "session = Some x" by (simp_all add: get_threadSession_def)
    with 2 show ?thesis by simp
  qed
  with assms(1) show ?thesis by blast
qed

lemma Invoke_durable:
  assumes dg: "durable_graph env B ok g" and res: "resumes env B ok g (iv_config iv) w"
    and good: "good_updates ok (cg_schema g) [iv_state iv]"
    and inv: "Invoke env g iv w = (w', Inr ex)" and bound: "B + w_tick w' < 2 ^ 60"
  shows "resumes env B ok g (iv_config iv) w' \<and> (\<exists>lc. running env B (thread_key (iv_config iv), True) ok g w' lc \<and>
    lc_current lc = ex_config ex \<and> sm_values (lc_machine lc) = Inr (ex_state ex))"
proof -
  let ?cfg = "iv_config iv"
  let ?scope = "(thread_key ?cfg, True)"
  have id: "cf_checkpointID ?cfg = []" using res by (simp add: resumes_def)
  obtain w1 session where s: "get_threadSession g ?cfg w = (w1, Inr session)"
    and i: "invoke env g iv session w1 = (w', Inr ex)"
    using inv id by (auto simp: Invoke_def act_bind_Inr act_of_Inr)
  note R = resumes_session [OF res s]
  obtain w2 lc0 where r: "restoreRetained env g iv session w1 = (w2, Inr lc0)"
    and body: "(case session of
         None \<Rightarrow> act_bind (invoke_run env g iv lc0) (\<lambda>(execution, lc). act_ret execution) w2
       | Some s \<Rightarrow> (case invoke_run env g iv lc0 w2 of
             (w', Inl e) \<Rightarrow> (set_session ?cfg (s\<lparr>ts_valid := False\<rparr>) w', Inl e)
           | (w', Inr (execution, lc)) \<Rightarrow>
               (set_session ?cfg \<lparr>ts_valid = True, ts_machine = Some (lc_machine lc), ts_config = lc_current lc,
                   ts_tasks = lc_tasks lc, ts_metadata = lc_metadata lc\<rparr> w', Inr execution))) = (w', Inr ex)"
    using i unfolding invoke_def act_bind_Inr by blast
  obtain w3 lc where run: "invoke_run env g iv lc0 w2 = (w3, Inr (ex, lc))"
    and w': "w' = (case session of None \<Rightarrow> w3 | Some s \<Rightarrow>
      set_session ?cfg \<lparr>ts_valid = True, ts_machine = Some (lc_machine lc), ts_config = lc_current lc,
                   ts_tasks = lc_tasks lc, ts_metadata = lc_metadata lc\<rparr> w3)"
    using body by (cases "invoke_run env g iv lc0 w2") (auto simp: act_simps split: option.splits sum.splits prod.splits)
  have "session = None \<or> co_retainThreadState (cg_options g) \<and> session = map_of (w_sessions w1) (thread_key ?cfg)" using R by auto
  from restoreRetained_starts [OF dg R [THEN conjunct1] this r]
  have st: "starts env B ?scope ok g ?cfg w2 lc0" by blast
  have "w_tick w' = w_tick w3" by (simp add: w' set_session_def split: option.split)
  then have b3: "B + w_tick w3 < 2 ^ 60" using bound by simp
  note I = invoke_run_durable [OF dg st good run b3]
  have run': "running env B ?scope ok g w' lc" using I by (simp add: w' running_sessions split: option.split)
  have "resumes env B ok g ?cfg w'"
  proof (rule running_resumes [OF id run'])
    fix x assume "co_retainThreadState (cg_options g)" "map_of (w_sessions w') (thread_key ?cfg) = Some x" "ts_valid x"
    then have "x = \<lparr>ts_valid = True, ts_machine = Some (lc_machine lc), ts_config = lc_current lc,
                   ts_tasks = lc_tasks lc, ts_metadata = lc_metadata lc\<rparr>"
      using R by (auto simp: w' set_session_def split: option.splits)
    then show "\<exists>m. ts_machine x = Some m \<and> running env B ?scope ok g w' (session_locals x m)"
      using run' by (cases lc) (simp add: session_locals_def)
  qed
  with run' I show ?thesis by auto
qed

lemma resumes_same_store:
  assumes "resumes env B ok g cfg w" and ss: "same_store w w'"
  shows "resumes env B ok g cfg w'"
proof -
  have w: "w_saver w' = w_saver w" "w_sessions w' = w_sessions w" using ss by (simp_all add: same_store_def)
  have d: "durable_at ok g w' lc = durable_at ok g w lc" for lc by (simp add: durable_at_def w)
  show ?thesis
    using assms(1) world_ok_same_store [OF _ ss] running_same_store [OF _ ss] unfolding resumes_def w d by blast
qed

text \<open>A snapshot of a durable checkpoint reads back its state, without the ephemeral fields.\<close>

lemma seen_consume: "seen (consume_field f) = (if f_kind (fs_spec f) = FieldEphemeral then None else seen f)"
  by (simp add: seen_def consume_field_def)

lemma Snapshot_durable:
  assumes dg: "durable_graph env B ok g" and run: "running env B scope ok g w lc" and ctx: "\<And>t. e_ctx env t = None"
    and t: "sv_GetTuple sv None cfg (w_saver w) = Inr (Some t)" "tp_config t = lc_current lc" and cfg: "cf_threadID cfg \<noteq> []"
    and vs: "sm_values (lc_machine lc) = Inr vs"
  shows "\<exists>w' sp. graph_Snapshot env g cfg w = (w', Inr sp) \<and> same_store w w' \<and> sp_config sp = lc_current lc \<and>
    sp_metadata sp = lc_metadata lc \<and> sp_next sp = sort (map tk_node (lc_tasks lc)) \<and>
    (\<forall>k. map_of (sp_state sp) k = (if f_kind (spec_of (cg_schema g) k) = FieldEphemeral then None else map_of vs k))"
proof -
  have iv: "inv (w_saver w)" and dur: "durable_at ok g w lc" using run by (simp_all add: running_def world_ok_def)
  note D = durable_graphD [OF dg]
  have h: "has (w_saver w) (lc_current lc)" and sh: "machine_shaped ok (cg_schema g) (lc_machine lc)"
    using dur by (simp_all add: durable_at_def)
  obtain hs where hs: "sv_GetDeltaChannelHistory sv None (lc_current lc) (deltaNames g) (w_saver w) = Inr hs"
    "\<forall>c \<in> set (deltaNames g). map_of hs c = Some (hist (w_saver w) (lc_current lc) c)"
    using history [OF iv h] by blast
  from restore_machine [OF D(2) dur iv t hs(2)] obtain m where
    m: "newStateMachine (cg_schema g) (filter (\<lambda>(key, value). \<not> reserved_channel key) (cp_channelValues (tp_checkpoint t))) hs = Inr m"
    "decodeTasks (dget VNil (cp_channelValues (tp_checkpoint t)) ChannelTasks) = Inr (lc_tasks lc)"
    "tp_metadata t = lc_metadata lc" "machine_shaped ok (cg_schema g) m"
    "map_of (sm_fields m) = map_of (sm_fields (consumeEphemeral (lc_machine lc)))" by blast
  let ?w = "w\<lparr>w_tick := Suc (Suc (w_tick w))\<rparr>"
  have r: "restore env g (state_invocation cfg) w = (?w, Inr \<lparr>lc_machine = m, lc_current = lc_current lc,
      lc_tasks = lc_tasks lc, lc_metadata = lc_metadata lc\<rparr>)"
    using D(1) t hs(1) m(1-3) ctx
    by (simp add: restore_def state_invocation_def act_bind_def act_read_def act_of_def Let_def)
  obtain vs' where vs': "sm_values m = Inr vs'" "\<forall>k. map_of vs' k = Option.bind (map_of (sm_fields m) k) seen"
    using sm_values_seen [OF machine_shaped_wf [OF D(2) m(4)]] by blast
  obtain vs0 where "sm_values (lc_machine lc) = Inr vs0" "\<forall>k. map_of vs0 k = Option.bind (map_of (sm_fields (lc_machine lc)) k) seen"
    using sm_values_seen [OF machine_shaped_wf [OF D(2) sh]] by blast
  with vs have v0: "map_of vs k = Option.bind (map_of (sm_fields (lc_machine lc)) k) seen" for k by simp
  have "map_of vs' k = (if f_kind (spec_of (cg_schema g) k) = FieldEphemeral then None else map_of vs k)" for k
  proof (cases "map_of (sm_fields (lc_machine lc)) k")
    case None
    then show ?thesis using vs'(2) v0 [of k] unfolding m(5) by simp
  next
    case (Some f)
    with machine_shapedD(1) [OF sh Some] show ?thesis using vs'(2) v0 [of k] unfolding m(5) by (simp add: seen_consume)
  qed
  moreover have "same_store w ?w" by (simp add: same_store_def)
  ultimately show ?thesis using r vs'(1) cfg
    by (simp add: graph_Snapshot_def act_bind_def act_of_def act_ret_def config_Validate_def)
qed

lemma UpdateState_durable:
  assumes dg: "durable_graph env B ok g" and res: "resumes env B ok g (iv_config iv) w"
    and good: "good_updates ok (cg_schema g) [iv_state iv]"
    and upd: "UpdateState env g iv w = (w', Inr sp)" and bound: "B + w_tick w' < 2 ^ 60"
  shows "resumes env B ok g (iv_config iv) w' \<and> (\<exists>lc. running env B (thread_key (iv_config iv), True) ok g w' lc \<and>
    lc_current lc = sp_config sp \<and> sm_values (lc_machine lc) = Inr (sp_state sp) \<and> lc_metadata lc = sp_metadata sp \<and>
    sp_next sp = sort (map tk_node (lc_tasks lc)))"
proof -
  let ?cfg = "iv_config iv"
  let ?scope = "(thread_key ?cfg, True)"
  have id: "cf_checkpointID ?cfg = []" using res by (simp add: resumes_def)
  let ?pc = "\<lambda>lc. if cf_checkpointID (lc_current lc) = []
    then \<lparr>cf_threadID = cf_threadID ?cfg, cf_namespace = cf_namespace ?cfg, cf_checkpointID = []\<rparr> else lc_current lc"
  obtain w1 session w2 w3 lc m' ow w4 prev cfg' md vs step where s: "get_threadSession g ?cfg w = (w1, Inr session)"
    and i: "invalidate ?cfg session w1 = (w2, Inr ())" and r: "restore env g iv w2 = (w3, Inr lc)"
    and ap: "sm_apply (lc_machine lc) [iv_state iv] = (m', Inr ow)"
    and prev: "(if cf_checkpointID (lc_current lc) \<noteq> [] then previous_checkpoint env sv (lc_current lc) else act_ret empty_checkpoint) w3 = (w4, Inr prev)"
    and per: "persist env g (?pc lc) prev m' (lc_tasks lc) \<lparr>mi_source = ''update'', mi_step = step, mi_updated = keysOf (iv_state iv),
               mi_overwrites = ow, mi_interrupts = [], mi_forceDeltaSnapshots = True, mi_previousMetadata = lc_metadata lc\<rparr> w4 = (w', Inr (cfg', md))"
    and vs: "sm_values m' = Inr vs"
    and sp: "sp = \<lparr>sp_config = cfg', sp_state = vs, sp_metadata = md, sp_next = sort (map tk_node (lc_tasks lc))\<rparr>"
    using upd durable_graphD(1) [OF dg]
    by (auto simp: UpdateState_def act_bind_Inr act_of_Inr act_ret_Inr Let_def apply_updates_Inr split: if_splits)
  note R = resumes_session [OF res s]
  have r2: "resumes env B ok g ?cfg w2"
    and stale: "\<And>x. co_retainThreadState (cg_options g) \<Longrightarrow> map_of (w_sessions w2) (thread_key ?cfg) = Some x \<Longrightarrow> \<not> ts_valid x"
    using i R resumes_stale [of env B ok g ?cfg w1] by (auto simp: invalidate_def set_session_def split: option.splits)
  note S = restore_starts [OF dg r2 r]
  have pq: "quiet (previous_checkpoint env sv c)" for c unfolding previous_checkpoint_def by (intro quiet_intros)
  have w4: "same_store w3 w4" using prev quietD [OF pq] by (cases "cf_checkpointID (lc_current lc) = []") (simp_all add: act_simps)
  have ses: "w_sessions w' = w_sessions w2"
    using tickingD(2) [OF ticking_persist per] w4 S by (simp add: same_store_def)
  have run: "running env B ?scope ok g w' \<lparr>lc_machine = m', lc_current = cfg', lc_tasks = lc_tasks lc, lc_metadata = md\<rparr>"
  proof (cases "cf_checkpointID (lc_current lc) = []")
    case True
    then have pc: "?pc lc = ?cfg\<lparr>cf_checkpointID := []\<rparr>" by (cases "?cfg") simp
    have st: "newStateMachine (cg_schema g) [] [] = Inr (lc_machine lc)" "world_ok env B ?cfg w3" "lc_tasks lc = []"
      using S True by (auto simp: starts_def)
    note F = fresh_machine [OF durable_graphD(2) [OF dg] st(1)]
    have world: "world_ok env B (?pc lc) w4" unfolding pc world_ok_id using st(2) w4 by (rule world_ok_same_store)
    have ag: "machine_agrees ok (lc_machine lc) (if cf_checkpointID (?pc lc) = [] then \<lambda>_. None else val (w_saver w4) (?pc lc)) (\<lambda>_. empty_history)"
      using F by (simp add: pc)
    have "prev = empty_checkpoint" using prev True by (simp add: act_simps)
    then show ?thesis
      by (intro forced_durable [OF dg bound world F [THEN conjunct1] ag good ap per])
        (simp_all add: written_keysOf empty_checkpoint_def thread_key_def True st(3) tasks_ok_def ordered_tasks_def)
  next
    case False
    then have "running env B ?scope ok g w3 lc" using S by (simp add: starts_def)
    then have run4: "running env B ?scope ok g w4 lc" using w4 by (rule running_same_store)
    have pc: "?pc lc = lc_current lc" using False by simp
    have iv: "inv (w_saver w4)" and h: "has (w_saver w4) (lc_current lc)" and world: "world_ok env B (?pc lc) w4"
      using run4 False by (simp_all add: running_def durable_at_def world_ok_def)
    obtain t w5 where "act_read env (\<lambda>ctx. sv_GetTuple sv ctx (lc_current lc)) w3 = (w5, Inr t)"
      and prev': "prev = (case t of None \<Rightarrow> empty_checkpoint | Some t \<Rightarrow> tp_checkpoint t)"
      using prev False by (auto simp: previous_checkpoint_def act_bind_Inr act_ret_Inr)
    then have "sv_GetTuple sv None (lc_current lc) (w_saver w4) = Inr t"
      using read_tuple(2) w4 by (simp add: same_store_def)
    with get [OF iv h] prev' have pv: "cp_channelVersions prev = vers (w_saver w4) (lc_current lc)" by auto
    have ag: "machine_agrees ok (lc_machine lc) (if cf_checkpointID (?pc lc) = [] then \<lambda>_. None else val (w_saver w4) (?pc lc))
        (hist (w_saver w4) (lc_current lc))"
      using running_machine(2) [OF run4] False by simp
    show ?thesis
      by (rule forced_durable [OF dg bound world running_machine(1) [OF run4] ag good ap per])
        (use h pv False running_machine(3) [OF run4] run4 in \<open>simp_all add: written_keysOf running_def\<close>)
  qed
  have "resumes env B ok g ?cfg w'"
    by (rule running_resumes [OF id run]) (use stale ses in auto)
  with run vs show ?thesis
    by (intro conjI exI [of _ "\<lparr>lc_machine = m', lc_current = cfg', lc_tasks = lc_tasks lc, lc_metadata = md\<rparr>"]) (simp_all add: sp)
qed

end

end
