(* ===== verification/Durable_Threads.thy ===== *)
theory Durable_Threads
  imports Durable_Invocations
begin

text \<open>
  The durability theorems for the in-memory saver: whatever sequence of invocations, state edits, reads
  and recompilations a thread goes through, what an operation returned is what the saver gives back.
\<close>

section \<open>Threads over the in-memory saver\<close>

text \<open>
  The history of one thread in a process: it starts with an empty saver; then the graph is invoked, its
  state edited or read, or the graph is compiled again (its retained sessions are lost), in any order.
  The last result is the configuration and the state that \<^verbatim>\<open>Invoke\<close> or \<^verbatim>\<open>UpdateState\<close> returned.
\<close>

inductive thread_run ::
  "env \<Rightarrow> nat \<Rightarrow> (string \<Rightarrow> 'x gval \<Rightarrow> bool) \<Rightarrow> ('x, 'x memorySaver) compiled \<Rightarrow> config \<Rightarrow>
   ('x, 'x memorySaver) world \<Rightarrow> (config \<times> 'x vals) option \<Rightarrow> bool"
  for env B ok g cfg where
  run_start: "w_saver w = NewMemorySaver \<Longrightarrow> w_sessions w = [] \<Longrightarrow> unat (w_clock w) \<le> B + w_tick w \<Longrightarrow>
    thread_run env B ok g cfg w None"
| run_invoke: "thread_run env B ok g cfg w r \<Longrightarrow> iv_config iv = cfg \<Longrightarrow> good_updates ok (cg_schema g) [iv_state iv] \<Longrightarrow>
    Invoke env g iv w = (w', Inr ex) \<Longrightarrow> B + w_tick w' < 2 ^ 60 \<Longrightarrow>
    thread_run env B ok g cfg w' (Some (ex_config ex, ex_state ex))"
| run_update: "thread_run env B ok g cfg w r \<Longrightarrow> iv_config iv = cfg \<Longrightarrow> good_updates ok (cg_schema g) [iv_state iv] \<Longrightarrow>
    UpdateState env g iv w = (w', Inr sp) \<Longrightarrow> B + w_tick w' < 2 ^ 60 \<Longrightarrow>
    thread_run env B ok g cfg w' (Some (sp_config sp, sp_state sp))"
| run_read: "thread_run env B ok g cfg w r \<Longrightarrow> graph_Snapshot env g c w = (w', q) \<Longrightarrow> thread_run env B ok g cfg w' r"
| run_compile: "thread_run env B ok g cfg w r \<Longrightarrow> thread_run env B ok g cfg (w\<lparr>w_sessions := []\<rparr>) r"

lemma fresh_memory:
  assumes "w_saver w = NewMemorySaver" and "unat (w_clock w) \<le> B + w_tick w" and "w_sessions w = []" and "cf_checkpointID cfg = []"
  shows "mem.resumes fractions env B ok g cfg w"
proof -
  have "mem_inv NewMemorySaver"
    by (simp add: mem_inv_def NewMemorySaver_def saver_ok_def saver_distinct_def parents_older_def)
  moreover have "memory_GetTuple None cfg NewMemorySaver \<noteq> Inr (Some t)" for t
    using assms(4) by (simp add: memory_GetTuple_def getTupleLocked_def latest_id_def NewMemorySaver_def res_simps)
  ultimately show ?thesis using assms
    by (simp add: mem.resumes_def mem.world_ok_def memory_saver_ops issued_ids_def fresh_versions_def mem_has_def mem_unused_def)
      (auto simp: NewMemorySaver_def)
qed

definition last_result :: "(nat \<Rightarrow> string res) \<Rightarrow> env \<Rightarrow> nat \<Rightarrow> (string \<Rightarrow> 'x gval \<Rightarrow> bool) \<Rightarrow> ('x, 'x memorySaver) compiled \<Rightarrow>
    config \<Rightarrow> ('x, 'x memorySaver) world \<Rightarrow> (config \<times> 'x vals) option \<Rightarrow> bool" where
  "last_result fractions env B ok g cfg w r \<longleftrightarrow> (\<forall>c vs. r = Some (c, vs) \<longrightarrow>
     (\<exists>lc. mem.running fractions env B (thread_key cfg, True) ok g w lc \<and> lc_current lc = c \<and> sm_values (lc_machine lc) = Inr vs))"

lemma last_result_mono:
  assumes "last_result fractions env B ok g cfg w r"
    and "\<And>lc. mem.running fractions env B (thread_key cfg, True) ok g w lc \<Longrightarrow> mem.running fractions env B (thread_key cfg, True) ok g w' lc"
  shows "last_result fractions env B ok g cfg w' r"
  unfolding last_result_def
proof (intro allI impI)
  fix c vs assume "r = Some (c, vs)"
  with assms(1) obtain lc where lc: "mem.running fractions env B (thread_key cfg, True) ok g w lc" "lc_current lc = c" "sm_values (lc_machine lc) = Inr vs"
    by (auto simp: last_result_def)
  with assms(2) [OF lc(1)] show "\<exists>lc. mem.running fractions env B (thread_key cfg, True) ok g w' lc \<and> lc_current lc = c \<and> sm_values (lc_machine lc) = Inr vs"
    by blast
qed

lemma thread_run_resumes:
  assumes "mem.durable_graph fractions env B ok g" and id: "cf_checkpointID cfg = []" and "thread_run env B ok g cfg w r"
  shows "mem.resumes fractions env B ok g cfg w \<and> last_result fractions env B ok g cfg w r"
  using assms(3)
proof induction
  case (run_start w)
  then show ?case using fresh_memory id by (auto simp: last_result_def)
next
  case (run_invoke w r iv w' ex)
  with mem.Invoke_durable [OF assms(1), of iv w w' ex] show ?case by (auto simp: last_result_def)
next
  case (run_update w r iv w' sp)
  with mem.UpdateState_durable [OF assms(1), of iv w w' sp] show ?case by (fastforce simp: last_result_def)
next
  case (run_read w r c w' q)
  have "quiet (graph_Snapshot env g c)"
    unfolding graph_Snapshot_def by (intro quiet_intros)
  then have ss: "same_store w w'" using run_read(2) by (rule quietD)
  have "mem.resumes fractions env B ok g cfg w'"
    using run_read(3) mem.resumes_same_store [OF _ ss] by blast
  moreover have "last_result fractions env B ok g cfg w' r"
    using run_read(3) [THEN conjunct2] mem.running_same_store [OF _ ss] by (rule last_result_mono)
  ultimately show ?case by blast
next
  case (run_compile w r)
  have d: "mem.durable_at ok g (w\<lparr>w_sessions := []\<rparr>) lc = mem.durable_at ok g w lc"
    "mem.world_ok fractions env B cfg (w\<lparr>w_sessions := []\<rparr>) = mem.world_ok fractions env B cfg w"
    "mem.running fractions env B scope ok g (w\<lparr>w_sessions := []\<rparr>) lc = mem.running fractions env B scope ok g w lc" for lc scope
    by (simp_all add: mem.durable_at_def mem.world_ok_def mem.running_def mem.newest_at_def)
  from run_compile show ?case unfolding mem.resumes_def last_result_def d by simp
qed


lemma latest_or_named:
  assumes run: "mem.running fractions env B (thread_key cfg, True) ok g w lc" and id: "cf_checkpointID cfg = []"
    and th: "cf_threadID cfg \<noteq> []" and target: "target = cfg \<or> target = lc_current lc"
  shows "\<exists>t. memory_GetTuple None target (w_saver w) = Inr (Some t) \<and> tp_config t = lc_current lc \<and> cf_threadID target \<noteq> []"
proof -
  have iv: "mem_inv (w_saver w)" and h: "mem_has (w_saver w) (lc_current lc)"
    using run by (simp_all add: mem.running_def mem.durable_at_def mem.world_ok_def)
  show ?thesis
  proof (cases "target = lc_current lc")
    case True
    with mem.get [OF iv h] mem.has_id [OF h] show ?thesis by (auto simp: memory_saver_ops)
  next
    case False
    with target have tc: "target = cfg" by blast
    have "memory_GetTuple None cfg (w_saver w) = Inr (getTupleLocked cfg (w_saver w))"
      using th by (simp add: memory_GetTuple_def ctx_err_def config_Validate_def)
    with mem.running_latest [OF run id, of "getTupleLocked cfg (w_saver w)"] th show ?thesis
      by (auto simp: memory_saver_ops tc)
  qed
qed

lemma thread_run_snapshot:
  assumes dg: "mem.durable_graph fractions env B ok g" and id: "cf_checkpointID cfg = []" and th: "cf_threadID cfg \<noteq> []"
    and run: "thread_run env B ok g cfg w (Some (c, vs))" and ctx: "\<And>t. e_ctx env t = None" and target: "target = cfg \<or> target = c"
  shows "\<exists>w' sp. graph_Snapshot env g target w = (w', Inr sp) \<and> sp_config sp = c \<and>
    (\<forall>k. map_of (sp_state sp) k = (if f_kind (spec_of (cg_schema g) k) = FieldEphemeral then None else map_of vs k))"
proof -
  obtain lc where lc: "mem.running fractions env B (thread_key cfg, True) ok g w lc" "lc_current lc = c" "sm_values (lc_machine lc) = Inr vs"
    using thread_run_resumes [OF dg id run] by (auto simp: last_result_def)
  obtain t where "memory_GetTuple None target (w_saver w) = Inr (Some t)" "tp_config t = lc_current lc" "cf_threadID target \<noteq> []"
    using latest_or_named [OF lc(1) id th, of target] target lc(2) by blast
  then obtain w' sp where "graph_Snapshot env g target w = (w', Inr sp) \<and> same_store w w' \<and> sp_config sp = lc_current lc \<and>
    sp_metadata sp = lc_metadata lc \<and> sp_next sp = sort (map tk_node (lc_tasks lc)) \<and>
    (\<forall>k. map_of (sp_state sp) k = (if f_kind (spec_of (cg_schema g) k) = FieldEphemeral then None else map_of vs k))"
    using mem.Snapshot_durable [OF dg lc(1) ctx _ _ _ lc(3), of target] by (auto simp: memory_saver_ops)
  with lc(2) show ?thesis by (intro exI [of _ w'] exI [of _ sp]) simp
qed

section \<open>Durability\<close>

lemma memory_durable_graph:
  assumes "Compile options b = Inr g" and "co_saver (cg_options g) = Some (memory_saver fractions)"
    and "lawful_schema ok (cg_schema g)" and "good_nodes ok g" and "map_of (cg_nodes g) [] = None"
    and "versions_differ (memory_saver fractions :: ('x, 'x memorySaver) saver)" and "clock_bounded env B"
  shows "mem.durable_graph fractions env B ok (g :: ('x, 'x memorySaver) compiled)"
  unfolding mem.durable_graph_def using assms by blast



section \<open>The first checkpoint\<close>

lemma next_versions_returns:
  assumes "\<And>t. \<exists>x. f t = Inr x" and "distinct keys" and "\<forall>k \<in> set keys. map_of vs k = None"
  shows "\<exists>vs' nvs'. next_versions (memory_saver f) keys vs nvs w = (w\<lparr>w_tick := w_tick w + length keys\<rparr>, Inr (vs', nvs'))"
  using assms(2,3)
proof (induction keys arbitrary: vs nvs w)
  case (Cons k ks)
  obtain x where "f (w_tick w) = Inr x" using assms(1) by blast
  with Cons.prems(2) obtain v where v: "NextVersion (f (w_tick w)) (dget [] vs k) = Inr v" by (auto simp: NextVersion_def dget_def Let_def)
  let ?w = "w\<lparr>w_tick := Suc (w_tick w)\<rparr>"
  have "\<forall>k' \<in> set ks. map_of (dput k v vs) k' = None" using Cons.prems by auto
  from Cons.IH [OF _ this, of "dput k v nvs" ?w] Cons.prems(1) obtain vs' nvs' where
    "next_versions (memory_saver f) ks (dput k v vs) (dput k v nvs) ?w = (?w\<lparr>w_tick := w_tick ?w + length ks\<rparr>, Inr (vs', nvs'))"
    by auto
  with v show ?case by (simp add: act_bind_def act_tick_def act_of_def memory_saver_ops)
qed (simp add: act_ret_def)

text \<open>The first checkpoint of a thread is always written when the context, the random source and the state allow it.\<close>

lemma first_persist_returns:
  assumes "co_saver (cg_options g) = Some (memory_saver f)" and "\<And>t. e_ctx env t = None" and "\<And>t. \<exists>x. f t = Inr x"
    and "\<And>t. \<exists>r. e_random env t = Inr r" and "cf_threadID pc \<noteq> []" and "cf_checkpointID pc = []"
    and "checkpointValues m (snd (count_fields input m)) = Inr vs"
  shows "\<exists>w' r. persist env g pc empty_checkpoint m tasks input w = (w', Inr r) \<and>
    w_tick w' = w_tick w + length (version_keys input (snd (count_fields input m))) + 3"
proof -
  let ?keys = "version_keys input (snd (count_fields input m))"
  have "distinct ?keys" by (simp add: version_keys_def uniqueSorted_def)
  from next_versions_returns [where f = f and vs = "[]" and nvs = "[]" and w = w, OF assms(3) this] obtain vs' nvs' where
    nv: "next_versions (memory_saver f) ?keys [] [] w = (w\<lparr>w_tick := w_tick w + length ?keys\<rparr>, Inr (vs', nvs'))" by auto
  let ?w = "w\<lparr>w_tick := w_tick w + length ?keys\<rparr>"
  obtain r where "e_random env (w_tick ?w) = Inr r" using assms(4) by blast
  then obtain w2 i where i: "new_id env (mi_step input) ?w = (w2, Inr i)" "i \<noteq> []" "w_tick w2 = Suc (w_tick ?w)"
    by (auto simp: new_id_def NewID_def id_text_nonempty Let_def)
  have base: "base_versions env (memory_saver f) pc empty_checkpoint w = (w, Inr [])"
    using assms(6) by (simp add: base_versions_def empty_checkpoint_def act_ret_def)
  show ?thesis
    using assms(1,2,5,7) nv i
    by (auto simp: persist_def base act_bind_def act_of_def act_ret_def act_tick_def act_saver_def memory_saver_ops
        memory_Put_def ctx_err_def config_Validate_def case_prod_unfold Let_def)
qed


lemma length_version_keys: "length (version_keys input snaps) \<le> length (mi_updated input) + length snaps + 2"
proof -
  have len: "length (uniqueSorted xs) \<le> length xs" for xs
    by (simp add: uniqueSorted_def unique_sorted_def length_remdups_leq)
  have "length (filter P xs) \<le> length xs" for P and xs :: "string list" by (rule length_filter_le)
  then show ?thesis unfolding version_keys_def
    using len [of "mi_updated input @ filter (\<lambda>key. key \<notin> set (mi_updated input)) (dkeys snaps) @ [ChannelTasks, ChannelInterrupt]"]
    by (simp add: order.trans)
qed

lemma length_snapshots: "length (snd (count_fields input m)) \<le> length (deltaFields m)"
proof -
  have "length (snd (fold (count_field input) kfs cs)) \<le> length (snd cs) + length kfs" for kfs cs
  proof (induction kfs arbitrary: cs)
    case (Cons kf kfs)
    have "length (dput k v d) \<le> Suc (length d)" for k and v :: bool and d :: "(string, bool) dict"
      by (induction d) auto
    then have "length (snd (count_field input kf cs)) \<le> Suc (length (snd cs))" by (simp add: count_field_def Let_def)
    with Cons.IH [of "count_field input kf cs"] show ?case by simp
  qed simp
  from this [of "deltaFields m"] show ?thesis unfolding count_fields_def by (metis add_0 list.size(3) snd_conv)
qed

lemma first_edit:
  fixes iv :: "'x invocation"
  assumes sav: "co_saver (cg_options g) = Some (memory_saver f)" and ret: "\<not> co_retainThreadState (cg_options g)"
    and ctx: "\<And>t. e_ctx env t = None" and fr: "\<And>t. \<exists>x. f t = Inr x" and rnd: "\<And>t. \<exists>r. e_random env t = Inr r"
    and th: "cf_threadID (iv_config iv) \<noteq> []" and none: "memory_GetTuple None (iv_config iv) (w_saver w) = Inr None"
    and m: "newStateMachine (cg_schema g) [] [] = Inr m" and ap: "sm_apply m [iv_state iv] = (m', Inr ow)"
  shows "\<exists>w' sp. UpdateState env g iv w = (w', Inr sp) \<and> sm_values m' = Inr (sp_state sp) \<and> sp_next sp = [] \<and>
    w_tick w' \<le> w_tick w + length (iv_state iv) + length (deltaFields m') + 6"
proof -
  have wf: "machine_wf m'" using sm_apply_wf [OF newStateMachine_wf [OF m], of "[iv_state iv]"] ap by simp
  obtain vs where vs: "sm_values m' = Inr vs" using sm_values_seen [OF wf] by blast
  let ?w = "w\<lparr>w_tick := Suc (w_tick w)\<rparr>"
  let ?pc = "\<lparr>cf_threadID = cf_threadID (iv_config iv), cf_namespace = cf_namespace (iv_config iv), cf_checkpointID = []\<rparr>"
  let ?in = "\<lparr>mi_source = ''update'', mi_step = -1, mi_updated = keysOf (iv_state iv), mi_overwrites = ow, mi_interrupts = [],
    mi_forceDeltaSnapshots = True, mi_previousMetadata = empty_metadata\<lparr>md_step := -1\<rparr>\<rparr> :: 'x metadataInput"
  obtain cv where cv: "checkpointValues m' (snd (count_fields ?in m')) = Inr cv" using checkpointValues_durable [OF wf] by blast
  have pc: "cf_threadID ?pc \<noteq> []" "cf_checkpointID ?pc = []" using th by simp_all
  from first_persist_returns [OF sav ctx fr rnd pc cv, of "[]" ?w] obtain w' r where pr: "persist env g ?pc empty_checkpoint m' [] ?in ?w = (w', Inr r)"
    and tick: "w_tick w' = w_tick ?w + length (version_keys ?in (snd (count_fields ?in m'))) + 3" by (elim exE conjE)
  obtain c md where "r = (c, md)" by (cases r)
  note p = pr [unfolded this]
  have "length (keysOf (iv_state iv)) \<le> length (iv_state iv)"
    using length_remdups_leq [of "dkeys (iv_state iv)"] by (simp add: keysOf_def sorted_keys_def unique_sorted_def)
  then have "w_tick w' \<le> w_tick w + length (iv_state iv) + length (deltaFields m') + 6"
    using tick length_version_keys [of ?in "snd (count_fields ?in m')"] length_snapshots [of ?in m'] by simp
  note tick' = this
  have r: "restore env g iv w = (?w, Inr \<lparr>lc_machine = m, lc_current = empty_config, lc_tasks = [], lc_metadata = empty_metadata\<lparr>md_step := -1\<rparr>\<rparr>)"
    using sav none ctx m by (simp add: restore_def act_bind_def act_read_def act_of_def fresh_locals_def memory_saver_ops)
  show ?thesis
    using th ret r ap p vs tick'
    by (simp add: UpdateState_def act_bind_def act_of_def act_ret_def get_threadSession_def invalidate_def config_Validate_def
        apply_updates_def empty_config_def Let_def)
qed


text \<open>C34: the first state edit of a thread always succeeds. When the thread has no checkpoint yet, the context is
  live and random bytes are available, \<^verbatim>\<open>UpdateState\<close> returns whenever the schema's initial state
  accepts the update, and it returns the updated state with no scheduled task.\<close>

theorem first_UpdateState_returns:
  fixes iv :: "'x invocation"
  assumes "co_saver (cg_options g) = Some (memory_saver f)" and "\<not> co_retainThreadState (cg_options g)"
    and "\<And>t. e_ctx env t = None" and "\<And>t. \<exists>x. f t = Inr x" and "\<And>t. \<exists>r. e_random env t = Inr r"
    and "cf_threadID (iv_config iv) \<noteq> []" and "memory_GetTuple None (iv_config iv) (w_saver w) = Inr None"
    and "newStateMachine (cg_schema g) [] [] = Inr m" and "sm_apply m [iv_state iv] = (m', Inr ow)"
  shows "\<exists>w' sp. UpdateState env g iv w = (w', Inr sp) \<and> sm_values m' = Inr (sp_state sp) \<and> sp_next sp = []"
  using first_edit [OF assms] by blast

section \<open>Witnesses\<close>

definition sample_fractions :: "nat \<Rightarrow> string res" where
  "sample_fractions t = Inr (replicate t (CHR ''1''))"

definition sample_compiled :: "(nat, nat memorySaver) compiled" where
  "sample_compiled = projr (Compile (sample_options\<lparr>co_saver := Some (memory_saver sample_fractions)\<rparr>) sample_builder)"

definition sample_thread :: config where
  "sample_thread = \<lparr>cf_threadID = ''t'', cf_namespace = [], cf_checkpointID = []\<rparr>"

definition sample_ok :: "string \<Rightarrow> nat gval \<Rightarrow> bool" where
  "sample_ok k v = (case v of VSlice xs \<Rightarrow> True | _ \<Rightarrow> False)"

lemma sample_compile:
  "Compile (sample_options\<lparr>co_saver := Some (memory_saver sample_fractions)\<rparr>) sample_builder = Inr sample_compiled"
  by (simp add: sample_compiled_def Compile_def sample_builder_def sample_schema_def schema_Validate_def field_validate_def
        Delta_def LastValue_def Ephemeral_def dget_def Start_def End_def)

lemma sample_parts: "cg_schema sample_compiled = sample_schema" "cg_nodes sample_compiled = [(''work'', sample_node)]"
  "cg_options sample_compiled = default_options (sample_options\<lparr>co_saver := Some (memory_saver sample_fractions)\<rparr>)"
  using compiled_parts [OF sample_compile] by (simp_all add: sample_builder_def)

lemma sample_settings: "co_saver (cg_options sample_compiled) = Some (memory_saver sample_fractions)"
  "co_retainThreadState (cg_options sample_compiled) = False"
  by (simp_all add: sample_parts default_options_def sample_options_def)

lemma sample_lawful: "lawful_schema sample_ok sample_schema"
proof -
  have "batching_reducer sample_add identityClone (sample_ok k)" for k
    by unfold_locales (auto simp: sample_ok_def sample_add_def identityClone_def map_idI split: gval.splits)
  then show ?thesis
    by (auto simp: lawful_schema_def sample_schema_def schema_Validate_def field_validate_def lawful_field_def Delta_def
        LastValue_def Ephemeral_def identityClone_def sample_ok_def reserved_channel_def
        ChannelTasks_def ChannelInterrupt_def ChannelResume_def ChannelError_def ChannelScheduled_def)
qed

lemma sample_good:
  assumes "k \<in> {''log'', ''last'', ''tmp''}" and "\<not> is_overwrite v" and "expand v = [v]"
  shows "good_updates sample_ok schema [[(k, v)]]"
  using assms by (auto simp: good_updates_def writes_of_def reserved_channel_def
     ChannelTasks_def ChannelInterrupt_def ChannelResume_def ChannelError_def ChannelScheduled_def split: if_splits)

lemma sample_good_nodes: "good_nodes sample_ok sample_compiled"
  unfolding good_nodes_def sample_parts
  by (auto simp: sample_node_def expand_def is_overwrite_def intro!: sample_good split: if_splits)

lemma sample_invocation_thread: "iv_config sample_invocation = sample_thread"
  by (simp add: sample_invocation_def state_invocation_def sample_thread_def)

lemma sample_invocation_good: "good_updates sample_ok schema [iv_state sample_invocation]"
  by (auto simp: sample_invocation_def is_overwrite_def expand_def intro!: sample_good)

lemma sample_versions: "versions_differ (memory_saver sample_fractions)"
  unfolding versions_differ_def memory_saver_ops
proof (intro allI impI, elim conjE)
  fix t t' c c' v v'
  assume ne: "t \<noteq> t'" and v: "NextVersion (sample_fractions t) c = Inr v" and v': "NextVersion (sample_fractions t') c' = Inr v'"
  have tail: "takeWhile (\<lambda>x. x \<noteq> CHR ''.'') (rev u) = replicate n (CHR ''1'') @ replicate (16 - n) (CHR ''0'')"
    if "NextVersion (sample_fractions n) d = Inr u" for n d u
  proof -
    from that obtain p where "u = p @ ''.'' @ replicate (16 - n) (CHR ''0'') @ replicate n (CHR ''1'')"
      by (auto simp: NextVersion_def sample_fractions_def pad_left_def Let_def split: option.splits)
    then show ?thesis by (simp add: takeWhile_append)
  qed
  have "length (filter (\<lambda>x. x = CHR ''1'') (takeWhile (\<lambda>x. x \<noteq> CHR ''.'') (rev v))) = t"
    "length (filter (\<lambda>x. x = CHR ''1'') (takeWhile (\<lambda>x. x \<noteq> CHR ''.'') (rev v'))) = t'"
    using tail [OF v] tail [OF v'] by simp_all
  with ne show "v \<noteq> v'" by auto
qed

lemma sample_clock: "clock_bounded quiet_env (2 ^ 57)"
  by (simp add: clock_bounded_def quiet_env_def id_clock_def gregorianUnixOffset100ns_def)

lemmas sample_facts = sample_compile sample_settings(1) sample_lawful [folded sample_parts(1)] sample_good_nodes

lemma sample_thread_facts: "map_of (cg_nodes sample_compiled) [] = None" "cf_checkpointID sample_thread = []" "cf_threadID sample_thread \<noteq> []"
  "e_ctx quiet_env t = None"
  by (simp_all add: sample_parts(2) sample_thread_def quiet_env_def)

lemma sample_edit_apply:
  "sm_apply sample_machine [[(''log'', VInt 7)]] = (fst (sm_apply sample_machine [[(''log'', VInt 7)]]), Inr [(''log'', False)])"
  "length (deltaFields (fst (sm_apply sample_machine [[(''log'', VInt 7)]]))) = 1"
  "sm_values (fst (sm_apply sample_machine [[(''log'', VInt 7)]])) = Inr [(''log'', VSlice [VInt 7])]"
proof -
  have "snd (sm_apply sample_machine [[(''log'', VInt 7)]]) = Inr [(''log'', False)]" by code_simp
  then show "sm_apply sample_machine [[(''log'', VInt 7)]] = (fst (sm_apply sample_machine [[(''log'', VInt 7)]]), Inr [(''log'', False)])"
    by (metis prod.collapse)
  show "length (deltaFields (fst (sm_apply sample_machine [[(''log'', VInt 7)]]))) = 1" by code_simp
  show "sm_values (fst (sm_apply sample_machine [[(''log'', VInt 7)]])) = Inr [(''log'', VSlice [VInt 7])]" by code_simp
qed

lemma sample_edit_returns:
  "\<exists>w' sp. UpdateState quiet_env sample_compiled sample_invocation empty_world = (w', Inr sp) \<and>
    sp_state sp = [(''log'', VSlice [VInt 7])] \<and> w_tick w' \<le> 8"
proof -
  have "\<exists>w' sp. UpdateState quiet_env sample_compiled sample_invocation empty_world = (w', Inr sp) \<and>
     sm_values (fst (sm_apply sample_machine [[(''log'', VInt 7)]])) = Inr (sp_state sp) \<and> sp_next sp = [] \<and>
     w_tick w' \<le> w_tick empty_world + length (iv_state sample_invocation) + length (deltaFields (fst (sm_apply sample_machine [[(''log'', VInt 7)]]))) + 6"
  proof (rule first_edit [where f = sample_fractions and m = sample_machine and ow = "[(''log'', False)]"])
    have e: "iv_state sample_invocation = [(''log'', VInt 7)]" by (simp add: sample_invocation_def)
    show "sm_apply sample_machine [iv_state sample_invocation] = (fst (sm_apply sample_machine [[(''log'', VInt 7)]]), Inr [(''log'', False)])"
      unfolding e by (rule sample_edit_apply(1))
    show "newStateMachine (cg_schema sample_compiled) [] [] = Inr sample_machine" by (simp add: sample_parts(1) sample_machine_eq)
  qed (simp_all add: sample_settings quiet_env_def sample_fractions_def sample_invocation_def state_invocation_def sample_thread_def
        empty_world_def memory_GetTuple_def getTupleLocked_def latest_id_def NewMemorySaver_def ctx_err_def config_Validate_def)
  then obtain w' sp where u: "UpdateState quiet_env sample_compiled sample_invocation empty_world = (w', Inr sp)"
      "Inr [(''log'', VSlice [VInt 7])] = (Inr (sp_state sp) :: nat vals res)" "w_tick w' \<le> 0 + 1 + 1 + 6"
    unfolding sample_edit_apply(2,3) by (elim exE conjE) (simp add: empty_world_def sample_invocation_def)
  show ?thesis by (intro exI conjI, rule u(1)) (use u(2,3) in simp_all)
qed

lemma sample_run:
  "\<exists>w c. thread_run quiet_env (2 ^ 57) sample_ok sample_compiled sample_thread w (Some (c, [(''log'', VSlice [VInt 7])]))"
proof -
  obtain w' sp where u: "UpdateState quiet_env sample_compiled sample_invocation empty_world = (w', Inr sp)"
    "sp_state sp = [(''log'', VSlice [VInt 7])]" "w_tick w' \<le> 8" using sample_edit_returns by blast
  have "thread_run quiet_env (2 ^ 57) sample_ok sample_compiled sample_thread w' (Some (sp_config sp, sp_state sp))"
  proof (rule run_update [OF run_start _ _ u(1)])
    show "w_saver empty_world = NewMemorySaver" "w_sessions empty_world = []" "unat (w_clock empty_world) \<le> 2 ^ 57 + w_tick empty_world"
      by (simp_all add: empty_world_def)
    show "iv_config sample_invocation = sample_thread" by (rule sample_invocation_thread)
    show "good_updates sample_ok (cg_schema sample_compiled) [iv_state sample_invocation]" by (rule sample_invocation_good)
    show "2 ^ 57 + w_tick w' < 2 ^ 60" using u(3) by simp
  qed
  with u(2) show ?thesis by auto
qed




theorem first_UpdateState_returns_witness:
  "\<exists>w' sp. UpdateState quiet_env sample_compiled sample_invocation empty_world = (w', Inr sp) \<and> sp_next sp = []"
proof -
  have e: "iv_state sample_invocation = [(''log'', VInt 7)]" by (simp add: sample_invocation_def)
  have "\<exists>w' sp. UpdateState quiet_env sample_compiled sample_invocation empty_world = (w', Inr sp) \<and>
     sm_values (fst (sm_apply sample_machine [[(''log'', VInt 7)]])) = Inr (sp_state sp) \<and> sp_next sp = []"
  proof (rule first_UpdateState_returns [where f = sample_fractions and m = sample_machine and ow = "[(''log'', False)]"])
    show "sm_apply sample_machine [iv_state sample_invocation] = (fst (sm_apply sample_machine [[(''log'', VInt 7)]]), Inr [(''log'', False)])"
      unfolding e by (rule sample_edit_apply(1))
    show "newStateMachine (cg_schema sample_compiled) [] [] = Inr sample_machine" by (simp add: sample_parts(1) sample_machine_eq)
  qed (simp_all add: sample_settings quiet_env_def sample_fractions_def sample_invocation_def state_invocation_def
        empty_world_def memory_GetTuple_def getTupleLocked_def latest_id_def NewMemorySaver_def ctx_err_def config_Validate_def)
  then show ?thesis by blast
qed

end
