(* ===== verification/Memory_Store.thy ===== *)
theory Memory_Store
  imports Memory_Saver
begin

text \<open>
  The namespaced store of \<^verbatim>\<open>dastore/store.go\<close>: addresses, items, the operations of the in-memory store, and
  its paginated searches over the bounded heaps. \<open>lower\<close> (Unicode lower case) and \<open>render\<close> (\<^verbatim>\<open>fmt.Sprint\<close> of
  a map) are parameters; \<open>now\<close> is the reading of the store's clock. A nil Go map is \<open>None\<close>.
\<close>

section \<open>Addresses\<close>

type_synonym namespace = "string list"

definition NUL :: char where
  "NUL = CHR 0x00"

definition namespace_Validate :: "namespace \<Rightarrow> unit res" where
  "namespace_Validate ns =
     (if ns = [] then Inl (Wrapf ''%w: at least one segment is required'' ErrInvalidNamespace)
      else if list_ex (\<lambda>segment. segment = [] \<or> NUL \<in> set segment) ns
      then Inl (Wrapf ''%w: segments must be non-empty and contain no NUL bytes'' ErrInvalidNamespace)
      else Inr ())"

fun namespaceKey :: "namespace \<Rightarrow> string" where
  "namespaceKey [] = []"
| "namespaceKey [segment] = segment"
| "namespaceKey (segment # rest) = segment @ [NUL] @ namespaceKey rest"

definition store_validate :: "goctx \<Rightarrow> namespace \<Rightarrow> string \<Rightarrow> unit res" where
  "store_validate ctx ns key =
     res_bind (ctx_err ctx) (\<lambda>_.
     res_bind (namespace_Validate ns) (\<lambda>_.
       if key = [] \<or> NUL \<in> set key
       then Inl (Errorf ''store key must be non-empty and contain no NUL bytes'') else Inr ()))"

fun ns_hasPrefix :: "namespace \<Rightarrow> namespace \<Rightarrow> bool" where
  "ns_hasPrefix value [] = True"
| "ns_hasPrefix [] (p # ps) = False"
| "ns_hasPrefix (v # vs) (p # ps) = (v = p \<and> ns_hasPrefix vs ps)"

section \<open>Items and options\<close>

record 'x item =
  it_namespace :: namespace
  it_key :: string
  it_value :: "'x vals option"
  it_createdAt :: int
  it_updatedAt :: int

record searchOptions =
  so_prefix :: namespace
  so_query :: string
  so_limit :: int
  so_offset :: int

record listNamespacesOptions =
  ln_prefix :: namespace
  ln_suffix :: namespace
  ln_maxDepth :: int
  ln_limit :: int
  ln_offset :: int

record 'x operation =
  op_namespace :: namespace
  op_key :: string
  op_putValue :: "'x vals option"
  op_delete :: bool

definition DefaultSearchLimit :: int where
  "DefaultSearchLimit = 10"

definition DefaultListNamespacesLimit :: int where
  "DefaultListNamespacesLimit = 100"

definition search_Normalized :: "searchOptions \<Rightarrow> searchOptions res" where
  "search_Normalized o' =
     (if so_limit o' < 0 then Inl (Errorf ''store search limit cannot be negative'')
      else if so_offset o' < 0 then Inl (Errorf ''store search offset cannot be negative'')
      else Inr (if so_limit o' = 0 then o'\<lparr>so_limit := DefaultSearchLimit\<rparr> else o'))"

definition namespaces_Normalized :: "listNamespacesOptions \<Rightarrow> listNamespacesOptions res" where
  "namespaces_Normalized o' =
     (if ln_maxDepth o' < 0 then Inl (Errorf ''store namespace maximum depth cannot be negative'')
      else if ln_limit o' < 0 then Inl (Errorf ''store namespace limit cannot be negative'')
      else if ln_offset o' < 0 then Inl (Errorf ''store namespace offset cannot be negative'')
      else Inr (if ln_limit o' = 0 then o'\<lparr>ln_limit := DefaultListNamespacesLimit\<rparr> else o'))"

definition cloneNamespace :: "namespace \<Rightarrow> namespace" where
  "cloneNamespace value = [] @ value"

definition store_cloneMap :: "'x vals option \<Rightarrow> 'x vals option" where
  "store_cloneMap value = map_option (map (\<lambda>(key, item). (key, item))) value"

definition cloneItem :: "'x item \<Rightarrow> 'x item" where
  "cloneItem value = value\<lparr>it_namespace := cloneNamespace (it_namespace value), it_value := store_cloneMap (it_value value)\<rparr>"

section \<open>The store\<close>

type_synonym 'x store = "(string, (string, 'x item) dict) dict"

definition NewMemory :: "'x store" where
  "NewMemory = []"

definition store_lookup :: "'x store \<Rightarrow> namespace \<Rightarrow> string \<Rightarrow> 'x item option" where
  "store_lookup s ns key = map_of (dget [] s (namespaceKey ns)) key"

definition store_Get :: "goctx \<Rightarrow> namespace \<Rightarrow> string \<Rightarrow> 'x store \<Rightarrow> 'x item option res" where
  "store_Get ctx ns key s =
     res_bind (store_validate ctx ns key) (\<lambda>_. Inr (map_option cloneItem (store_lookup s ns key)))"

definition putLocked :: "int \<Rightarrow> namespace \<Rightarrow> string \<Rightarrow> 'x vals option \<Rightarrow> 'x store \<Rightarrow> 'x store \<times> 'x item" where
  "putLocked now ns key value s =
     (let address = namespaceKey ns;
          created = (case store_lookup s ns key of Some current \<Rightarrow> it_createdAt current | None \<Rightarrow> now);
          item = \<lparr>it_namespace = cloneNamespace ns, it_key = key, it_value = store_cloneMap value,
                  it_createdAt = created, it_updatedAt = now\<rparr>
      in (dput address (dput key item (dget [] s address)) s, item))"

definition store_Put :: "goctx \<Rightarrow> int \<Rightarrow> namespace \<Rightarrow> string \<Rightarrow> 'x vals option \<Rightarrow> 'x store \<Rightarrow> 'x store \<times> unit res" where
  "store_Put ctx now ns key value s =
     (case store_validate ctx ns key of
        Inl e \<Rightarrow> (s, Inl e)
      | Inr _ \<Rightarrow> (fst (putLocked now ns key value s), Inr ()))"

text \<open>\<^verbatim>\<open>delete\<close> on the inner map, which may be nil, and on the outer one when nothing is left.\<close>

definition deleteLocked :: "namespace \<Rightarrow> string \<Rightarrow> 'x store \<Rightarrow> 'x store" where
  "deleteLocked ns key s =
     (let address = namespaceKey ns; rest = ddel key (dget [] s address)
      in if rest = [] then ddel address s else dput address rest s)"

definition store_Delete :: "goctx \<Rightarrow> namespace \<Rightarrow> string \<Rightarrow> 'x store \<Rightarrow> 'x store \<times> unit res" where
  "store_Delete ctx ns key s =
     (case store_validate ctx ns key of
        Inl e \<Rightarrow> (s, Inl e)
      | Inr _ \<Rightarrow> (deleteLocked ns key s, Inr ()))"

text \<open>A batch: the clock is read once per write, the context once per checked operation.\<close>

definition check_operation :: "goctx \<Rightarrow> 'x operation \<Rightarrow> unit res" where
  "check_operation ctx operation =
     res_bind (store_validate ctx (op_namespace operation) (op_key operation)) (\<lambda>_.
       if op_delete operation \<and> op_putValue operation \<noteq> None
       then Inl (Errorf ''store batch: put and delete are mutually exclusive'') else Inr ())"

fun check_operations :: "(nat \<Rightarrow> goctx) \<Rightarrow> nat \<Rightarrow> 'x operation list \<Rightarrow> unit res" where
  "check_operations ctx i [] = Inr ()"
| "check_operations ctx i (operation # rest) =
     res_bind (check_operation (ctx i) operation) (\<lambda>_. check_operations ctx (Suc i) rest)"

definition run_operation :: "int \<Rightarrow> 'x operation \<Rightarrow> 'x store \<Rightarrow> 'x store \<times> 'x item option" where
  "run_operation now operation s =
     (if op_delete operation then (deleteLocked (op_namespace operation) (op_key operation) s, None)
      else case op_putValue operation of
        Some value \<Rightarrow>
          (case putLocked now (op_namespace operation) (op_key operation) (Some value) s of
             (s', item) \<Rightarrow> (s', Some (cloneItem item)))
      | None \<Rightarrow> (s, map_option cloneItem (store_lookup s (op_namespace operation) (op_key operation))))"

fun run_operations :: "(nat \<Rightarrow> int) \<Rightarrow> nat \<Rightarrow> 'x operation list \<Rightarrow> 'x store \<Rightarrow> 'x store \<times> 'x item option list" where
  "run_operations now i [] s = (s, [])"
| "run_operations now i (operation # rest) s =
     (case run_operation (now i) operation s of
        (s1, r) \<Rightarrow> (case run_operations now (Suc i) rest s1 of (s2, rs) \<Rightarrow> (s2, r # rs)))"

definition store_Batch ::
  "(nat \<Rightarrow> goctx) \<Rightarrow> (nat \<Rightarrow> int) \<Rightarrow> 'x operation list \<Rightarrow> 'x store \<Rightarrow> 'x store \<times> 'x item option list res" where
  "store_Batch ctx now operations s =
     (case check_operations ctx 0 operations of
        Inl e \<Rightarrow> (s, Inl e)
      | Inr _ \<Rightarrow> (case run_operations now 0 operations s of (s', rs) \<Rightarrow> (s', Inr rs)))"

section \<open>Searching\<close>

definition maxInt :: int where
  "maxInt = 2 ^ 63 - 1"

definition boundedWindow :: "int \<Rightarrow> int \<Rightarrow> int" where
  "boundedWindow offset limit = (if offset > maxInt - limit then maxInt else offset + limit)"

definition itemLess :: "'x item \<Rightarrow> 'x item \<Rightarrow> bool" where
  "itemLess left right =
     (let l = namespaceKey (it_namespace left); r = namespaceKey (it_namespace right)
      in if l \<noteq> r then l < r else it_key left < it_key right)"

fun strings_Contains :: "string \<Rightarrow> string \<Rightarrow> bool" where
  "strings_Contains [] sub = (sub = [])"
| "strings_Contains (c # s) sub = (take (length sub) (c # s) = sub \<or> strings_Contains s sub)"

definition matchesQuery ::
  "(string \<Rightarrow> string) \<Rightarrow> ('x vals option \<Rightarrow> string) \<Rightarrow> 'x item \<Rightarrow> string \<Rightarrow> bool" where
  "matchesQuery lower render item query =
     (strings_Contains (lower (it_key item)) query \<or> strings_Contains (lower (render (it_value item))) query)"

definition search_hit ::
  "(string \<Rightarrow> string) \<Rightarrow> ('x vals option \<Rightarrow> string) \<Rightarrow> searchOptions \<Rightarrow> 'x item \<Rightarrow> bool" where
  "search_hit lower render o' item \<longleftrightarrow>
     ns_hasPrefix (it_namespace item) (so_prefix o') \<and>
     (lower (so_query o') = [] \<or> matchesQuery lower render item (lower (so_query o')))"

definition store_items :: "'x store \<Rightarrow> 'x item list" where
  "store_items s = concat (map (\<lambda>(address, items). map snd items) s)"

definition page :: "int \<Rightarrow> 'a list \<Rightarrow> 'a list" where
  "page offset xs = (if offset \<ge> int (length xs) then [] else drop (nat offset) xs)"

definition store_Search ::
  "(string \<Rightarrow> string) \<Rightarrow> ('x vals option \<Rightarrow> string) \<Rightarrow> goctx \<Rightarrow> searchOptions \<Rightarrow> 'x store \<Rightarrow> 'x item list res" where
  "store_Search lower render ctx options s =
     res_bind (ctx_err ctx) (\<lambda>_.
     res_bind (search_Normalized options) (\<lambda>o'.
     res_bind (if so_prefix o' \<noteq> [] then namespace_Validate (so_prefix o') else Inr ()) (\<lambda>_.
     res_bind (bounded_select itemLess (boundedWindow (so_offset o') (so_limit o'))
        (filter (search_hit lower render o') (store_items s))) (\<lambda>items.
       Inr (map cloneItem (page (so_offset o') items))))))"

section \<open>Listing namespaces\<close>

record namespaceCandidate =
  nc_namespace :: namespace
  nc_key :: string

definition namespacePatternMatches :: "namespace \<Rightarrow> namespace \<Rightarrow> bool \<Rightarrow> bool" where
  "namespacePatternMatches ns pattern suffix =
     (if length pattern > length ns then False
      else
        let start = (if suffix then length ns - length pattern else 0)
        in list_all (\<lambda>i. pattern ! i = ''*'' \<or> pattern ! i = ns ! (start + i)) [0..<length pattern])"

definition namespaceMatches :: "namespace \<Rightarrow> listNamespacesOptions \<Rightarrow> bool" where
  "namespaceMatches ns o' \<longleftrightarrow>
     namespacePatternMatches ns (ln_prefix o') False \<and> namespacePatternMatches ns (ln_suffix o') True"

definition candidateLess :: "namespaceCandidate \<Rightarrow> namespaceCandidate \<Rightarrow> bool" where
  "candidateLess a b \<longleftrightarrow> nc_key a < nc_key b"

definition candidate :: "namespace \<Rightarrow> namespaceCandidate" where
  "candidate ns = \<lparr>nc_namespace = cloneNamespace ns, nc_key = namespaceKey ns\<rparr>"

text \<open>\<^verbatim>\<open>boundedNamespaceSelection.Add\<close>: the heap and the set of retained keys.\<close>

definition namespace_Add ::
  "int \<Rightarrow> namespace \<Rightarrow> namespaceCandidate list \<times> string list \<Rightarrow> (namespaceCandidate list \<times> string list) res" where
  "namespace_Add limit ns sel =
     (let (items, retained) = sel; c = candidate ns; key = nc_key c
      in if key \<in> set retained then Inr sel
         else if int (length items) < limit then Inr (heap_Push candidateLess items c, key # retained)
         else if items = [] then Inl (Errorf ''index out of range'')
         else if key < nc_key (items ! 0)
         then Inr (heap_Fix candidateLess (items[0 := c]) 0, key # removeAll (nc_key (items ! 0)) retained)
         else Inr sel)"

text \<open>The namespace a group of items contributes: that of its first item, cut to the maximum depth.\<close>

definition listed_namespace :: "listNamespacesOptions \<Rightarrow> (string, 'x item) dict \<Rightarrow> namespace list" where
  "listed_namespace o' items =
     (case items of
        [] \<Rightarrow> []
      | (key, item) # rest \<Rightarrow>
          if \<not> namespaceMatches (it_namespace item) o' then []
          else [if ln_maxDepth o' > 0 \<and> int (length (it_namespace item)) > ln_maxDepth o'
                then take (nat (ln_maxDepth o')) (it_namespace item) else it_namespace item])"

definition ListNamespaces :: "goctx \<Rightarrow> listNamespacesOptions \<Rightarrow> 'x store \<Rightarrow> namespace list res" where
  "ListNamespaces ctx options s =
     res_bind (ctx_err ctx) (\<lambda>_.
     res_bind (namespaces_Normalized options) (\<lambda>o'.
     res_bind (map_res (\<lambda>pattern. if pattern \<noteq> [] then namespace_Validate pattern else Inr ()) [ln_prefix o', ln_suffix o']) (\<lambda>_.
     res_bind (fold_res (namespace_Add (boundedWindow (ln_offset o') (ln_limit o')))
        (concat (map (\<lambda>(address, items). listed_namespace o' items) s)) ([], [])) (\<lambda>(items, retained).
       Inr (map nc_namespace (page (ln_offset o') (sort_by candidateLess items)))))))"

section \<open>Addresses are injective\<close>

abbreviation valid_ns :: "namespace \<Rightarrow> bool" where
  "valid_ns ns \<equiv> namespace_Validate ns = Inr ()"

lemma valid_ns_iff: "valid_ns ns \<longleftrightarrow> ns \<noteq> [] \<and> (\<forall>segment \<in> set ns. segment \<noteq> [] \<and> NUL \<notin> set segment)"
  by (auto simp: namespace_Validate_def list_ex_iff)

lemma append_sep_inj:
  "a \<notin> set u \<Longrightarrow> a \<notin> set v \<Longrightarrow> u @ a # x = v @ a # y \<longleftrightarrow> u = v \<and> x = y"
proof (induction u arbitrary: v)
  case Nil
  then show ?case by (cases v) auto
next
  case (Cons c u)
  then show ?case by (cases v) auto
qed

lemma NUL_namespaceKey: "NUL \<notin> set segment \<Longrightarrow> segment = u @ NUL # x \<longleftrightarrow> False"
  by auto

lemma namespaceKey_inj:
  "valid_ns a \<Longrightarrow> valid_ns b \<Longrightarrow> namespaceKey a = namespaceKey b \<longleftrightarrow> a = b"
proof (induction a arbitrary: b rule: namespaceKey.induct)
  case 1
  then show ?case by (simp add: valid_ns_iff)
next
  case (2 segment)
  then show ?case by (cases b rule: namespaceKey.cases) (auto simp: valid_ns_iff)
next
  case (3 segment s rest)
  show ?case
  proof (cases b rule: namespaceKey.cases)
    case (3 segment' s' rest')
    with "3.prems" have v: "valid_ns (s # rest)" "valid_ns (s' # rest')" "NUL \<notin> set segment" "NUL \<notin> set segment'"
      by (auto simp: valid_ns_iff)
    with 3 "3.IH" [OF v(1,2)] show ?thesis by (simp add: append_sep_inj)
  qed (use "3.prems" in \<open>auto simp: valid_ns_iff\<close>)
qed

section \<open>The store as a map\<close>

lemma clone_id [simp]:
  "cloneNamespace ns = ns" "store_cloneMap v = v" "cloneItem item = item"
  by (simp_all add: cloneNamespace_def store_cloneMap_def cloneItem_def option.map_id)

lemma clone_map_id [simp]: "map_option cloneItem r = r" "map cloneItem items = items"
  by (cases r) (simp_all add: map_idI)

text \<open>
  The state invariant: an address has at least one item, and an item knows its own address and key.
  The abstract view is a finite map from (namespace, key) to items.
\<close>

definition item_ok :: "string \<Rightarrow> string \<Rightarrow> 'x item \<Rightarrow> bool" where
  "item_ok address key item \<longleftrightarrow>
     it_key item = key \<and> namespaceKey (it_namespace item) = address \<and> valid_ns (it_namespace item)"

definition group_ok :: "string \<Rightarrow> (string, 'x item) dict \<Rightarrow> bool" where
  "group_ok address items \<longleftrightarrow>
     items \<noteq> [] \<and> distinct (dkeys items) \<and> (\<forall>key item. map_of items key = Some item \<longrightarrow> item_ok address key item)"

definition store_ok :: "'x store \<Rightarrow> bool" where
  "store_ok s \<longleftrightarrow>
     distinct (dkeys s) \<and> (\<forall>address items. map_of s address = Some items \<longrightarrow> group_ok address items)"

definition store_view :: "'x store \<Rightarrow> namespace \<times> string \<rightharpoonup> 'x item" where
  "store_view s = (\<lambda>(ns, key). if valid_ns ns then store_lookup s ns key else None)"

definition put_item :: "int \<Rightarrow> namespace \<Rightarrow> string \<Rightarrow> 'x vals option \<Rightarrow> 'x item option \<Rightarrow> 'x item" where
  "put_item now ns key value old =
     \<lparr>it_namespace = ns, it_key = key, it_value = value,
      it_createdAt = (case old of Some current \<Rightarrow> it_createdAt current | None \<Rightarrow> now), it_updatedAt = now\<rparr>"

lemma store_ok_NewMemory: "store_ok NewMemory"
  by (simp add: store_ok_def NewMemory_def)

lemma store_view_NewMemory: "store_view NewMemory = Map.empty"
  by (auto simp: store_view_def NewMemory_def store_lookup_def dget_def)

lemma group_okD: "store_ok s \<Longrightarrow> map_of s address = Some items \<Longrightarrow> group_ok address items"
  by (simp add: store_ok_def)

lemma store_ok_dput:
  "store_ok s \<Longrightarrow> group_ok address items \<Longrightarrow> store_ok (dput address items s)"
  by (auto simp: store_ok_def)

lemma store_ok_ddel: "store_ok s \<Longrightarrow> store_ok (ddel address s)"
  by (auto simp: store_ok_def)

lemma dget_group:
  "store_ok s \<Longrightarrow> distinct (dkeys (dget [] s address))"
  "store_ok s \<Longrightarrow> map_of (dget [] s address) key = Some item \<Longrightarrow> item_ok address key item"
  by (auto simp: dget_def group_ok_def dest: group_okD split: option.splits)

lemma putLocked_item:
  "valid_ns ns \<Longrightarrow> snd (putLocked now ns key value s) = put_item now ns key value (store_view s (ns, key))"
  by (simp add: putLocked_def put_item_def store_view_def Let_def)

lemma putLocked_ok:
  assumes "store_ok s" and "valid_ns ns"
  shows "store_ok (fst (putLocked now ns key value s))"
proof -
  have "group_ok (namespaceKey ns) (dput key item (dget [] s (namespaceKey ns)))"
    if "it_key item = key" "it_namespace item = ns" for item
    using that assms dget_group [OF assms(1), of "namespaceKey ns"]
    by (auto simp: group_ok_def item_ok_def AList.update_nonempty)
  with assms(1) show ?thesis by (simp add: putLocked_def Let_def store_ok_dput)
qed

lemma putLocked_view:
  assumes "valid_ns ns"
  shows "store_view (fst (putLocked now ns key value s)) =
    (store_view s)((ns, key) \<mapsto> put_item now ns key value (store_view s (ns, key)))"
  using assms
  by (auto simp: fun_eq_iff store_view_def putLocked_def put_item_def Let_def store_lookup_def namespaceKey_inj)

lemma deleteLocked_ok: "store_ok s \<Longrightarrow> store_ok (deleteLocked ns key s)"
  by (auto simp: deleteLocked_def Let_def group_ok_def dget_group
      intro!: store_ok_ddel store_ok_dput split: if_splits)

lemma deleteLocked_lookup:
  assumes "valid_ns ns" and "valid_ns ns'"
  shows "store_lookup (deleteLocked ns key s) ns' key' =
    (if (ns', key') = (ns, key) then None else store_lookup s ns' key')"
proof (cases "ns' = ns")
  case True
  have "dget [] (deleteLocked ns key s) (namespaceKey ns) = ddel key (dget [] s (namespaceKey ns))"
    by (simp add: deleteLocked_def Let_def)
  with True show ?thesis by (simp add: store_lookup_def)
next
  case False
  with assms have "namespaceKey ns' \<noteq> namespaceKey ns" by (simp add: namespaceKey_inj)
  with False show ?thesis by (auto simp: deleteLocked_def Let_def store_lookup_def dget_def)
qed

lemma deleteLocked_view: "valid_ns ns \<Longrightarrow> store_view (deleteLocked ns key s) = (store_view s)((ns, key) := None)"
  by (auto simp: fun_eq_iff store_view_def deleteLocked_lookup)

lemma store_validate_ns: "store_validate ctx ns key = Inr () \<Longrightarrow> valid_ns ns"
  by (auto simp: store_validate_def res_simps)

section \<open>Batches\<close>

text \<open>The reference: one operation, then a sequence of them, on the abstract map.\<close>

definition spec_operation :: "int \<Rightarrow> 'x operation \<Rightarrow> (namespace \<times> string \<rightharpoonup> 'x item) \<Rightarrow>
    (namespace \<times> string \<rightharpoonup> 'x item) \<times> 'x item option" where
  "spec_operation now operation m =
     (let a = (op_namespace operation, op_key operation)
      in if op_delete operation then (m(a := None), None)
         else case op_putValue operation of
           None \<Rightarrow> (m, m a)
         | Some value \<Rightarrow>
             let item = put_item now (op_namespace operation) (op_key operation) (Some value) (m a)
             in (m(a \<mapsto> item), Some item))"

fun spec_operations :: "(nat \<Rightarrow> int) \<Rightarrow> nat \<Rightarrow> 'x operation list \<Rightarrow> (namespace \<times> string \<rightharpoonup> 'x item) \<Rightarrow>
    (namespace \<times> string \<rightharpoonup> 'x item) \<times> 'x item option list" where
  "spec_operations now i [] m = (m, [])"
| "spec_operations now i (operation # rest) m =
     (let (m1, r) = spec_operation (now i) operation m; (m2, rs) = spec_operations now (Suc i) rest m1
      in (m2, r # rs))"

lemma run_operation_spec:
  assumes "store_ok s" and "valid_ns (op_namespace operation)"
  shows "store_ok (fst (run_operation now operation s))"
    and "spec_operation now operation (store_view s) =
      (store_view (fst (run_operation now operation s)), snd (run_operation now operation s))"
proof -
  note put = putLocked_item [OF assms(2)] putLocked_view [OF assms(2)] putLocked_ok [OF assms]
  show "store_ok (fst (run_operation now operation s))"
    using assms put by (simp add: run_operation_def case_prod_beta deleteLocked_ok split: option.split)
  have "store_lookup s (op_namespace operation) (op_key operation) = store_view s (op_namespace operation, op_key operation)"
    using assms(2) by (simp add: store_view_def)
  then show "spec_operation now operation (store_view s) =
      (store_view (fst (run_operation now operation s)), snd (run_operation now operation s))"
    using assms
    by (simp add: put run_operation_def spec_operation_def case_prod_beta deleteLocked_view Let_def split: option.split)
qed

lemma run_operations_spec:
  "store_ok s \<Longrightarrow> list_all (\<lambda>operation. valid_ns (op_namespace operation)) operations \<Longrightarrow>
   run_operations now i operations s = (s', rs) \<Longrightarrow>
   store_ok s' \<and> spec_operations now i operations (store_view s) = (store_view s', rs)"
proof (induction operations arbitrary: i s rs)
  case Nil
  then show ?case by simp
next
  case (Cons operation rest)
  obtain s1 r where run: "run_operation (now i) operation s = (s1, r)" by fastforce
  with Cons.prems run_operation_spec [of s operation "now i"]
  have "store_ok s1" "spec_operation (now i) operation (store_view s) = (store_view s1, r)" by auto
  with Cons run show ?case by (fastforce split: prod.splits)
qed

lemma check_operations_valid:
  "check_operations ctx i operations = Inr () \<Longrightarrow> list_all (\<lambda>operation. valid_ns (op_namespace operation)) operations"
  by (induction operations arbitrary: i) (auto simp: res_simps check_operation_def dest: store_validate_ns)

lemma store_Batch_ok: "store_ok s \<Longrightarrow> store_ok (fst (store_Batch ctx now operations s))"
  using run_operations_spec [of s operations now 0] check_operations_valid [of ctx 0 operations]
  by (auto simp: store_Batch_def split: sum.splits prod.splits)

lemma store_Put_ok: "store_ok s \<Longrightarrow> store_ok (fst (store_Put ctx now ns key value s))"
  by (auto simp: store_Put_def putLocked_ok dest: store_validate_ns split: sum.splits)

lemma store_Delete_ok: "store_ok s \<Longrightarrow> store_ok (fst (store_Delete ctx ns key s))"
  by (auto simp: store_Delete_def deleteLocked_ok split: sum.splits)

text \<open>The stores a program can have: any sequence of calls from an empty one.\<close>

inductive store_reach :: "'x store \<Rightarrow> bool" where
  new: "store_reach NewMemory"
| put: "store_reach s \<Longrightarrow> store_reach (fst (store_Put ctx now ns key value s))"
| del: "store_reach s \<Longrightarrow> store_reach (fst (store_Delete ctx ns key s))"
| batch: "store_reach s \<Longrightarrow> store_reach (fst (store_Batch ctx now' operations s))"

lemma store_reach_ok: "store_reach s \<Longrightarrow> store_ok s"
  by (induction rule: store_reach.induct)
    (auto intro: store_ok_NewMemory store_Put_ok store_Delete_ok store_Batch_ok)

section \<open>Searching is paging through a sorted list\<close>

lemma itemLess_lex:
  "itemLess a b \<longleftrightarrow>
   (let l = namespaceKey (it_namespace a); r = namespaceKey (it_namespace b) in l < r \<or> l = r \<and> it_key a < it_key b)"
  by (auto simp: itemLess_def Let_def)

interpretation item_order: weak_order itemLess
proof
  fix a b c :: "'x item"
  show "itemLess a b \<Longrightarrow> \<not> itemLess b a" by (auto simp: itemLess_lex Let_def)
  show "\<not> itemLess a b \<Longrightarrow> \<not> itemLess b c \<Longrightarrow> \<not> itemLess a c" by (auto simp: itemLess_lex Let_def)
qed

interpretation candidate_order: weak_order candidateLess
  by unfold_locales (auto simp: candidateLess_def)

lemma store_items_ran:
  assumes "store_ok s"
  shows "set (store_items s) = ran (store_view s)"
proof (intro equalityI subsetI)
  fix item assume "item \<in> set (store_items s)"
  then obtain address items key where "(address, items) \<in> set s" "(key, item) \<in> set items"
    by (auto simp: store_items_def)
  with assms have "map_of s address = Some items" by (simp add: store_ok_def)
  moreover from group_okD [OF assms this] \<open>(key, item) \<in> set items\<close> have "map_of items key = Some item" "item_ok address key item"
    by (auto simp: group_ok_def)
  ultimately have "store_view s (it_namespace item, key) = Some item"
    by (auto simp: store_view_def store_lookup_def item_ok_def)
  then show "item \<in> ran (store_view s)" by (rule ranI)
next
  fix item assume "item \<in> ran (store_view s)"
  then show "item \<in> set (store_items s)"
    by (auto simp: ran_def store_view_def store_lookup_def dget_def store_items_def
        split: if_splits option.splits dest!: map_of_SomeD) force
qed

lemma store_items_comparable: "store_ok s \<Longrightarrow> item_order.comparable (set (store_items s))"
proof -
  assume ok: "store_ok s"
  have addressed: "store_view s (it_namespace item, it_key item) = Some item" if "item \<in> set (store_items s)" for item
    using that dget_group(2) [OF ok]
    by (auto simp: store_items_ran [OF ok] ran_def store_view_def store_lookup_def item_ok_def namespaceKey_inj
        split: if_splits)
  show ?thesis
    unfolding item_order.comparable_def
  proof (intro ballI impI)
    fix a b assume ab: "a \<in> set (store_items s)" "b \<in> set (store_items s)" "a \<noteq> b"
    with addressed have "(it_namespace a, it_key a) \<noteq> (it_namespace b, it_key b)" by (metis option.inject)
    moreover have "valid_ns (it_namespace a)" "valid_ns (it_namespace b)"
      using addressed [OF ab(1)] addressed [OF ab(2)] by (auto simp: store_view_def split: if_splits)
    ultimately show "itemLess a b \<or> itemLess b a" by (auto simp: itemLess_lex Let_def namespaceKey_inj)
  qed
qed

lemma sorted_strict:
  "distinct xs \<Longrightarrow> sorted_wrt (\<lambda>a b. \<not> lt b a) xs \<Longrightarrow> \<forall>a \<in> set xs. \<forall>b \<in> set xs. a \<noteq> b \<longrightarrow> lt a b \<or> lt b a \<Longrightarrow>
   sorted_wrt lt xs"
  by (induction xs) auto

lemma page_take:
  assumes "0 < limit" and "0 \<le> offset" and "int (length xs) \<le> maxInt"
  shows "page offset (take (nat (boundedWindow offset limit)) xs) = take (nat limit) (drop (nat offset) xs)"
proof (cases "offset > maxInt - limit")
  case True
  with assms show ?thesis by (simp add: page_def boundedWindow_def)
next
  case False
  with assms show ?thesis by (simp add: page_def boundedWindow_def drop_take nat_add_distrib)
qed

lemma boundedWindow_pos: "0 < limit \<Longrightarrow> 0 \<le> offset \<Longrightarrow> 0 < boundedWindow offset limit"
  by (simp add: boundedWindow_def maxInt_def)

lemma search_Normalized_bounds: "search_Normalized options = Inr o' \<Longrightarrow> 0 < so_limit o' \<and> 0 \<le> so_offset o'"
  by (auto simp: search_Normalized_def DefaultSearchLimit_def split: if_splits)

lemma distinct_store_items:
  assumes "store_ok s"
  shows "distinct (store_items s)"
proof -
  have group: "distinct (map snd items) \<and> (\<forall>item \<in> snd ` set items. namespaceKey (it_namespace item) = address)"
    if "(address, items) \<in> set s" for address items
  proof -
    have g: "group_ok address items" using that assms by (simp add: store_ok_def)
    then have "inj_on snd (set items)"
      by (intro inj_onI) (clarsimp simp: group_ok_def item_ok_def, metis)
    with g show ?thesis by (auto simp: group_ok_def item_ok_def distinct_map)
  qed
  have "distinct (dkeys s)" using assms by (simp add: store_ok_def)
  with group show ?thesis
  proof (induction s)
    case (Cons p s)
    obtain address items where p: "p = (address, items)" by fastforce
    have "distinct (store_items s)" using Cons by auto
    moreover have "distinct (map snd items)" using Cons.prems(1) [of address items] p by simp
    moreover have "set (map snd items) \<inter> set (store_items s) = {}"
    proof (intro equals0I, elim IntE)
      fix item assume item: "item \<in> set (map snd items)" "item \<in> set (store_items s)"
      then obtain address' items' where other: "(address', items') \<in> set s" "item \<in> snd ` set items'"
        by (auto simp: store_items_def)
      with Cons.prems(1) [of address' items'] have "namespaceKey (it_namespace item) = address'" by auto
      moreover have "namespaceKey (it_namespace item) = address" using Cons.prems(1) [of address items] item(1) p by auto
      ultimately show False using Cons.prems(2) other(1) p by force
    qed
    ultimately show ?case by (simp add: store_items_def p)
  qed (simp add: store_items_def)
qed

lemma store_Search_sorted:
  assumes "store_ok s" and "ctx_err ctx = Inr ()" and "search_Normalized options = Inr o'"
    and "so_prefix o' = [] \<or> valid_ns (so_prefix o')" and "int (length (store_items s)) \<le> maxInt"
  shows "store_Search lower render ctx options s =
    Inr (take (nat (so_limit o')) (drop (nat (so_offset o'))
      (sort_by itemLess (filter (search_hit lower render o') (store_items s)))))"
proof -
  let ?hits = "filter (search_hit lower render o') (store_items s)"
  have cmp: "item_order.comparable (set ?hits)"
    using store_items_comparable [OF assms(1)] by (auto simp: item_order.comparable_def)
  have "length (sort_by itemLess ?hits) = length ?hits"
    using item_order.sort_by_ok [of ?hits] by (metis size_mset)
  also have "\<dots> \<le> length (store_items s)" by (rule length_filter_le)
  finally have len: "int (length (sort_by itemLess ?hits)) \<le> maxInt" using assms(5) by linarith
  note b = search_Normalized_bounds [OF assms(3)]
  have "bounded_select itemLess (boundedWindow (so_offset o') (so_limit o')) ?hits =
      Inr (take (nat (boundedWindow (so_offset o') (so_limit o'))) (sort_by itemLess ?hits))"
    using b cmp by (intro item_order.bounded_select_first boundedWindow_pos) auto
  with assms(2-4) b len show ?thesis by (auto simp: store_Search_def page_take)
qed

lemma sorted_hits:
  assumes "store_ok s"
  shows "sorted_wrt itemLess (sort_by itemLess (filter P (store_items s)))"
    and "set (sort_by itemLess (filter P (store_items s))) = {item \<in> ran (store_view s). P item}"
proof -
  let ?xs = "sort_by itemLess (filter P (store_items s))"
  have ms: "mset ?xs = mset (filter P (store_items s))" using item_order.sort_by_ok by blast
  then show set: "set ?xs = {item \<in> ran (store_view s). P item}"
    using store_items_ran [OF assms] by (metis mset_eq_setD set_filter)
  have "distinct ?xs" using ms distinct_store_items [OF assms] by (metis distinct_filter mset_eq_imp_distinct_iff)
  moreover have "item_order.ordered ?xs" using item_order.sort_by_ok by blast
  moreover have "item_order.comparable (set ?xs)"
    using store_items_comparable [OF assms] unfolding set store_items_ran [OF assms]
    by (auto simp: item_order.comparable_def)
  ultimately show "sorted_wrt itemLess ?xs"
    unfolding item_order.ordered_def item_order.comparable_def by (rule sorted_strict)
qed

section \<open>Listing namespaces is paging through a sorted set\<close>

definition is_candidate :: "namespaceCandidate \<Rightarrow> bool" where
  "is_candidate c \<longleftrightarrow> valid_ns (nc_namespace c) \<and> c = candidate (nc_namespace c)"

lemma is_candidate [simp]: "valid_ns ns \<Longrightarrow> is_candidate (candidate ns)"
  by (simp add: is_candidate_def candidate_def)

lemma candidate_key_inj: "is_candidate a \<Longrightarrow> is_candidate b \<Longrightarrow> nc_key a = nc_key b \<longleftrightarrow> a = b"
  by (auto simp: is_candidate_def candidate_def namespaceKey_inj) (metis candidate_def clone_id(1) namespaceCandidate.select_convs(2) namespaceKey_inj)

lemma candidates_comparable: "\<forall>c \<in> A. is_candidate c \<Longrightarrow> candidate_order.comparable A"
  by (auto simp: candidate_order.comparable_def candidateLess_def) (metis candidate_key_inj neqE)

text \<open>The selection after the candidates \<open>seen\<close>: the heap holds the first of them and \<open>retained\<close> its keys.\<close>

definition listing :: "nat \<Rightarrow> namespaceCandidate list \<Rightarrow> namespaceCandidate list \<times> string list \<Rightarrow> bool" where
  "listing n seen sel \<longleftrightarrow>
     distinct seen \<and> (\<forall>c \<in> set seen. is_candidate c) \<and> candidate_order.selects n seen (fst sel) \<and>
     set (snd sel) = nc_key ` set (fst sel)"

lemma selects_items:
  assumes "listing n seen (items, retained)"
  shows "distinct items" and "set items \<subseteq> set seen"
proof -
  have ms: "mset items = mset (take n (sort_by candidateLess seen))"
    and sorted: "mset (sort_by candidateLess seen) = mset seen"
    using assms candidate_order.sort_by_ok by (auto simp: listing_def candidate_order.selects_def)
  have "distinct (sort_by candidateLess seen)" using assms sorted by (metis listing_def mset_eq_imp_distinct_iff)
  with ms show "distinct items" by (metis distinct_take mset_eq_imp_distinct_iff)
  show "set items \<subseteq> set seen" using ms sorted by (metis mset_eq_setD set_take_subset)
qed

lemma namespace_Add_seen:
  assumes "listing n seen sel" and "0 < n" and "valid_ns ns" and "candidate ns \<in> set seen"
  shows "namespace_Add (int n) ns sel = Inr sel"
proof -
  obtain items retained where sel: "sel = (items, retained)" by fastforce
  show ?thesis
  proof (cases "candidate ns \<in> set items")
    case True
    with assms(1) sel show ?thesis by (simp add: namespace_Add_def Let_def listing_def)
  next
    case False
    with candidate_order.selects_evicted [of n seen items "candidate ns"] assms sel
    have "length items = n" "\<not> candidateLess (candidate ns) (items ! 0)" by (auto simp: listing_def)
    with assms(2) sel show ?thesis by (auto simp: namespace_Add_def Let_def candidateLess_def)
  qed
qed

lemma namespace_Add_new:
  assumes "listing n seen sel" and "0 < n" and "valid_ns ns" and "candidate ns \<notin> set seen"
  shows "\<exists>sel'. namespace_Add (int n) ns sel = Inr sel' \<and> listing n (seen @ [candidate ns]) sel'"
proof -
  obtain items retained where sel: "sel = (items, retained)" by fastforce
  let ?c = "candidate ns"
  have cands: "\<forall>c \<in> set (seen @ [?c]). is_candidate c" using assms(1,3) by (auto simp: listing_def)
  from candidate_order.selects_step [OF _ assms(2) candidates_comparable [OF cands], of items] assms(1) sel
  obtain items' where add: "bounded_Add candidateLess (int n) ?c items = Inr items'"
    and sel': "candidate_order.selects n (seen @ [?c]) items'" by (auto simp: listing_def)
  note items = selects_items [OF assms(1) [unfolded sel]]
  have fresh: "nc_key ?c \<notin> set retained"
    using assms cands items(2) sel by (auto simp: listing_def) (metis assms(3) candidate_key_inj is_candidate subsetD)
  have heap: "heap_ok candidateLess items" using assms(1) sel by (simp add: listing_def candidate_order.selects_def)
  have "\<exists>retained'. namespace_Add (int n) ns sel = Inr (items', retained') \<and> set retained' = nc_key ` set items'"
  proof (cases "length items < n")
    case True
    with add have items': "items' = heap_Push candidateLess items ?c" by (simp add: bounded_Add_def)
    with candidate_order.heap_Push_ok [OF heap, of ?c] have "set items' = insert ?c (set items)"
      by (metis list.simps(15) mset_eq_setD)
    with True items' fresh sel assms(1) show ?thesis by (auto simp: namespace_Add_def Let_def listing_def)
  next
    case False
    with assms(2) add have ne: "items \<noteq> []" by (auto simp: bounded_Add_def split: if_splits)
    then obtain r rest where it: "items = r # rest" by (cases items) auto
    have "x = r" if "x \<in> set rest" "nc_key x = nc_key r" for x
      using that items(2) it assms(1) sel candidate_key_inj [of x r] by (auto simp: listing_def)
    with items(1) it have keys: "nc_key r \<notin> nc_key ` set rest" by fastforce
    show ?thesis
    proof (cases "candidateLess ?c (items ! 0)")
      case less: True
      with False ne add have "items' = heap_Fix candidateLess (items[0 := ?c]) 0" by (simp add: bounded_Add_def)
      with candidate_order.heap_Fix_root_ok [OF heap ne, of ?c] have "set items' = insert ?c (set rest)"
        using it by (metis list.sel(3) list.simps(15) mset_eq_setD)
      with less False ne fresh sel assms(1) keys it \<open>items' = _\<close> show ?thesis
        by (auto simp: namespace_Add_def Let_def listing_def candidateLess_def)
    next
      case ge: False
      with False ne add sel assms(1) fresh show ?thesis
        by (auto simp: namespace_Add_def bounded_Add_def Let_def listing_def candidateLess_def)
    qed
  qed
  then show ?thesis using sel' cands assms(1,4) by (fastforce simp: listing_def)
qed

lemma fold_namespace_Add:
  assumes "listing n seen sel" and "0 < n" and "\<forall>ns \<in> set nss. valid_ns ns"
  shows "\<exists>seen' sel'. fold_res (namespace_Add (int n)) nss sel = Inr sel' \<and> listing n seen' sel' \<and>
    set seen' = set seen \<union> candidate ` set nss"
  using assms
proof (induction nss arbitrary: seen sel)
  case Nil
  then show ?case by auto
next
  case (Cons ns nss)
  show ?case
  proof (cases "candidate ns \<in> set seen")
    case True
    with Cons namespace_Add_seen [OF Cons.prems(1,2) _ True] show ?thesis by (simp add: insert_absorb)
  next
    case False
    with Cons.prems namespace_Add_new [OF Cons.prems(1,2) _ False] obtain sel1 where
      sel1: "namespace_Add (int n) ns sel = Inr sel1" "listing n (seen @ [candidate ns]) sel1" by auto
    from Cons.IH [OF sel1(2) Cons.prems(2)] Cons.prems(3) sel1(1) show ?thesis by simp
  qed
qed

text \<open>The namespaces a listing offers, on the abstract map.\<close>

definition cut :: "listNamespacesOptions \<Rightarrow> namespace \<Rightarrow> namespace" where
  "cut o' ns = (if ln_maxDepth o' > 0 then take (nat (ln_maxDepth o')) ns else ns)"

definition offered :: "listNamespacesOptions \<Rightarrow> 'x store \<Rightarrow> namespace set" where
  "offered o' s = cut o' ` {ns. namespaceMatches ns o' \<and> (\<exists>key. store_view s (ns, key) \<noteq> None)}"

lemma cut_valid: "valid_ns ns \<Longrightarrow> valid_ns (cut o' ns)"
  by (auto simp: cut_def valid_ns_iff dest: in_set_takeD)

lemma listed_namespace_eq:
  "listed_namespace o' items =
   (case items of [] \<Rightarrow> [] | (key, item) # rest \<Rightarrow>
      if namespaceMatches (it_namespace item) o' then [cut o' (it_namespace item)] else [])"
  by (auto simp: listed_namespace_def cut_def split: list.splits)

lemma listed_group:
  assumes "store_ok s" and "map_of s (namespaceKey ns) = Some items" and "valid_ns ns"
  shows "listed_namespace o' items = (if namespaceMatches ns o' then [cut o' ns] else [])"
proof -
  have g: "group_ok (namespaceKey ns) items" using assms(1,2) by (rule group_okD)
  then obtain key item rest where items: "items = (key, item) # rest" by (cases items) (auto simp: group_ok_def)
  with g have "it_namespace item = ns"
    using assms(3) by (auto simp: group_ok_def item_ok_def namespaceKey_inj dest!: spec [of _ key])
  with items show ?thesis by (simp add: listed_namespace_eq)
qed

lemma store_groups:
  assumes "store_ok s" and "map_of s address = Some items"
  obtains ns key item where "address = namespaceKey ns" and "valid_ns ns" and "store_view s (ns, key) = Some item"
proof -
  have g: "group_ok address items" using assms by (rule group_okD)
  then obtain key item where "(key, item) \<in> set items" by (cases items) (auto simp: group_ok_def)
  with g have "map_of items key = Some item" "item_ok address key item" by (auto simp: group_ok_def)
  with assms(2) that [of "it_namespace item" key item] show thesis
    by (auto simp: item_ok_def store_view_def store_lookup_def)
qed

lemma listed_offered:
  assumes "store_ok s"
  shows "set (concat (map (\<lambda>(address, items). listed_namespace o' items) s)) = offered o' s" (is "?L = _")
proof (intro equalityI subsetI)
  fix ns assume "ns \<in> ?L"
  then obtain address items where "(address, items) \<in> set s" and ns: "ns \<in> set (listed_namespace o' items)" by auto
  then have m: "map_of s address = Some items" using assms by (simp add: store_ok_def)
  obtain ns' key item where "address = namespaceKey ns'" "valid_ns ns'" "store_view s (ns', key) = Some item"
    by (rule store_groups [OF assms m])
  with ns m listed_group [OF assms, of ns' items o'] show "ns \<in> offered o' s"
    by (auto simp: offered_def split: if_splits)
next
  fix ns assume "ns \<in> offered o' s"
  then obtain ns' key item where ns': "ns = cut o' ns'" "namespaceMatches ns' o'" "store_view s (ns', key) = Some item"
    by (auto simp: offered_def)
  then obtain items where m: "map_of s (namespaceKey ns') = Some items" and v: "valid_ns ns'"
    by (auto simp: store_view_def store_lookup_def dget_def split: if_splits option.splits)
  from listed_group [OF assms m v] ns' have "ns \<in> set (listed_namespace o' items)" by simp
  with map_of_SomeD [OF m] show "ns \<in> ?L" by force
qed

lemma namespaces_Normalized_bounds:
  "namespaces_Normalized options = Inr o' \<Longrightarrow> 0 < ln_limit o' \<and> 0 \<le> ln_offset o'"
  by (auto simp: namespaces_Normalized_def DefaultListNamespacesLimit_def split: if_splits)

lemma length_listed: "length (concat (map (\<lambda>(address, items). listed_namespace o' items) s)) \<le> length s"
proof (induction s)
  case (Cons p s)
  then show ?case by (cases p) (auto simp: listed_namespace_eq split: list.splits prod.splits)
qed simp

lemma sorted_candidates:
  assumes "distinct seen" and "\<forall>c \<in> set seen. is_candidate c" and "set seen = candidate ` A"
  shows "sorted_wrt (\<lambda>a b. namespaceKey a < namespaceKey b) (map nc_namespace (sort_by candidateLess seen))"
    and "set (map nc_namespace (sort_by candidateLess seen)) = A"
proof -
  let ?xs = "sort_by candidateLess seen"
  have ms: "mset ?xs = mset seen" using candidate_order.sort_by_ok by blast
  then have set: "set ?xs = set seen" by (rule mset_eq_setD)
  have "sorted_wrt candidateLess ?xs"
  proof (rule sorted_strict)
    show "distinct ?xs" using assms(1) ms by (metis mset_eq_imp_distinct_iff)
    show "sorted_wrt (\<lambda>a b. \<not> candidateLess b a) ?xs"
      using candidate_order.sort_by_ok by (simp add: candidate_order.ordered_def)
    show "\<forall>a \<in> set ?xs. \<forall>b \<in> set ?xs. a \<noteq> b \<longrightarrow> candidateLess a b \<or> candidateLess b a"
      using candidates_comparable [OF assms(2)] by (simp add: set candidate_order.comparable_def)
  qed
  moreover have "candidateLess a b \<longleftrightarrow> namespaceKey (nc_namespace a) < namespaceKey (nc_namespace b)"
    if "a \<in> set ?xs" "b \<in> set ?xs" for a b
    using that assms(3) by (auto simp: set candidateLess_def candidate_def)
  ultimately show "sorted_wrt (\<lambda>a b. namespaceKey a < namespaceKey b) (map nc_namespace ?xs)"
    by (auto simp: sorted_wrt_map elim!: sorted_wrt_mono_rel [rotated])
  show "set (map nc_namespace ?xs) = A" using assms(3) by (simp add: set image_image candidate_def)
qed

lemma ListNamespaces_sorted:
  assumes "store_ok s" and "ctx_err ctx = Inr ()" and "namespaces_Normalized options = Inr o'"
    and "ln_prefix o' = [] \<or> valid_ns (ln_prefix o')" and "ln_suffix o' = [] \<or> valid_ns (ln_suffix o')"
    and "int (length s) \<le> maxInt"
  shows "\<exists>all. sorted_wrt (\<lambda>a b. namespaceKey a < namespaceKey b) all \<and> set all = offered o' s \<and>
    ListNamespaces ctx options s = Inr (take (nat (ln_limit o')) (drop (nat (ln_offset o')) all))"
proof -
  let ?nss = "concat (map (\<lambda>(address, items). listed_namespace o' items) s)"
  let ?w = "boundedWindow (ln_offset o') (ln_limit o')"
  note b = namespaces_Normalized_bounds [OF assms(3)]
  have w: "0 < ?w" using b by (intro boundedWindow_pos) auto
  have "\<forall>ns \<in> offered o' s. valid_ns ns"
    by (auto simp: offered_def store_view_def intro!: cut_valid split: if_splits)
  then have valid: "\<forall>ns \<in> set ?nss. valid_ns ns" using listed_offered [OF assms(1), of o'] by simp
  have "listing (nat ?w) [] ([], [])"
    by (simp add: listing_def candidate_order.selects_def heap_ok_def sort_by_def)
  from fold_namespace_Add [OF this _ valid] w obtain seen items retained where
    fold: "fold_res (namespace_Add ?w) ?nss ([], []) = Inr (items, retained)"
    and lst: "listing (nat ?w) seen (items, retained)" and seen: "set seen = candidate ` set ?nss" by auto
  have cands: "distinct seen" "\<forall>c \<in> set seen. is_candidate c" using lst by (auto simp: listing_def)
  have "length seen = card (set seen)" using cands(1) by (simp add: distinct_card)
  also have "\<dots> \<le> card (set ?nss)" unfolding seen by (rule card_image_le [OF finite_set])
  also have "\<dots> \<le> length ?nss" by (rule card_length)
  also have "\<dots> \<le> length s" by (rule length_listed)
  finally have "length (sort_by candidateLess seen) \<le> length s"
    using candidate_order.sort_by_ok [of seen] by (metis size_mset)
  with assms(6) have len: "int (length (sort_by candidateLess seen)) \<le> maxInt" by linarith
  have "sort_by candidateLess items = take (nat ?w) (sort_by candidateLess seen)"
    using lst by (intro candidate_order.selects_sorted candidates_comparable) (auto simp: listing_def)
  with b len have page: "page (ln_offset o') (sort_by candidateLess items) =
      take (nat (ln_limit o')) (drop (nat (ln_offset o')) (sort_by candidateLess seen))" by (simp add: page_take)
  note all = sorted_candidates [OF cands seen]
  show ?thesis
    using all fold page assms(2-5) listed_offered [OF assms(1), of o']
    by (intro exI [of _ "map nc_namespace (sort_by candidateLess seen)"])
      (auto simp: ListNamespaces_def take_map drop_map)
qed

section \<open>Properties\<close>

text \<open>C38: The in-memory store refines a finite map from (namespace, key) to items. Get reads the map; Put writes the value and
  keeps the creation time of an item that exists; Delete removes one item; a batch is all or nothing: if one operation is
  refused, nothing is written, and otherwise the operations run in order, each seeing the earlier ones.\<close>

theorem store_refines_map:
  assumes "store_reach s" and "store_validate ctx ns key = Inr ()"
  shows "store_Get ctx ns key s = Inr (store_view s (ns, key)) \<and>
    store_view (fst (store_Put ctx now ns key value s)) =
      (store_view s)((ns, key) \<mapsto> put_item now ns key value (store_view s (ns, key))) \<and>
    store_view (fst (store_Delete ctx ns key s)) = (store_view s)((ns, key) := None) \<and>
    (case check_operations ctxs 0 operations of
       Inl e \<Rightarrow> store_Batch ctxs nows operations s = (s, Inl e)
     | Inr _ \<Rightarrow> \<exists>s' rs. store_Batch ctxs nows operations s = (s', Inr rs) \<and>
         spec_operations nows 0 operations (store_view s) = (store_view s', rs))"
proof (intro conjI)
  have v: "valid_ns ns" using assms(2) by (rule store_validate_ns)
  have ok: "store_ok s" using assms(1) by (rule store_reach_ok)
  show "store_Get ctx ns key s = Inr (store_view s (ns, key))"
    using assms(2) v by (simp add: store_Get_def store_view_def)
  show "store_view (fst (store_Put ctx now ns key value s)) =
      (store_view s)((ns, key) \<mapsto> put_item now ns key value (store_view s (ns, key)))"
    using assms(2) by (simp add: store_Put_def putLocked_view [OF v])
  show "store_view (fst (store_Delete ctx ns key s)) = (store_view s)((ns, key) := None)"
    using assms(2) by (simp add: store_Delete_def deleteLocked_view [OF v])
  obtain s' rs where run: "run_operations nows 0 operations s = (s', rs)" by fastforce
  show "case check_operations ctxs 0 operations of
       Inl e \<Rightarrow> store_Batch ctxs nows operations s = (s, Inl e)
     | Inr _ \<Rightarrow> \<exists>s' rs. store_Batch ctxs nows operations s = (s', Inr rs) \<and>
         spec_operations nows 0 operations (store_view s) = (store_view s', rs)"
    using run run_operations_spec [OF ok check_operations_valid run]
    by (auto simp: store_Batch_def split: sum.split)
qed

text \<open>C39: A search returns one page of the matching items in address order, whatever the order in which Go iterates over
  its maps: the bounded heap and the saturating window never change the result.\<close>

theorem store_Search_pages:
  assumes "store_reach s" and "ctx_err ctx = Inr ()" and "search_Normalized options = Inr o'"
    and "so_prefix o' = [] \<or> valid_ns (so_prefix o')" and "int (length (store_items s)) \<le> maxInt"
  shows "\<exists>hits. sorted_wrt itemLess hits \<and> set hits = {item \<in> ran (store_view s). search_hit lower render o' item} \<and>
    store_Search lower render ctx options s = Inr (take (nat (so_limit o')) (drop (nat (so_offset o')) hits))"
  using store_Search_sorted [OF store_reach_ok [OF assms(1)] assms(2-5)] sorted_hits [OF store_reach_ok [OF assms(1)]]
  by blast

text \<open>Listing namespaces returns one page of the distinct matching namespaces, cut to the maximum depth and in key order:
  a namespace evicted from the bounded heap never comes back as a duplicate.\<close>

theorem ListNamespaces_pages:
  assumes "store_reach s" and "ctx_err ctx = Inr ()" and "namespaces_Normalized options = Inr o'"
    and "ln_prefix o' = [] \<or> valid_ns (ln_prefix o')" and "ln_suffix o' = [] \<or> valid_ns (ln_suffix o')"
    and "int (length s) \<le> maxInt"
  shows "\<exists>all. sorted_wrt (\<lambda>a b. namespaceKey a < namespaceKey b) all \<and> set all = offered o' s \<and>
    ListNamespaces ctx options s = Inr (take (nat (ln_limit o')) (drop (nat (ln_offset o')) all))"
  using ListNamespaces_sorted [OF store_reach_ok [OF assms(1)] assms(2-6)] .

section \<open>Witnesses\<close>

definition sample_store :: "unit store" where
  "sample_store =
     fst (store_Put None 7 [''b'', ''c''] ''m'' (Some [])
       (fst (store_Put None 5 [''a''] ''k'' (Some []) NewMemory)))"

definition sample_search :: searchOptions where
  "sample_search = \<lparr>so_prefix = [], so_query = [], so_limit = 1, so_offset = 1\<rparr>"

definition sample_listing :: listNamespacesOptions where
  "sample_listing = \<lparr>ln_prefix = [''*''], ln_suffix = [], ln_maxDepth = 1, ln_limit = 1, ln_offset = 1\<rparr>"

lemma sample_store_reach: "store_reach sample_store"
  by (simp add: sample_store_def store_reach.intros)

theorem store_refines_map_witness:
  "store_Get None [''a''] ''k'' sample_store = Inr (store_view sample_store ([''a''], ''k'')) \<and>
   fst (store_Batch (\<lambda>_. None) (\<lambda>_. 9) [\<lparr>op_namespace = [], op_key = ''k'', op_putValue = None, op_delete = True\<rparr>]
     sample_store) = sample_store"
proof -
  have v: "store_validate None [''a''] ''k'' = Inr ()" by code_simp
  have "isl (check_operations (\<lambda>_. None) 0
      [\<lparr>op_namespace = [], op_key = ''k'', op_putValue = None, op_delete = True\<rparr> :: unit operation])" by code_simp
  with store_refines_map [OF sample_store_reach v, of 0 None "\<lambda>_. None" "\<lambda>_. 9"
      "[\<lparr>op_namespace = [], op_key = ''k'', op_putValue = None, op_delete = True\<rparr>]"]
  show ?thesis by (auto simp: isl_def)
qed

theorem store_Search_pages_witness:
  "\<exists>hits. sorted_wrt itemLess hits \<and>
     set hits = {item \<in> ran (store_view sample_store). search_hit id (\<lambda>_. []) sample_search item} \<and>
     store_Search id (\<lambda>_. []) None sample_search sample_store = Inr (take 1 (drop 1 hits))"
proof -
  have "ctx_err None = Inr ()" "search_Normalized sample_search = Inr sample_search" "so_prefix sample_search = []"
    "int (length (store_items sample_store)) \<le> maxInt" by code_simp+
  from store_Search_pages [OF sample_store_reach this(1,2) disjI1 [OF this(3)] this(4), of id "\<lambda>_. []"]
  show ?thesis by (simp add: sample_search_def)
qed

theorem ListNamespaces_pages_witness:
  "\<exists>all. sorted_wrt (\<lambda>a b. namespaceKey a < namespaceKey b) all \<and> set all = offered sample_listing sample_store \<and>
     ListNamespaces None sample_listing sample_store = Inr (take 1 (drop 1 all))"
proof -
  have "ctx_err None = Inr ()" "namespaces_Normalized sample_listing = Inr sample_listing"
    "valid_ns (ln_prefix sample_listing)" "ln_suffix sample_listing = []"
    "int (length sample_store) \<le> maxInt" by code_simp+
  from ListNamespaces_pages [OF sample_store_reach this(1,2) disjI2 [OF this(3)] disjI1 [OF this(4)] this(5)]
  show ?thesis by (simp add: sample_listing_def)
qed

end
