(* ===== verification/Memory_Cache.thy ===== *)
theory Memory_Cache
  imports Memory_Saver
begin

text \<open>
  The in-memory cache of \<^verbatim>\<open>dacache/cache.go\<close>. An entry without an expiry time (Go's zero time) is \<open>None\<close>. Get releases
  its lock between reading an entry and evicting it, so the model of Get takes what other goroutines do in between, and the
  step relation \<open>cache_reach\<close> interleaves the critical sections of any number of calls.
\<close>

section \<open>The cache\<close>

record entry =
  ce_value :: "8 word list"
  ce_expiresAt :: "int option"

type_synonym cache = "(string, entry) dict"

definition NewCache :: cache where
  "NewCache = []"

definition cache_validate :: "goctx \<Rightarrow> string \<Rightarrow> unit res" where
  "cache_validate ctx key =
     res_bind (ctx_err ctx) (\<lambda>_. if key = [] then Inl (Errorf ''cache key is required'') else Inr ())"

definition expired :: "int \<Rightarrow> entry \<Rightarrow> bool" where
  "expired now entry = (case ce_expiresAt entry of None \<Rightarrow> False | Some t \<Rightarrow> \<not> now < t)"

definition cache_evict :: "string \<Rightarrow> entry \<Rightarrow> cache \<Rightarrow> cache" where
  "cache_evict key entry c =
     (case map_of c key of
        Some current \<Rightarrow> if ce_expiresAt current = ce_expiresAt entry then ddel key c else c
      | None \<Rightarrow> c)"

definition cache_Get ::
  "goctx \<Rightarrow> int \<Rightarrow> (cache \<Rightarrow> cache) \<Rightarrow> string \<Rightarrow> cache \<Rightarrow> cache \<times> 8 word list option res" where
  "cache_Get ctx now between key c =
     (case cache_validate ctx key of
        Inl e \<Rightarrow> (c, Inl e)
      | Inr _ \<Rightarrow>
          (case map_of c key of
             None \<Rightarrow> (c, Inr None)
           | Some entry \<Rightarrow>
               if expired now entry then (cache_evict key entry (between c), Inr None)
               else (c, Inr (Some ([] @ ce_value entry)))))"

definition new_entry :: "int \<Rightarrow> 8 word list \<Rightarrow> int \<Rightarrow> entry" where
  "new_entry now value ttl =
     \<lparr>ce_value = [] @ value, ce_expiresAt = (if ttl > 0 then Some (now + ttl) else None)\<rparr>"

definition cache_Set :: "goctx \<Rightarrow> int \<Rightarrow> string \<Rightarrow> 8 word list \<Rightarrow> int \<Rightarrow> cache \<Rightarrow> cache \<times> unit res" where
  "cache_Set ctx now key value ttl c =
     (case cache_validate ctx key of
        Inl e \<Rightarrow> (c, Inl e)
      | Inr _ \<Rightarrow> (dput key (new_entry now value ttl) c, Inr ()))"

definition cache_Delete :: "goctx \<Rightarrow> string \<Rightarrow> cache \<Rightarrow> cache \<times> unit res" where
  "cache_Delete ctx key c =
     (case cache_validate ctx key of Inl e \<Rightarrow> (c, Inl e) | Inr _ \<Rightarrow> (ddel key c, Inr ()))"

section \<open>Interleavings\<close>

text \<open>
  The states of a shared cache: its entries, the evictions that calls of Get have decided and not yet done (with the clock
  reading of the decision), the time, and the last entry set and not deleted under each key. Set reads the clock before it
  takes the lock, and an eviction happens after its clock reading.
\<close>

inductive cache_reach :: "cache \<Rightarrow> (string \<times> entry \<times> int) set \<Rightarrow> int \<Rightarrow> (string \<rightharpoonup> entry) \<Rightarrow> bool" where
  new: "cache_reach NewCache {} t Map.empty"
| tick: "cache_reach c P t m \<Longrightarrow> t \<le> t' \<Longrightarrow> cache_reach c P t' m"
| set: "cache_reach c P t m \<Longrightarrow> now \<le> t \<Longrightarrow> cache_Set ctx now key value ttl c = (c', Inr ()) \<Longrightarrow>
    cache_reach c' P t (m(key \<mapsto> new_entry now value ttl))"
| delete: "cache_reach c P t m \<Longrightarrow> cache_Delete ctx key c = (c', Inr ()) \<Longrightarrow> cache_reach c' P t (m(key := None))"
| decide: "cache_reach c P t m \<Longrightarrow> map_of c key = Some entry \<Longrightarrow> expired now entry \<Longrightarrow>
    cache_reach c (insert (key, entry, now) P) t m"
| evict: "cache_reach c P t m \<Longrightarrow> (key, entry, now) \<in> P \<Longrightarrow> now \<le> t \<Longrightarrow>
    cache_reach (cache_evict key entry c) (P - {(key, entry, now)}) t m"

definition live :: "int \<Rightarrow> entry option \<Rightarrow> entry option" where
  "live now e = (case e of None \<Rightarrow> None | Some entry \<Rightarrow> if expired now entry then None else Some entry)"

definition cache_inv :: "cache \<Rightarrow> (string \<times> entry \<times> int) set \<Rightarrow> int \<Rightarrow> (string \<rightharpoonup> entry) \<Rightarrow> bool" where
  "cache_inv c P t m \<longleftrightarrow>
     (\<forall>key now. t \<le> now \<longrightarrow> live now (map_of c key) = live now (m key)) \<and>
     (\<forall>(key, entry, now) \<in> P. expired now entry)"

lemma expired_mono: "expired now entry \<Longrightarrow> now \<le> now' \<Longrightarrow> expired now' entry"
  by (auto simp: expired_def split: option.splits)

lemma live_evict:
  assumes "expired now entry" and "now \<le> now'"
  shows "live now' (map_of (cache_evict key entry c) k) = live now' (map_of c k)"
proof -
  have "expired now' e" if "ce_expiresAt e = ce_expiresAt entry" for e
    using expired_mono [OF assms] that by (simp add: expired_def)
  then show ?thesis by (auto simp: cache_evict_def live_def split: option.splits)
qed

lemma cache_reach_inv: "cache_reach c P t m \<Longrightarrow> cache_inv c P t m"
proof (induction rule: cache_reach.induct)
  case (evict c P t m key entry now)
  then have "expired now entry" by (auto simp: cache_inv_def)
  with evict show ?case by (auto simp: cache_inv_def live_evict)
qed (auto simp: cache_inv_def NewCache_def cache_Set_def cache_Delete_def split: sum.splits)

text \<open>C40: Lazy expiry cannot be observed: however the critical sections of concurrent calls interleave, Get returns the value
  that was last set and not deleted if its time has not come, and nothing otherwise. In particular an eviction that was decided
  on an old entry never removes a fresh one.\<close>

theorem cache_Get_expiry:
  assumes "cache_reach c P t m" and "t \<le> now" and "cache_validate ctx key = Inr ()"
  shows "snd (cache_Get ctx now between key c) = Inr (map_option ce_value (live now (m key)))"
proof -
  have "live now (map_of c key) = live now (m key)"
    using cache_reach_inv [OF assms(1)] assms(2) by (simp add: cache_inv_def)
  then show ?thesis
    using assms(3) by (auto simp: cache_Get_def live_def split: option.splits if_splits)
qed

theorem cache_Get_expiry_witness:
  "snd (cache_Get None 12 id ''k'' (cache_evict ''k'' (new_entry 0 [1] 5) (dput ''k'' (new_entry 8 [2] 5) NewCache))) = Inr (Some [2])"
proof -
  let ?old = "new_entry 0 [1] 5" and ?new = "new_entry 8 [2] 5"
  have a: "cache_reach (dput ''k'' ?old NewCache) {} 8 (Map.empty(''k'' \<mapsto> ?old))"
    by (rule cache_reach.set [OF cache_reach.new, of 0 8 None]) code_simp+
  have "cache_reach (dput ''k'' ?old NewCache) {(''k'', ?old, 8)} 8 (Map.empty(''k'' \<mapsto> ?old))"
    by (rule cache_reach.decide [OF a]) code_simp+
  then have "cache_reach (dput ''k'' ?new NewCache) {(''k'', ?old, 8)} 8 (Map.empty(''k'' \<mapsto> ?old, ''k'' \<mapsto> ?new))"
    by (rule cache_reach.set [of _ _ _ _ 8 None]) code_simp+
  then have "cache_reach (cache_evict ''k'' ?old (dput ''k'' ?new NewCache)) ({(''k'', ?old, 8)} - {(''k'', ?old, 8)}) 8
      (Map.empty(''k'' \<mapsto> ?old, ''k'' \<mapsto> ?new))"
    by (rule cache_reach.evict) simp_all
  from cache_Get_expiry [OF this, of 12 None "''k''" id] show ?thesis
    by (simp add: cache_validate_def ctx_err_def live_def expired_def new_entry_def)
qed

end
