(* ===== verification/Msgpack.thy ===== *)
theory Msgpack
  imports Go_Values Go_Strings
begin

text \<open>
  The MessagePack codec of \<^verbatim>\<open>dacheckpoint/serde/msgpack.go\<close>, byte for byte. The encoder's buffer is the list of bytes
  each call appends (writing to a \<^verbatim>\<open>bytes.Buffer\<close> never fails, and a failed encoding discards the buffer); the decoder's
  state is the rest of the data after its offset. Lengths are Go ints, machine integers are words, floats are bit patterns.
\<close>

section \<open>Wire values and bytes\<close>

text \<open>
  The dynamic types the encoder accepts. The sized integer types are kept as the 64 bits they are converted to;
  \<open>WExt\<close> is \<^verbatim>\<open>extension\<close>, \<open>WOther\<close> a value of any other type.
\<close>

datatype wire =
    WNil
  | WBool bool
  | WStr string
  | WBytes "8 word list"
  | WInt "64 word"
  | WUint "64 word"
  | WFloat32 "32 word"
  | WFloat64 "64 word"
  | WSlice "wire list"
  | WMap "(string \<times> wire) list"
  | WExt "8 word" wire
  | WOther string

type_synonym bytes = "8 word list"

record limits =
  lm_MaxDepth :: int
  lm_MaxCollection :: int
  lm_MaxBytes :: int

definition bytes_of :: "string \<Rightarrow> bytes" where
  "bytes_of s = map of_char s"

definition string_of :: "bytes \<Rightarrow> string" where
  "string_of bs = map (\<lambda>b. char_of (unat b)) bs"

text \<open>\<^verbatim>\<open>binary.Write\<close> and \<^verbatim>\<open>binary.BigEndian\<close>: the \<open>k\<close> bytes of a word, most significant first.\<close>

definition put_be :: "nat \<Rightarrow> 'a::len word \<Rightarrow> bytes" where
  "put_be k w = map word_of_nat (be_bytes k (unat w))"

definition get_be :: "bytes \<Rightarrow> nat" where
  "get_be bs = foldl (\<lambda>n b. n * 256 + unat b) 0 bs"

section \<open>Encoding\<close>

definition writeUint :: "64 word \<Rightarrow> bytes" where
  "writeUint v =
     (if v \<le> 0x7f then [ucast v]
      else if v \<le> 0xff then [0xcc, ucast v]
      else if v \<le> 0xffff then 0xcd # put_be 2 (ucast v :: 16 word)
      else if v \<le> 0xffffffff then 0xce # put_be 4 (ucast v :: 32 word)
      else 0xcf # put_be 8 v)"

definition writeInt :: "64 word \<Rightarrow> bytes" where
  "writeInt v =
     (if sint v \<ge> 0 then writeUint v
      else if sint v \<ge> - 32 then [ucast v]
      else if sint v \<ge> - 128 then [0xd0, ucast v]
      else if sint v \<ge> - 32768 then 0xd1 # put_be 2 (ucast v :: 16 word)
      else if sint v \<ge> - 2147483648 then 0xd2 # put_be 4 (ucast v :: 32 word)
      else 0xd3 # put_be 8 v)"

definition writeString :: "limits \<Rightarrow> string \<Rightarrow> bytes res" where
  "writeString l s =
     (let n = length s
      in if int n > lm_MaxBytes l then Inl (Wrapf ''%w: string exceeds %d bytes'' ErrMalformedPayload)
         else Inr ((if n \<le> 31 then [or 0xa0 (word_of_nat n)]
                    else if n \<le> 0xff then [0xd9, word_of_nat n]
                    else if n \<le> 0xffff then 0xda # put_be 2 (word_of_nat n :: 16 word)
                    else 0xdb # put_be 4 (word_of_nat n :: 32 word)) @ bytes_of s))"

definition writeBytes :: "limits \<Rightarrow> bytes \<Rightarrow> bytes res" where
  "writeBytes l bs =
     (let n = length bs
      in if int n > lm_MaxBytes l then Inl (Wrapf ''%w: bytes exceed %d bytes'' ErrMalformedPayload)
         else Inr ((if n \<le> 0xff then [0xc4, word_of_nat n]
                    else if n \<le> 0xffff then 0xc5 # put_be 2 (word_of_nat n :: 16 word)
                    else 0xc6 # put_be 4 (word_of_nat n :: 32 word)) @ bs))"

definition writeLength :: "limits \<Rightarrow> nat \<Rightarrow> 8 word \<Rightarrow> nat \<Rightarrow> 8 word \<Rightarrow> 8 word \<Rightarrow> bytes res" where
  "writeLength l n fixBase fixMax code16 code32 =
     (if int n > lm_MaxCollection l then Inl (Wrapf ''%w: collection length %d'' ErrMalformedPayload)
      else Inr (if n \<le> fixMax then [or fixBase (word_of_nat n)]
                else if n \<le> 0xffff then code16 # put_be 2 (word_of_nat n :: 16 word)
                else code32 # put_be 4 (word_of_nat n :: 32 word)))"

definition writeExtensionLength :: "nat \<Rightarrow> bytes" where
  "writeExtensionLength n =
     (if n = 1 then [0xd4] else if n = 2 then [0xd5] else if n = 4 then [0xd6] else if n = 8 then [0xd7]
      else if n = 16 then [0xd8]
      else if n \<le> 0xff then [0xc7, word_of_nat n]
      else if n \<le> 0xffff then 0xc8 # put_be 2 (word_of_nat n :: 16 word)
      else 0xc9 # put_be 4 (word_of_nat n :: 32 word))"

definition check_payload :: "limits \<Rightarrow> bytes \<Rightarrow> bytes res" where
  "check_payload l bs =
     (if int (length bs) > lm_MaxBytes l then Inl (Wrapf ''%w: payload exceeds %d bytes'' ErrMalformedPayload) else Inr bs)"

lemma map_res_cong [fundef_cong]:
  "xs = ys \<Longrightarrow> (\<And>x. x \<in> set ys \<Longrightarrow> f x = g x) \<Longrightarrow> map_res f xs = map_res g ys"
  by (induction ys arbitrary: xs) auto

lemma size_map_value: "(k, v) \<in> set kvs \<Longrightarrow> size v \<le> size_list (size_prod (\<lambda>_. 0) size) kvs"
  by (induction kvs) auto

text \<open>
  \<^verbatim>\<open>msgpackEncoder.write\<close>; the entries of a map come in the order of \<^verbatim>\<open>sortedKeys\<close>. The payload of an extension is a
  message of its own, encoded from depth zero (\<^verbatim>\<open>marshalMessagePack\<close>).
\<close>

function enc_write :: "limits \<Rightarrow> int \<Rightarrow> wire \<Rightarrow> bytes res" where
  "enc_write l depth value =
     (if depth > lm_MaxDepth l then Inl (Wrapf ''%w: maximum MessagePack depth exceeded'' ErrMalformedPayload)
      else case value of
        WNil \<Rightarrow> Inr [0xc0]
      | WBool b \<Rightarrow> Inr [if b then 0xc3 else 0xc2]
      | WStr s \<Rightarrow> writeString l s
      | WBytes bs \<Rightarrow> writeBytes l bs
      | WInt v \<Rightarrow> Inr (writeInt v)
      | WUint v \<Rightarrow> Inr (writeUint v)
      | WFloat32 f \<Rightarrow> Inr (0xca # put_be 4 f)
      | WFloat64 f \<Rightarrow> Inr (0xcb # put_be 8 f)
      | WSlice vs \<Rightarrow>
          res_bind (writeLength l (length vs) 0x90 15 0xdc 0xdd) (\<lambda>h.
          res_bind (map_res (enc_write l (depth + 1)) vs) (\<lambda>items. Inr (h @ concat items)))
      | WMap kvs \<Rightarrow>
          res_bind (writeLength l (length kvs) 0x80 15 0xde 0xdf) (\<lambda>h.
          res_bind (map_res (\<lambda>(key, v).
              res_bind (writeString l key) (\<lambda>k. res_bind (enc_write l (depth + 1) v) (\<lambda>bs. Inr (k @ bs))))
            (sort_key fst kvs)) (\<lambda>items. Inr (h @ concat items)))
      | WExt code v \<Rightarrow>
          res_bind (res_bind (enc_write l 0 v) (check_payload l)) (\<lambda>payload.
            if int (length payload) > lm_MaxBytes l then Inl (Wrapf ''%w: extension payload too large'' ErrMalformedPayload)
            else Inr (writeExtensionLength (length payload) @ [code] @ payload))
      | WOther t \<Rightarrow> Inl (Wrapf ''%w: MessagePack value %T'' ErrUnsupportedType))"
  by pat_completeness auto
termination
  by (relation "measure (\<lambda>(l, depth, v). size v)")
    (auto simp: less_Suc_eq_le size_list_estimation' dest: size_map_value)

declare enc_write.simps [simp del]

definition marshalMessagePack :: "wire \<Rightarrow> limits \<Rightarrow> bytes res" where
  "marshalMessagePack value l = res_bind (enc_write l 0 value) (check_payload l)"

section \<open>Decoding\<close>

definition dec_take :: "limits \<Rightarrow> int \<Rightarrow> bytes \<Rightarrow> (bytes \<times> bytes) res" where
  "dec_take l n data =
     (if n < 0 \<or> n > lm_MaxBytes l \<or> n > int (length data)
      then Inl (Wrapf ''%w: truncated or oversized MessagePack value'' ErrMalformedPayload)
      else Inr (take (nat n) data, drop (nat n) data))"

definition dec_byte :: "limits \<Rightarrow> bytes \<Rightarrow> (8 word \<times> bytes) res" where
  "dec_byte l data = res_bind (dec_take l 1 data) (\<lambda>(d, rest). Inr (d ! 0, rest))"

definition dec_uint16 :: "limits \<Rightarrow> bytes \<Rightarrow> (16 word \<times> bytes) res" where
  "dec_uint16 l data = res_bind (dec_take l 2 data) (\<lambda>(d, rest). Inr (word_of_nat (get_be d), rest))"

definition dec_uint32 :: "limits \<Rightarrow> bytes \<Rightarrow> (32 word \<times> bytes) res" where
  "dec_uint32 l data = res_bind (dec_take l 4 data) (\<lambda>(d, rest). Inr (word_of_nat (get_be d), rest))"

definition dec_uint64 :: "limits \<Rightarrow> bytes \<Rightarrow> (64 word \<times> bytes) res" where
  "dec_uint64 l data = res_bind (dec_take l 8 data) (\<lambda>(d, rest). Inr (word_of_nat (get_be d), rest))"

definition dec_string :: "limits \<Rightarrow> int \<Rightarrow> bytes \<Rightarrow> (string \<times> bytes) res" where
  "dec_string l n data = res_bind (dec_take l n data) (\<lambda>(d, rest). Inr (string_of d, rest))"

definition dec_bytes :: "limits \<Rightarrow> int \<Rightarrow> bytes \<Rightarrow> (bytes \<times> bytes) res" where
  "dec_bytes l n data = res_bind (dec_take l n data) (\<lambda>(d, rest). Inr ([] @ d, rest))"

definition dec_collection :: "limits \<Rightarrow> int \<Rightarrow> unit res" where
  "dec_collection l n =
     (if n < 0 \<or> n > lm_MaxCollection l then Inl (Wrapf ''%w: collection length %d'' ErrMalformedPayload) else Inr ())"

text \<open>
  What the switch of \<^verbatim>\<open>msgpackDecoder.read\<close> decides from the code: a finished value, or the length with which it calls
  \<^verbatim>\<open>array\<close>, \<^verbatim>\<open>mapValue\<close> or \<^verbatim>\<open>extension\<close>.
\<close>

datatype head = HValue wire | HArray int | HMap int | HExt int

definition head_value :: "('a \<Rightarrow> wire) \<Rightarrow> ('a \<times> bytes) res \<Rightarrow> (head \<times> bytes) res" where
  "head_value f r = res_bind r (\<lambda>(v, rest). Inr (HValue (f v), rest))"

definition head_len :: "(int \<Rightarrow> head) \<Rightarrow> ('a::len word \<times> bytes) res \<Rightarrow> (head \<times> bytes) res" where
  "head_len f r = res_bind r (\<lambda>(n, rest). Inr (f (uint n), rest))"

definition read_head :: "limits \<Rightarrow> 8 word \<Rightarrow> bytes \<Rightarrow> (head \<times> bytes) res" where
  "read_head l code data =
     (if code \<le> 0x7f then Inr (HValue (WUint (ucast code)), data)
      else if code \<ge> 0xe0 then Inr (HValue (WInt (scast code)), data)
      else if and code 0xe0 = 0xa0 then head_value WStr (dec_string l (uint (and code 0x1f)) data)
      else if and code 0xf0 = 0x90 then Inr (HArray (uint (and code 0x0f)), data)
      else if and code 0xf0 = 0x80 then Inr (HMap (uint (and code 0x0f)), data)
      else if code = 0xc0 then Inr (HValue WNil, data)
      else if code = 0xc2 then Inr (HValue (WBool False), data)
      else if code = 0xc3 then Inr (HValue (WBool True), data)
      else if code = 0xc4 then res_bind (dec_byte l data) (\<lambda>(n, rest). head_value WBytes (dec_bytes l (uint n) rest))
      else if code = 0xc5 then res_bind (dec_uint16 l data) (\<lambda>(n, rest). head_value WBytes (dec_bytes l (uint n) rest))
      else if code = 0xc6 then res_bind (dec_uint32 l data) (\<lambda>(n, rest). head_value WBytes (dec_bytes l (uint n) rest))
      else if code = 0xca then head_value WFloat32 (dec_uint32 l data)
      else if code = 0xcb then head_value WFloat64 (dec_uint64 l data)
      else if code = 0xcc then head_value (\<lambda>v. WUint (ucast v)) (dec_byte l data)
      else if code = 0xcd then head_value (\<lambda>v. WUint (ucast v)) (dec_uint16 l data)
      else if code = 0xce then head_value (\<lambda>v. WUint (ucast v)) (dec_uint32 l data)
      else if code = 0xcf then head_value WUint (dec_uint64 l data)
      else if code = 0xd0 then head_value (\<lambda>v. WInt (scast v)) (dec_byte l data)
      else if code = 0xd1 then head_value (\<lambda>v. WInt (scast v)) (dec_uint16 l data)
      else if code = 0xd2 then head_value (\<lambda>v. WInt (scast v)) (dec_uint32 l data)
      else if code = 0xd3 then head_value WInt (dec_uint64 l data)
      else if code = 0xd9 then res_bind (dec_byte l data) (\<lambda>(n, rest). head_value WStr (dec_string l (uint n) rest))
      else if code = 0xda then res_bind (dec_uint16 l data) (\<lambda>(n, rest). head_value WStr (dec_string l (uint n) rest))
      else if code = 0xdb then res_bind (dec_uint32 l data) (\<lambda>(n, rest). head_value WStr (dec_string l (uint n) rest))
      else if code = 0xdc then head_len HArray (dec_uint16 l data)
      else if code = 0xdd then head_len HArray (dec_uint32 l data)
      else if code = 0xde then head_len HMap (dec_uint16 l data)
      else if code = 0xdf then head_len HMap (dec_uint32 l data)
      else if code = 0xd4 then Inr (HExt 1, data)
      else if code = 0xd5 then Inr (HExt 2, data)
      else if code = 0xd6 then Inr (HExt 4, data)
      else if code = 0xd7 then Inr (HExt 8, data)
      else if code = 0xd8 then Inr (HExt 16, data)
      else if code = 0xc7 then head_len HExt (dec_byte l data)
      else if code = 0xc8 then head_len HExt (dec_uint16 l data)
      else if code = 0xc9 then head_len HExt (dec_uint32 l data)
      else Inl (Wrapf ''%w: MessagePack code 0x%x'' ErrUnsupportedEncoding))"

definition DeltaSnapshotExtension :: "8 word" where
  "DeltaSnapshotExtension = 7"

definition key_string :: "wire \<Rightarrow> string res" where
  "key_string key =
     (case key of WStr s \<Rightarrow> Inr s | _ \<Rightarrow> Inl (Wrapf ''%w: non-string map key %T'' ErrUnsupportedEncoding))"

text \<open>The code and the payload bytes of an extension; the payload is decoded by \<^verbatim>\<open>unmarshalMessagePack\<close>, that is, by \<^verbatim>\<open>read\<close>.\<close>

definition dec_extension :: "limits \<Rightarrow> int \<Rightarrow> bytes \<Rightarrow> (8 word \<times> bytes \<times> bytes) res" where
  "dec_extension l n data =
     res_bind (dec_byte l data) (\<lambda>(code, r).
     res_bind (dec_take l n r) (\<lambda>(payload, rest).
       if code \<noteq> DeltaSnapshotExtension then Inl (Wrapf ''%w: MessagePack extension %d'' ErrUnsupportedEncoding)
       else Inr (code, payload, rest)))"

definition all_consumed :: "wire \<times> bytes \<Rightarrow> wire res" where
  "all_consumed vr =
     (if snd vr \<noteq> [] then Inl (Wrapf ''%w: trailing MessagePack data'' ErrMalformedPayload) else Inr (fst vr))"

text \<open>
  \<^verbatim>\<open>read\<close> with \<^verbatim>\<open>array\<close>, \<^verbatim>\<open>mapValue\<close>, \<^verbatim>\<open>extension\<close> and \<^verbatim>\<open>unmarshalMessagePack\<close> of the extension's payload. A map is built
  by assignment, so a repeated key keeps its last value.
\<close>

function (sequential) dec_read :: "limits \<Rightarrow> int \<Rightarrow> bytes \<Rightarrow> (wire \<times> bytes) res"
  and read_items :: "limits \<Rightarrow> int \<Rightarrow> nat \<Rightarrow> bytes \<Rightarrow> (wire list \<times> bytes) res"
  and read_pairs :: "limits \<Rightarrow> int \<Rightarrow> nat \<Rightarrow> (string \<times> wire) list \<Rightarrow> bytes \<Rightarrow> ((string \<times> wire) list \<times> bytes) res"
where
  "dec_read l depth data =
     (if depth > lm_MaxDepth l then Inl (Wrapf ''%w: maximum MessagePack depth exceeded'' ErrMalformedPayload)
      else res_bind (dec_byte l data) (\<lambda>(code, rest).
        res_bind (read_head l code rest) (\<lambda>(h, rest').
          case h of
            HValue v \<Rightarrow> Inr (v, rest')
          | HArray n \<Rightarrow>
              res_bind (dec_collection l n) (\<lambda>_.
              res_bind (read_items l depth (nat n) rest') (\<lambda>(vs, r). Inr (WSlice vs, r)))
          | HMap n \<Rightarrow>
              res_bind (dec_collection l n) (\<lambda>_.
              res_bind (read_pairs l depth (nat n) [] rest') (\<lambda>(kvs, r). Inr (WMap kvs, r)))
          | HExt n \<Rightarrow>
              res_bind (dec_extension l n rest') (\<lambda>(ext, payload, r).
              res_bind (res_bind (dec_read l 0 payload) all_consumed) (\<lambda>v. Inr (WExt ext v, r))))))"
| "read_items l depth 0 data = Inr ([], data)"
| "read_items l depth (Suc n) data =
     res_bind (dec_read l (depth + 1) data) (\<lambda>(v, rest).
     res_bind (read_items l depth n rest) (\<lambda>(vs, r). Inr (v # vs, r)))"
| "read_pairs l depth 0 kvs data = Inr (kvs, data)"
| "read_pairs l depth (Suc n) kvs data =
     res_bind (dec_read l (depth + 1) data) (\<lambda>(key, rest).
     res_bind (key_string key) (\<lambda>k.
     res_bind (dec_read l (depth + 1) rest) (\<lambda>(v, rest').
       read_pairs l depth n (dput k v kvs) rest')))"
  by pat_completeness auto

lemma dec_take_length: "dec_take l n data = Inr (d, rest) \<Longrightarrow> length data = length d + length rest"
  by (auto simp: dec_take_def split: if_splits)

lemma dec_byte_length: "dec_byte l data = Inr (b, rest) \<Longrightarrow> length rest < length data"
  by (auto simp: dec_byte_def dec_take_def res_simps split: if_splits prod.splits)

lemma dec_words_length:
  "dec_uint16 l data = Inr (w, rest) \<Longrightarrow> length rest \<le> length data"
  "dec_uint32 l data = Inr (w', rest) \<Longrightarrow> length rest \<le> length data"
  "dec_uint64 l data = Inr (w'', rest) \<Longrightarrow> length rest \<le> length data"
  "dec_string l n data = Inr (s, rest) \<Longrightarrow> length rest \<le> length data"
  "dec_bytes l n data = Inr (bs, rest) \<Longrightarrow> length rest \<le> length data"
  by (auto simp: dec_uint16_def dec_uint32_def dec_uint64_def dec_string_def dec_bytes_def res_simps
      dest!: dec_take_length)

lemma read_head_length: "read_head l code data = Inr (h, rest) \<Longrightarrow> length rest \<le> length data"
  by (auto simp: read_head_def head_value_def head_len_def res_simps split: if_splits
      dest!: dec_byte_length dec_words_length)

lemma dec_extension_length:
  "dec_extension l n data = Inr (code, payload, rest) \<Longrightarrow> length payload + length rest < length data"
  by (auto simp: dec_extension_def res_simps split: if_splits dest!: dec_byte_length dec_take_length)

lemma dec_shrinks_partial:
  "dec_read_read_items_read_pairs_dom (Inl (l, depth, data)) \<Longrightarrow>
     \<forall>v r. dec_read l depth data = Inr (v, r) \<longrightarrow> length r < length data"
  "dec_read_read_items_read_pairs_dom (Inr (Inl (l, depth, n, data))) \<Longrightarrow>
     \<forall>vs r. read_items l depth n data = Inr (vs, r) \<longrightarrow> length r \<le> length data"
  "dec_read_read_items_read_pairs_dom (Inr (Inr (l, depth, n, kvs, data))) \<Longrightarrow>
     \<forall>kvs' r. read_pairs l depth n kvs data = Inr (kvs', r) \<longrightarrow> length r \<le> length data"
proof (induct rule: dec_read_read_items_read_pairs.pinduct)
  case (1 l depth data)
  show ?case
  proof (intro allI impI)
    fix v r assume run: "dec_read l depth data = Inr (v, r)"
    from run 1(1) obtain code rest h rest' where
      h: "\<not> lm_MaxDepth l < depth" "dec_byte l data = Inr (code, rest)" "read_head l code rest = Inr (h, rest')"
      by (auto simp: dec_read.psimps res_simps split: if_splits)
    then have len: "length rest' < length data" by (fastforce dest: dec_byte_length read_head_length)
    from run 1(1) h have "length r \<le> length rest'"
    proof (cases h)
      case (HArray n)
      with run 1(1) h obtain vs where "read_items l depth (nat n) rest' = Inr (vs, r)"
        by (auto simp: dec_read.psimps res_simps)
      with 1(2) [of "(code, rest)" code rest "(h, rest')" h rest'] h HArray run 1(1) show ?thesis
        by (auto simp: dec_read.psimps res_simps)
    next
      case (HMap n)
      with run 1(1) h obtain vs where "read_pairs l depth (nat n) [] rest' = Inr (vs, r)"
        by (auto simp: dec_read.psimps res_simps)
      with 1(3) [of "(code, rest)" code rest "(h, rest')" h rest'] h HMap run 1(1) show ?thesis
        by (auto simp: dec_read.psimps res_simps)
    next
      case (HExt n)
      with run 1(1) h show ?thesis
        by (auto simp: dec_read.psimps res_simps dest!: dec_extension_length)
    qed (auto simp: dec_read.psimps)
    with len show "length r < length data" by simp
  qed
next
  case (2 l depth data)
  then show ?case by (simp add: read_items.psimps)
next
  case (3 l depth n data)
  then show ?case by (fastforce simp: read_items.psimps res_simps)
next
  case (4 l depth kvs data)
  then show ?case by (simp add: read_pairs.psimps)
next
  case (5 l depth n kvs data)
  then show ?case by (fastforce simp: read_pairs.psimps res_simps)
qed

termination dec_read
proof (relation "measures [\<lambda>x. case x of Inl (l, depth, data) \<Rightarrow> length data
      | Inr (Inl (l, depth, n, data)) \<Rightarrow> length data | Inr (Inr (l, depth, n, kvs, data)) \<Rightarrow> length data,
    \<lambda>x. case x of Inl _ \<Rightarrow> 0 | _ \<Rightarrow> 1,
    \<lambda>x. case x of Inl _ \<Rightarrow> 0 | Inr (Inl (l, depth, n, data)) \<Rightarrow> n | Inr (Inr (l, depth, n, kvs, data)) \<Rightarrow> n]", goal_cases)
qed (auto dest!: dec_byte_length read_head_length dec_extension_length dest: dec_shrinks_partial,
    fastforce dest: dec_shrinks_partial(1))

declare dec_read.simps [simp del]

definition unmarshalMessagePack :: "bytes \<Rightarrow> limits \<Rightarrow> wire res" where
  "unmarshalMessagePack data l = res_bind (dec_read l 0 data) all_consumed"

section \<open>Round trips of the parts\<close>

lemma unat_ucast_small: "unat v < 2 ^ LENGTH('b) \<Longrightarrow> unat (ucast (v :: 'a::len word) :: 'b::len word) = unat v"
  by (simp add: unsigned_ucast_eq take_bit_nat_eq_self)

lemma ucast_back: "unat v < 2 ^ LENGTH('b) \<Longrightarrow> ucast (ucast (v :: 64 word) :: 'b::len word) = v"
  by (metis unat_ucast_small ucast_id word_unat_eq_iff unsigned_ucast_eq unsigned_take_bit_eq take_bit_nat_eq_self)

lemma scast_back:
  assumes "- (2 ^ (LENGTH('b) - 1)) \<le> sint v" and "sint v < 2 ^ (LENGTH('b) - 1)" and "LENGTH('b) \<le> 64"
  shows "scast (ucast (v :: 64 word) :: 'b::len word) = v"
proof -
  have "sint v = signed_take_bit 63 (uint v)" by (simp add: sint_uint)
  then have "signed_take_bit (LENGTH('b) - 1) (uint v) = signed_take_bit (LENGTH('b) - 1) (sint v)"
    using assms(3) by (simp add: min_absorb1 le_diff_conv)
  also have "\<dots> = sint v" using assms(1,2) by (intro signed_take_bit_int_eq_self) auto
  finally have s: "sint (ucast v :: 'b word) = sint v" by (simp add: signed_ucast_eq)
  have "sint (scast (ucast v :: 'b word) :: 64 word) = sint (ucast v :: 'b word)"
    using assms(3) by (intro sint_up_scast) (simp add: is_up)
  with s show ?thesis by (metis signed_word_eqI)
qed

lemma string_of_bytes_of [simp]: "string_of (bytes_of s) = s"
proof -
  have "char_of (unat (of_char c :: 8 word)) = c" for c
  proof -
    have "(of_char c :: 8 word) = word_of_nat (of_char c)" by (simp add: of_nat_of_char)
    then have "unat (of_char c :: 8 word) = of_char c" by (simp add: unsigned_of_nat take_bit_nat_eq_self)
    then show ?thesis by simp
  qed
  then show ?thesis by (simp add: string_of_def bytes_of_def comp_def map_idI)
qed

lemma length_bytes_of [simp]: "length (bytes_of s) = length s"
  by (simp add: bytes_of_def)

lemma length_put_be [simp]: "length (put_be k w) = k"
  by (simp add: put_be_def)

lemma get_be_bytes: "n < 256 ^ k \<Longrightarrow> get_be (map word_of_nat (be_bytes k n)) = n"
proof (induction k arbitrary: n)
  case (Suc k)
  then have "n div 256 < 256 ^ k" by (simp add: less_mult_imp_div_less)
  moreover have "unat (word_of_nat (n mod 256) :: 8 word) = n mod 256"
    by (simp add: unsigned_of_nat take_bit_nat_eq_self)
  ultimately show ?case using Suc.IH [of "n div 256"] by (simp add: get_be_def)
qed (simp add: get_be_def)

lemma dec_take_append [simp]:
  "int (length d) \<le> lm_MaxBytes l \<Longrightarrow> n = int (length d) \<Longrightarrow> dec_take l n (d @ rest) = Inr (d, rest)"
  by (simp add: dec_take_def)

lemma dec_byte_Cons [simp]: "1 \<le> lm_MaxBytes l \<Longrightarrow> dec_byte l (b # rest) = Inr (b, rest)"
  by (simp add: dec_byte_def dec_take_def)

lemma dec_put_be [simp]:
  "2 \<le> lm_MaxBytes l \<Longrightarrow> dec_uint16 l (put_be 2 v16 @ rest) = Inr (v16, rest)"
  "4 \<le> lm_MaxBytes l \<Longrightarrow> dec_uint32 l (put_be 4 v32 @ rest) = Inr (v32, rest)"
  "8 \<le> lm_MaxBytes l \<Longrightarrow> dec_uint64 l (put_be 8 v64 @ rest) = Inr (v64, rest)"
proof -
  have "unat v16 < 256 ^ 2" using unsigned_less [of v16] by simp
  then show "2 \<le> lm_MaxBytes l \<Longrightarrow> dec_uint16 l (put_be 2 v16 @ rest) = Inr (v16, rest)"
    by (simp add: dec_uint16_def) (simp add: put_be_def get_be_bytes)
  have "unat v32 < 256 ^ 4" using unsigned_less [of v32] by simp
  then show "4 \<le> lm_MaxBytes l \<Longrightarrow> dec_uint32 l (put_be 4 v32 @ rest) = Inr (v32, rest)"
    by (simp add: dec_uint32_def) (simp add: put_be_def get_be_bytes)
  have "unat v64 < 256 ^ 8" using unsigned_less [of v64] by simp
  then show "8 \<le> lm_MaxBytes l \<Longrightarrow> dec_uint64 l (put_be 8 v64 @ rest) = Inr (v64, rest)"
    by (simp add: dec_uint64_def) (simp add: put_be_def get_be_bytes)
qed

text \<open>The encodings start with a code from which the decoder finds the rest.\<close>

definition heads :: "limits \<Rightarrow> bytes \<Rightarrow> head \<Rightarrow> bool" where
  "heads l bs h \<longleftrightarrow> bs \<noteq> [] \<and> (\<forall>rest. read_head l (hd bs) (tl bs @ rest) = Inr (h, rest))"

lemma unat_le_hex:
  "(v :: 64 word) \<le> 0x7f \<longleftrightarrow> unat v \<le> 0x7f"
  "(v :: 64 word) \<le> 0xff \<longleftrightarrow> unat v \<le> 0xff"
  "(v :: 64 word) \<le> 0xffff \<longleftrightarrow> unat v \<le> 0xffff"
  "(v :: 64 word) \<le> 0xffffffff \<longleftrightarrow> unat v \<le> 0xffffffff"
  by (simp_all add: word_le_nat_alt)

lemma heads_uint:
  assumes "int (length (writeUint v)) \<le> lm_MaxBytes l"
  shows "heads l (writeUint v) (HValue (WUint v))"
proof -
  have a: "(ucast v :: 8 word) \<le> 0x7f" if "unat v \<le> 0x7f"
    using that by (simp add: word_le_nat_alt unat_ucast_small)
  show ?thesis
    using assms a ucast_back [of v, where 'b = 8] ucast_back [of v, where 'b = 16] ucast_back [of v, where 'b = 32]
    by (auto simp: heads_def writeUint_def unat_le_hex read_head_def head_value_def split: if_splits)
qed

lemma is_up_8_64: "is_up (scast :: 8 word \<Rightarrow> 64 word)"
  by (simp add: is_up)

lemma small_negative: "- 32 \<le> sint (b :: 8 word) \<Longrightarrow> sint b < 0 \<Longrightarrow> 0xe0 \<le> b"
proof -
  have "list_all (\<lambda>n. - 32 \<le> sint (word_of_nat n :: 8 word) \<longrightarrow> sint (word_of_nat n :: 8 word) < 0 \<longrightarrow>
      0xe0 \<le> (word_of_nat n :: 8 word)) [0..<256]" by code_simp
  moreover have "unat b < 256" using unsigned_less [of b] by simp
  ultimately have "- 32 \<le> sint (word_of_nat (unat b) :: 8 word) \<longrightarrow> sint (word_of_nat (unat b) :: 8 word) < 0 \<longrightarrow>
      0xe0 \<le> (word_of_nat (unat b) :: 8 word)" unfolding list_all_iff by (metis atLeastLessThan_iff atLeastLessThan_upt zero_le)
  then show "- 32 \<le> sint b \<Longrightarrow> sint b < 0 \<Longrightarrow> 0xe0 \<le> b" by simp
qed

lemma heads_int:
  assumes "int (length (writeInt v)) \<le> lm_MaxBytes l"
  shows "heads l (writeInt v) (HValue (if sint v \<ge> 0 then WUint v else WInt v))"
proof (cases "sint v \<ge> 0")
  case True
  with assms heads_uint [of v l] show ?thesis by (simp add: writeInt_def)
next
  case neg: False
  show ?thesis
  proof (cases "sint v \<ge> - 32")
    case True
    have v: "scast (ucast v :: 8 word) = v" using neg True by (intro scast_back) auto
    have "sint (ucast v :: 8 word) = sint v"
      using v by (metis sint_up_scast is_up_8_64)
    with neg True have "(ucast v :: 8 word) \<ge> 0xe0" by (intro small_negative) auto
    moreover from this have "\<not> (ucast v :: 8 word) \<le> 0x7f" by (auto dest: order_trans)
    ultimately show ?thesis using neg True v by (simp add: heads_def writeInt_def read_head_def)
  next
    case False
    with neg assms scast_back [of v, where 'b = 8] scast_back [of v, where 'b = 16] scast_back [of v, where 'b = 32]
    show ?thesis by (auto simp: heads_def writeInt_def read_head_def head_value_def split: if_splits)
  qed
qed

lemma fix_codes:
  "n \<le> 31 \<Longrightarrow> (let c = or 0xa0 (word_of_nat n) :: 8 word
     in \<not> c \<le> 0x7f \<and> \<not> c \<ge> 0xe0 \<and> and c 0xe0 = 0xa0 \<and> uint (and c 0x1f) = int n)"
  "n \<le> 15 \<Longrightarrow> (let c = or 0x90 (word_of_nat n) :: 8 word
     in \<not> c \<le> 0x7f \<and> \<not> c \<ge> 0xe0 \<and> and c 0xe0 \<noteq> 0xa0 \<and> and c 0xf0 = 0x90 \<and> uint (and c 0x0f) = int n)"
  "n \<le> 15 \<Longrightarrow> (let c = or 0x80 (word_of_nat n) :: 8 word
     in \<not> c \<le> 0x7f \<and> \<not> c \<ge> 0xe0 \<and> and c 0xe0 \<noteq> 0xa0 \<and> and c 0xf0 \<noteq> 0x90 \<and> and c 0xf0 = 0x80 \<and>
        uint (and c 0x0f) = int n)"
proof -
  have "list_all (\<lambda>n. let c = or 0xa0 (word_of_nat n) :: 8 word
     in \<not> c \<le> 0x7f \<and> \<not> c \<ge> 0xe0 \<and> and c 0xe0 = 0xa0 \<and> uint (and c 0x1f) = int n) [0..<32]" by code_simp
  then show "n \<le> 31 \<Longrightarrow> (let c = or 0xa0 (word_of_nat n) :: 8 word
     in \<not> c \<le> 0x7f \<and> \<not> c \<ge> 0xe0 \<and> and c 0xe0 = 0xa0 \<and> uint (and c 0x1f) = int n)"
    unfolding list_all_iff by simp
  have "list_all (\<lambda>n. let c = or 0x90 (word_of_nat n) :: 8 word
     in \<not> c \<le> 0x7f \<and> \<not> c \<ge> 0xe0 \<and> and c 0xe0 \<noteq> 0xa0 \<and> and c 0xf0 = 0x90 \<and> uint (and c 0x0f) = int n) [0..<16]"
    by code_simp
  then show "n \<le> 15 \<Longrightarrow> (let c = or 0x90 (word_of_nat n) :: 8 word
     in \<not> c \<le> 0x7f \<and> \<not> c \<ge> 0xe0 \<and> and c 0xe0 \<noteq> 0xa0 \<and> and c 0xf0 = 0x90 \<and> uint (and c 0x0f) = int n)"
    unfolding list_all_iff by simp
  have "list_all (\<lambda>n. let c = or 0x80 (word_of_nat n) :: 8 word
     in \<not> c \<le> 0x7f \<and> \<not> c \<ge> 0xe0 \<and> and c 0xe0 \<noteq> 0xa0 \<and> and c 0xf0 \<noteq> 0x90 \<and> and c 0xf0 = 0x80 \<and>
        uint (and c 0x0f) = int n) [0..<16]" by code_simp
  then show "n \<le> 15 \<Longrightarrow> (let c = or 0x80 (word_of_nat n) :: 8 word
     in \<not> c \<le> 0x7f \<and> \<not> c \<ge> 0xe0 \<and> and c 0xe0 \<noteq> 0xa0 \<and> and c 0xf0 \<noteq> 0x90 \<and> and c 0xf0 = 0x80 \<and>
        uint (and c 0x0f) = int n)"
    unfolding list_all_iff by simp
qed

definition sane :: "limits \<Rightarrow> bool" where
  "sane l \<longleftrightarrow> lm_MaxBytes l < 2 ^ 32 \<and> lm_MaxCollection l < 2 ^ 32"

lemma read_head_fix:
  "n \<le> 31 \<Longrightarrow> read_head l (or 0xa0 (word_of_nat n)) data = head_value WStr (dec_string l (int n) data)"
  "n \<le> 15 \<Longrightarrow> read_head l (or 0x90 (word_of_nat n)) data = Inr (HArray (int n), data)"
  "n \<le> 15 \<Longrightarrow> read_head l (or 0x80 (word_of_nat n)) data = Inr (HMap (int n), data)"
  using fix_codes by (simp_all add: read_head_def Let_def)

lemma uint_length [simp]:
  "n \<le> 0xff \<Longrightarrow> uint (word_of_nat n :: 8 word) = int n"
  "n \<le> 0xffff \<Longrightarrow> uint (word_of_nat n :: 16 word) = int n"
  "n < 2 ^ 32 \<Longrightarrow> uint (word_of_nat n :: 32 word) = int n"
  by (simp_all add: unsigned_of_nat take_bit_nat_eq_self)

lemma dec_string_append [simp]:
  "int (length s) \<le> lm_MaxBytes l \<Longrightarrow> dec_string l (int (length s)) (bytes_of s @ rest) = Inr (s, rest)"
  by (simp add: dec_string_def)

lemma dec_bytes_append [simp]:
  "int (length bs) \<le> lm_MaxBytes l \<Longrightarrow> dec_bytes l (int (length bs)) (bs @ rest) = Inr (bs, rest)"
  by (simp add: dec_bytes_def)

lemma heads_string:
  assumes "writeString l s = Inr bs" and "sane l" and "int (length bs) \<le> lm_MaxBytes l"
  shows "heads l bs (HValue (WStr s))"
proof -
  have n: "length s < 4294967296" using assms by (auto simp: writeString_def sane_def Let_def split: if_splits)
  consider "length s \<le> 31" | "31 < length s" "length s \<le> 0xff" | "0xff < length s" "length s \<le> 0xffff" | "0xffff < length s"
    by linarith
  then show ?thesis
  proof cases
    case 1
    with assms show ?thesis
      by (auto simp: heads_def writeString_def read_head_fix head_value_def Let_def split: if_splits)
  qed (use n assms in \<open>auto simp: heads_def writeString_def read_head_def head_value_def Let_def split: if_splits\<close>)
qed

lemma heads_bytes:
  assumes "writeBytes l s = Inr bs" and "sane l" and "int (length bs) \<le> lm_MaxBytes l"
  shows "heads l bs (HValue (WBytes s))"
proof -
  have "length s < 4294967296" using assms by (auto simp: writeBytes_def sane_def Let_def split: if_splits)
  with assms show ?thesis
    by (auto simp: heads_def writeBytes_def read_head_def head_value_def Let_def split: if_splits)
qed

lemma heads_array:
  assumes "writeLength l n 0x90 15 0xdc 0xdd = Inr bs" and "sane l" and "int (length bs) \<le> lm_MaxBytes l"
  shows "heads l bs (HArray (int n))"
proof (cases "n \<le> 15")
  case False
  have "n < 4294967296" using assms by (auto simp: writeLength_def sane_def split: if_splits)
  with assms False show ?thesis by (auto simp: heads_def writeLength_def read_head_def head_len_def split: if_splits)
qed (use assms in \<open>auto simp: heads_def writeLength_def read_head_fix split: if_splits\<close>)

lemma heads_map:
  assumes "writeLength l n 0x80 15 0xde 0xdf = Inr bs" and "sane l" and "int (length bs) \<le> lm_MaxBytes l"
  shows "heads l bs (HMap (int n))"
proof (cases "n \<le> 15")
  case False
  have "n < 4294967296" using assms by (auto simp: writeLength_def sane_def split: if_splits)
  with assms False show ?thesis by (auto simp: heads_def writeLength_def read_head_def head_len_def split: if_splits)
qed (use assms in \<open>auto simp: heads_def writeLength_def read_head_fix split: if_splits\<close>)

lemma heads_ext:
  assumes "n < 2 ^ 32" and "int (length (writeExtensionLength n)) \<le> lm_MaxBytes l"
  shows "heads l (writeExtensionLength n) (HExt (int n))"
  using assms by (auto simp: heads_def writeExtensionLength_def read_head_def head_len_def split: if_splits)

section \<open>Encoding and decoding\<close>

text \<open>
  The values the encoder is given: Go maps have distinct keys, and the only extension is that of a delta snapshot. What is
  read back is the value up to the types of integers (a non-negative integer is read as \<^verbatim>\<open>uint64\<close>, a negative one as
  \<^verbatim>\<open>int64\<close>) and the order of map entries.
\<close>

fun wire_ok :: "wire \<Rightarrow> bool" where
  "wire_ok (WSlice vs) = list_all wire_ok vs"
| "wire_ok (WMap kvs) = (distinct (dkeys kvs) \<and> list_all (\<lambda>(k, v). wire_ok v) kvs)"
| "wire_ok (WExt code v) = (code = DeltaSnapshotExtension \<and> wire_ok v)"
| "wire_ok v = True"

fun canon :: "wire \<Rightarrow> wire" where
  "canon (WInt v) = (if sint v \<ge> 0 then WUint v else WInt v)"
| "canon (WSlice vs) = WSlice (map canon vs)"
| "canon (WMap kvs) = WMap (sort_key fst (map (\<lambda>(k, v). (k, canon v)) kvs))"
| "canon (WExt code v) = WExt code (canon v)"
| "canon v = v"

lemma insort_key_map_snd:
  "insort_key fst (k, f v) (map (\<lambda>(k, v). (k, f v)) xs) = map (\<lambda>(k, v). (k, f v)) (insort_key fst (k, v) xs)"
  by (induction xs) auto

lemma sort_key_map_snd:
  "sort_key fst (map (\<lambda>(k, v). (k, f v)) kvs) = map (\<lambda>(k, v). (k, f v)) (sort_key fst kvs)"
  by (induction kvs) (auto simp: insort_key_map_snd)

lemma distinct_keys_sort: "distinct (dkeys (sort_key fst kvs)) \<longleftrightarrow> distinct (dkeys kvs)"
proof -
  have "mset (dkeys (sort_key fst kvs)) = mset (dkeys kvs)" by simp
  then show ?thesis by (rule mset_eq_imp_distinct_iff)
qed

lemma dput_new: "k \<notin> set (dkeys d) \<Longrightarrow> dput k v d = d @ [(k, v)]"
  by (induction d) auto

lemma dec_read_heads:
  assumes "heads l hbs h" and "depth \<le> lm_MaxDepth l" and "1 \<le> lm_MaxBytes l"
  shows "dec_read l depth (hbs @ rest) =
    (case h of
       HValue v \<Rightarrow> Inr (v, rest)
     | HArray n \<Rightarrow>
         res_bind (dec_collection l n) (\<lambda>_.
         res_bind (read_items l depth (nat n) rest) (\<lambda>(vs, r). Inr (WSlice vs, r)))
     | HMap n \<Rightarrow>
         res_bind (dec_collection l n) (\<lambda>_.
         res_bind (read_pairs l depth (nat n) [] rest) (\<lambda>(kvs, r). Inr (WMap kvs, r)))
     | HExt n \<Rightarrow>
         res_bind (dec_extension l n rest) (\<lambda>(ext, payload, r).
         res_bind (res_bind (dec_read l 0 payload) all_consumed) (\<lambda>v. Inr (WExt ext v, r))))"
proof -
  from assms(1) obtain c t where "hbs = c # t" and "read_head l c (t @ rest) = Inr (h, rest)"
    by (cases hbs) (auto simp: heads_def)
  with assms(2,3) show ?thesis by (simp add: dec_read.simps [of l depth])
qed

text \<open>A value whose encoding is read back whatever follows it.\<close>

definition reads_back :: "limits \<Rightarrow> int \<Rightarrow> bytes \<Rightarrow> wire \<Rightarrow> bool" where
  "reads_back l depth bs v \<longleftrightarrow> (\<forall>rest. dec_read l depth (bs @ rest) = Inr (v, rest))"

lemma heads_room: "heads l bs h \<Longrightarrow> int (length bs) \<le> lm_MaxBytes l \<Longrightarrow> 1 \<le> lm_MaxBytes l"
  by (cases bs) (auto simp: heads_def)

lemma reads_back_value:
  "heads l bs (HValue v) \<Longrightarrow> depth \<le> lm_MaxDepth l \<Longrightarrow> int (length bs) \<le> lm_MaxBytes l \<Longrightarrow> reads_back l depth bs v"
  by (simp add: reads_back_def dec_read_heads [OF _ _ heads_room])

lemma read_items_back:
  "list_all2 (reads_back l (depth + 1)) items vs \<Longrightarrow>
   read_items l depth (length vs) (concat items @ rest) = Inr (vs, rest)"
proof (induction rule: list_all2_induct)
  case (Cons b items v vs)
  then show ?case by (simp add: reads_back_def)
qed simp

lemma read_pairs_back:
  assumes "list_all2 (\<lambda>b kv. \<exists>kb vb. b = kb @ vb \<and> reads_back l (depth + 1) kb (WStr (fst kv)) \<and>
      reads_back l (depth + 1) vb (snd kv)) items kvs"
    and "distinct (dkeys (acc @ kvs))"
  shows "read_pairs l depth (length kvs) acc (concat items @ rest) = Inr (acc @ kvs, rest)"
  using assms
proof (induction arbitrary: acc rule: list_all2_induct)
  case (Cons b items kv kvs)
  obtain k v where kv: "kv = (k, v)" by fastforce
  with Cons.hyps obtain kb vb where "b = kb @ vb" "reads_back l (depth + 1) kb (WStr k)" "reads_back l (depth + 1) vb v"
    by auto
  moreover have "dput k v acc = acc @ [kv]" using Cons.prems kv by (intro dput_new [of k acc v, folded kv]) auto
  ultimately show ?case using Cons.IH [of "acc @ [kv]"] Cons.prems kv by (simp add: reads_back_def key_string_def)
qed simp

lemma length_concat_mem: "b \<in> set items \<Longrightarrow> length b \<le> length (concat items)"
  by (induction items) auto

lemma enc_write_depth: "enc_write l depth v = Inr bs \<Longrightarrow> depth \<le> lm_MaxDepth l"
  by (simp add: enc_write.simps [of l depth] split: if_splits)

lemma enc_write_slice:
  assumes "enc_write l depth (WSlice vs) = Inr bs" and "sane l" and "int (length bs) \<le> lm_MaxBytes l"
    and rb: "\<And>v b. v \<in> set vs \<Longrightarrow> enc_write l (depth + 1) v = Inr b \<Longrightarrow> int (length b) \<le> lm_MaxBytes l \<Longrightarrow>
      reads_back l (depth + 1) b (canon v)"
  shows "reads_back l depth bs (canon (WSlice vs))"
proof -
  from assms(1) obtain h items where h: "writeLength l (length vs) 0x90 15 0xdc 0xdd = Inr h"
    and items: "map_res (enc_write l (depth + 1)) vs = Inr items" and bs: "bs = h @ concat items"
    by (auto simp: enc_write.simps [of l depth] res_simps split: if_splits)
  have "list_all2 (\<lambda>v b. enc_write l (depth + 1) v = Inr b) vs items" using items by (simp add: map_res_Inr_conv)
  moreover have "int (length b) \<le> lm_MaxBytes l" if "b \<in> set items" for b
    using length_concat_mem [OF that] assms(3) bs by simp
  ultimately have "list_all2 (reads_back l (depth + 1)) items (map canon vs)"
    using rb by (auto simp: list_all2_conv_all_nth)
  from read_items_back [OF this]
  have it: "read_items l depth (length vs) (concat items @ rest) = Inr (map canon vs, rest)" for rest by simp
  have hh: "heads l h (HArray (int (length vs)))" using h assms(2,3) bs by (intro heads_array) auto
  then have one: "1 \<le> lm_MaxBytes l" using assms(3) bs by (intro heads_room [of l h]) auto
  have "dec_collection l (int (length vs)) = Inr ()"
    using h by (simp add: dec_collection_def writeLength_def split: if_splits)
  with it show ?thesis by (simp add: reads_back_def bs dec_read_heads [OF hh enc_write_depth [OF assms(1)] one])
qed

lemma enc_write_map:
  assumes "enc_write l depth (WMap kvs) = Inr bs" and "sane l" and "int (length bs) \<le> lm_MaxBytes l"
    and "distinct (dkeys kvs)"
    and rb: "\<And>k v b. (k, v) \<in> set kvs \<Longrightarrow> enc_write l (depth + 1) v = Inr b \<Longrightarrow> int (length b) \<le> lm_MaxBytes l \<Longrightarrow>
      reads_back l (depth + 1) b (canon v)"
  shows "reads_back l depth bs (canon (WMap kvs))"
proof -
  let ?f = "\<lambda>(key, v). res_bind (writeString l key) (\<lambda>k. res_bind (enc_write l (depth + 1) v) (\<lambda>bs. Inr (k @ bs)))"
  let ?s = "sort_key fst kvs"
  let ?c = "map (\<lambda>(k, v). (k, canon v)) ?s"
  from assms(1) obtain h items where h: "writeLength l (length kvs) 0x80 15 0xde 0xdf = Inr h"
    and items: "map_res ?f ?s = Inr items" and bs: "bs = h @ concat items"
    by (auto simp: enc_write.simps [of l depth] res_simps split: if_splits)
  have pair: "\<exists>kb vb. b = kb @ vb \<and> reads_back l (depth + 1) kb (WStr k) \<and> reads_back l (depth + 1) vb (canon v)"
    if kv: "(k, v) \<in> set kvs" and f: "?f (k, v) = Inr b" and b: "int (length b) \<le> lm_MaxBytes l" for k v b
  proof -
    from f obtain kb vb where parts: "writeString l k = Inr kb" "enc_write l (depth + 1) v = Inr vb" "b = kb @ vb"
      by (auto simp: res_simps)
    moreover have "reads_back l (depth + 1) kb (WStr k)"
      using parts b assms(2) enc_write_depth by (intro reads_back_value heads_string) auto
    moreover have "reads_back l (depth + 1) vb (canon v)" using rb [OF kv parts(2)] b parts(3) by simp
    ultimately show ?thesis by blast
  qed
  have fs: "list_all2 (\<lambda>kv b. ?f kv = Inr b) ?s items" using items by (simp only: map_res_Inr_conv)
  have "list_all2 (\<lambda>b kv. \<exists>kb vb. b = kb @ vb \<and> reads_back l (depth + 1) kb (WStr (fst kv)) \<and>
      reads_back l (depth + 1) vb (snd kv)) items ?c"
  proof (rule list_all2_all_nthI)
    show len: "length items = length ?c" using list_all2_lengthD [OF fs] by simp
    fix i assume i: "i < length items"
    obtain k v where kv: "?s ! i = (k, v)" by fastforce
    have "(k, v) \<in> set kvs" using i len kv by (metis length_map length_sort nth_mem set_sort)
    moreover have "?f (k, v) = Inr (items ! i)" using list_all2_nthD2 [OF fs i] by (simp only: kv)
    moreover have "int (length (items ! i)) \<le> lm_MaxBytes l"
      using length_concat_mem [OF nth_mem [OF i]] assms(3) bs by simp
    ultimately show "\<exists>kb vb. items ! i = kb @ vb \<and> reads_back l (depth + 1) kb (WStr (fst (?c ! i))) \<and>
        reads_back l (depth + 1) vb (snd (?c ! i))" using pair i len kv by simp
  qed
  moreover have "distinct (dkeys ([] @ ?c))" using assms(4) by (simp add: comp_def case_prod_beta distinct_keys_sort)
  ultimately have it: "read_pairs l depth (length kvs) [] (concat items @ rest) = Inr (?c, rest)" for rest
    using read_pairs_back [of l depth items ?c "[]" rest] by simp
  have hh: "heads l h (HMap (int (length kvs)))" using h assms(2,3) bs by (intro heads_map) auto
  then have one: "1 \<le> lm_MaxBytes l" using assms(3) bs by (intro heads_room [of l h]) auto
  have "dec_collection l (int (length kvs)) = Inr ()"
    using h by (simp add: dec_collection_def writeLength_def split: if_splits)
  with it show ?thesis
    by (simp add: reads_back_def bs dec_read_heads [OF hh enc_write_depth [OF assms(1)] one] sort_key_map_snd)
qed

lemma enc_write_ext:
  assumes "enc_write l depth (WExt code v) = Inr bs" and "sane l" and "int (length bs) \<le> lm_MaxBytes l"
    and "code = DeltaSnapshotExtension"
    and rb: "\<And>b. enc_write l 0 v = Inr b \<Longrightarrow> int (length b) \<le> lm_MaxBytes l \<Longrightarrow> reads_back l 0 b (canon v)"
  shows "reads_back l depth bs (canon (WExt code v))"
proof -
  from assms(1) obtain payload where p: "enc_write l 0 v = Inr payload" "int (length payload) \<le> lm_MaxBytes l"
    and bs: "bs = writeExtensionLength (length payload) @ [code] @ payload"
    by (auto simp: enc_write.simps [of l depth] check_payload_def res_simps split: if_splits)
  have hh: "heads l (writeExtensionLength (length payload)) (HExt (int (length payload)))"
    using p(2) assms(2,3) bs by (intro heads_ext) (auto simp: sane_def)
  then have one: "1 \<le> lm_MaxBytes l" using assms(3) bs by (intro heads_room) auto
  have "dec_read l 0 payload = Inr (canon v, [])"
    using rb [OF p] by (auto simp: reads_back_def dest: spec [of _ "[]"])
  with p(2) one assms(4) show ?thesis
    by (simp add: reads_back_def bs dec_read_heads [OF hh enc_write_depth [OF assms(1)] one] all_consumed_def dec_extension_def)
qed

lemma enc_write_reads_back:
  assumes "sane l"
  shows "enc_write l depth v = Inr bs \<Longrightarrow> wire_ok v \<Longrightarrow> int (length bs) \<le> lm_MaxBytes l \<Longrightarrow>
    reads_back l depth bs (canon v)"
proof (induction v arbitrary: depth bs)
  case (WSlice vs)
  then show ?case using assms by (intro enc_write_slice) (auto simp: list_all_iff)
next
  case (WMap kvs)
  then show ?case using assms by (intro enc_write_map) (auto simp: list_all_iff)
next
  case (WExt code v)
  then show ?case using assms by (intro enc_write_ext) auto
next
  case (WInt x)
  then have "heads l bs (HValue (canon (WInt x)))"
    using heads_int [of x l] by (simp add: enc_write.simps [of l depth] split: if_splits)
  with WInt show ?case by (intro reads_back_value enc_write_depth)
qed (use assms in \<open>auto simp: enc_write.simps [of l] split: if_splits intro!: reads_back_value heads_string heads_bytes heads_uint,
  auto simp: heads_def read_head_def head_value_def\<close>)

lemma be_bytes_numeral [simp]: "be_bytes (numeral k) n = be_bytes (pred_numeral k) (n div 256) @ [n mod 256]"
  by (simp only: numeral_eq_Suc [of k] be_bytes.simps)

section \<open>Properties\<close>

lemma marshal_roundtrip:
  assumes "marshalMessagePack v l = Inr bs" and "sane l" and "wire_ok v"
  shows "unmarshalMessagePack bs l = Inr (canon v)"
proof -
  from assms(1) have w: "enc_write l 0 v = Inr bs" and len: "int (length bs) \<le> lm_MaxBytes l"
    by (auto simp: marshalMessagePack_def check_payload_def res_simps split: if_splits)
  from enc_write_reads_back [OF assms(2) w assms(3) len]
  have "dec_read l 0 (bs @ []) = Inr (canon v, [])" unfolding reads_back_def by blast
  then show ?thesis by (simp add: unmarshalMessagePack_def all_consumed_def)
qed

text \<open>C14: MessagePack round trip. Whatever the encoder accepts, the decoder reads back under the same limits, consuming every byte,
  up to the integer types and the order of map entries; limits above 32 bits are excluded, because lengths are written in at
  most 32 bits.\<close>

theorem msgpack_roundtrip:
  assumes "marshalMessagePack v l = Inr bs" and "lm_MaxBytes l < 2 ^ 32" and "lm_MaxCollection l < 2 ^ 32" and "wire_ok v"
  shows "unmarshalMessagePack bs l = Inr (canon v)"
  using assms by (intro marshal_roundtrip) (auto simp: sane_def)

theorem msgpack_roundtrip_witness:
  "\<exists>bs. marshalMessagePack (WMap [(''b'', WInt (- 40)), (''a'', WSlice [WStr ''x'', WBytes [7], WExt 7 (WInt 300)])])
      \<lparr>lm_MaxDepth = 4, lm_MaxCollection = 10, lm_MaxBytes = 100\<rparr> = Inr bs \<and>
    unmarshalMessagePack bs \<lparr>lm_MaxDepth = 4, lm_MaxCollection = 10, lm_MaxBytes = 100\<rparr> =
      Inr (WMap [(''a'', WSlice [WStr ''x'', WBytes [7], WExt 7 (WUint 300)]), (''b'', WInt (- 40))])"
proof -
  let ?l = "\<lparr>lm_MaxDepth = 4, lm_MaxCollection = 10, lm_MaxBytes = 100\<rparr>"
  let ?v = "WMap [(''b'', WInt (- 40)), (''a'', WSlice [WStr ''x'', WBytes [7], WExt 7 (WInt 300)])]"
  have "writeInt (- 40) = [0xd0, - 40]" "writeInt 300 = [0xcd, 1, 0x2c]"
    by (simp_all add: writeInt_def writeUint_def put_be_def)
  then have "\<exists>bs. marshalMessagePack ?v ?l = Inr bs"
    by (simp add: marshalMessagePack_def check_payload_def enc_write.simps writeString_def writeLength_def writeBytes_def
        writeExtensionLength_def Let_def)
  moreover have "wire_ok ?v" by code_simp
  moreover have "canon ?v = WMap [(''a'', WSlice [WStr ''x'', WBytes [7], WExt 7 (WUint 300)]), (''b'', WInt (- 40))]"
    by simp
  ultimately show ?thesis using msgpack_roundtrip [of ?v ?l] by auto
qed

text \<open>
  Nested extensions: the payload of an extension is decoded from depth zero, so no limit on the depth bounds how deep the
  decoder recurses; six bytes buy one level.
\<close>

fun nested :: "nat \<Rightarrow> wire" where
  "nested 0 = WNil"
| "nested (Suc n) = WExt DeltaSnapshotExtension (nested n)"

lemma nested_facts: "wire_ok (nested n)" "canon (nested n) = nested n"
  by (induction n) auto

lemma length_writeExtensionLength: "length (writeExtensionLength n) \<le> 5"
  by (simp add: writeExtensionLength_def)

lemma nested_encodes:
  assumes "0 \<le> lm_MaxDepth l" and "6 * int n + 1 \<le> lm_MaxBytes l"
  shows "\<exists>bs. enc_write l 0 (nested n) = Inr bs \<and> length bs \<le> 6 * n + 1"
  using assms(2)
proof (induction n)
  case 0
  with assms(1) show ?case by (simp add: enc_write.simps)
next
  case (Suc n)
  then obtain bs where bs: "enc_write l 0 (nested n) = Inr bs" "length bs \<le> 6 * n + 1" by auto
  with Suc.prems assms(1) length_writeExtensionLength [of "length bs"] show ?case
    by (simp add: enc_write.simps [of l 0 "WExt _ _"] check_payload_def)
qed

theorem nested_extensions_decode:
  assumes "0 \<le> lm_MaxDepth l" and "6 * int n + 1 \<le> lm_MaxBytes l" and "sane l"
  shows "\<exists>bs. length bs \<le> 6 * n + 1 \<and> unmarshalMessagePack bs l = Inr (nested n)"
proof -
  from nested_encodes [OF assms(1,2)] obtain bs where bs: "enc_write l 0 (nested n) = Inr bs" "length bs \<le> 6 * n + 1"
    by blast
  with assms(2) have "marshalMessagePack (nested n) l = Inr bs" by (simp add: marshalMessagePack_def check_payload_def)
  from marshal_roundtrip [OF this assms(3) nested_facts(1)] bs(2) show ?thesis by (auto simp: nested_facts(2))
qed

end
