(* ===== verification/Serde.thy ===== *)
theory Serde
  imports Msgpack Checkpoint_Types
begin

text \<open>
  The checkpoint codec of \<^verbatim>\<open>dacheckpoint/serde/serde.go\<close>: the conversion of Go values to wire values and back, and the codec
  \<^verbatim>\<open>Safe\<close> over the MessagePack encoding. Go's JSON package and its number formatting are the parameter \<open>json\<close>.
\<close>

section \<open>Values\<close>

text \<open>
  The dynamic types \<^verbatim>\<open>toWire\<close> distinguishes. Slices and string-keyed maps of any element type are the values the reflection
  finds in them; \<open>SMessage\<close> is \<^verbatim>\<open>damessage.Message\<close>, \<open>SRaw\<close> is \<^verbatim>\<open>json.RawMessage\<close> and \<open>SOther\<close> a pointer, function, channel,
  struct or map with other keys. Named scalar types are not represented.
\<close>

datatype 'x sval =
    SNil
  | SBool bool
  | SStr string
  | SBytes bytes
  | SInt "64 word"
  | SUint "64 word"
  | SFloat32 "32 word"
  | SFloat64 "64 word"
  | SSlice "'x sval list"
  | SMap "(string \<times> 'x sval) list"
  | SSnapshot "'x sval"
  | SOverwrite "'x sval"
  | SCheckpoint "64 word" string string "(string \<times> 'x sval) list" "(string \<times> string) list"
      "(string \<times> (string \<times> string) list) list" "string list"
  | SMetadata string "64 word" "(string \<times> string) list" string "(string \<times> (64 word \<times> 64 word)) list"
      "(string \<times> 'x sval) list"
  | SMessage 'x
  | SRaw bytes
  | SOther string

datatype jval = JNull | JBool bool | JNumber string | JString string | JArray "jval list" | JObject "(string \<times> jval) list"

record 'x json =
  js_valid :: "bytes \<Rightarrow> bool"
  js_next :: "bytes \<Rightarrow> (jval \<times> bytes) option res"
  js_float :: "string \<Rightarrow> (64 word) res"
  js_marshal :: "'x \<Rightarrow> bytes res"
  js_marshal_map :: "(string \<times> 'x sval) list \<Rightarrow> bytes res"
  js_unmarshal :: "bytes \<Rightarrow> 'x res"
  js_fmt_g :: "64 word \<Rightarrow> string"

record typed =
  ty_type :: string
  ty_data :: bytes

section \<open>JSON\<close>

fun normalizeJSONNumbers :: "'x json \<Rightarrow> jval \<Rightarrow> wire res" where
  "normalizeJSONNumbers js JNull = Inr WNil"
| "normalizeJSONNumbers js (JBool b) = Inr (WBool b)"
| "normalizeJSONNumbers js (JString s) = Inr (WStr s)"
| "normalizeJSONNumbers js (JNumber s) =
     (case parse_bigint s of
        Some i \<Rightarrow> if - (2 ^ 63) \<le> i \<and> i < 2 ^ 63 then Inr (WInt (word_of_int i))
          else res_bind (js_float js s) (\<lambda>f. Inr (WFloat64 f))
      | None \<Rightarrow> res_bind (js_float js s) (\<lambda>f. Inr (WFloat64 f)))"
| "normalizeJSONNumbers js (JArray vs) = res_bind (map_res (normalizeJSONNumbers js) vs) (\<lambda>ws. Inr (WSlice ws))"
| "normalizeJSONNumbers js (JObject kvs) =
     res_bind (map_res (\<lambda>(k, v). res_bind (normalizeJSONNumbers js v) (\<lambda>w. Inr (k, w))) kvs) (\<lambda>kws. Inr (WMap kws))"

text \<open>\<^verbatim>\<open>decoder.Decode\<close> is \<open>js_next\<close>: the next value and the bytes after it, nothing at the end of the input.\<close>

definition ensureJSONEOF :: "'x json \<Rightarrow> bytes \<Rightarrow> unit res" where
  "ensureJSONEOF js data =
     res_bind (js_next js data) (\<lambda>next. if next = None then Inr () else Inl (Errorf ''multiple JSON values''))"

definition decodeJSON :: "'x json \<Rightarrow> bytes \<Rightarrow> wire res" where
  "decodeJSON js data =
     res_bind (js_next js data) (\<lambda>next.
       case next of
         None \<Rightarrow> Inl (Errorf ''EOF'')
       | Some (v, rest) \<Rightarrow> res_bind (ensureJSONEOF js rest) (\<lambda>_. normalizeJSONNumbers js v))"

definition taggedJSONRecord :: "'x json \<Rightarrow> string \<Rightarrow> 'x \<Rightarrow> wire res" where
  "taggedJSONRecord js tag m =
     res_bind (res_wrap ''encode %s: %w'' (js_marshal js m)) (\<lambda>data.
     res_bind (decodeJSON js data) (\<lambda>decoded.
       case decoded of
         WMap record \<Rightarrow> Inr (WMap (dput ''$type'' (WStr tag) record))
       | _ \<Rightarrow> Inl (Errorf ''encode %s: expected object'')))"

definition recordInto :: "'x json \<Rightarrow> (string \<times> 'x sval) list \<Rightarrow> 'x res" where
  "recordInto js record =
     res_bind (js_marshal_map js record) (\<lambda>data.
       case js_unmarshal js data of
         Inl e \<Rightarrow> Inl (Wrapf ''%w: %v'' ErrMalformedPayload)
       | Inr m \<Rightarrow> Inr m)"

section \<open>To the wire\<close>

definition stringMapToAny :: "(string \<times> string) list \<Rightarrow> wire" where
  "stringMapToAny kvs = WMap (map (\<lambda>(k, v). (k, WStr v)) kvs)"

definition depth_check :: "int \<Rightarrow> int \<Rightarrow> unit res" where
  "depth_check depth maxDepth =
     (if depth > maxDepth then Inl (Wrapf ''%w: maximum nesting depth exceeded'' ErrUnsupportedType) else Inr ())"

text \<open>The loops of \<^verbatim>\<open>toWire\<close> over the entries of a map and over a slice.\<close>

definition wire_entries :: "('v \<Rightarrow> wire res) \<Rightarrow> (string \<times> 'v) list \<Rightarrow> wire res" where
  "wire_entries f kvs =
     res_bind (map_res (\<lambda>(k, x). res_wrap ''checkpoint map key %q: %w'' (res_bind (f x) (\<lambda>w. Inr (k, w)))) kvs)
       (\<lambda>kws. Inr (WMap kws))"

definition wire_items :: "('v \<Rightarrow> wire res) \<Rightarrow> 'v list \<Rightarrow> wire res" where
  "wire_items f xs =
     res_bind (map_res (\<lambda>x. res_wrap ''checkpoint list index %d: %w'' (f x)) xs) (\<lambda>ws. Inr (WSlice ws))"

lemma wire_entries_cong [fundef_cong]:
  "kvs = kvs' \<Longrightarrow> (\<And>k x. (k, x) \<in> set kvs' \<Longrightarrow> f x = g x) \<Longrightarrow> wire_entries f kvs = wire_entries g kvs'"
  unfolding wire_entries_def by (intro arg_cong2 [where f = res_bind] map_res_cong refl) auto

lemma wire_items_cong [fundef_cong]:
  "xs = xs' \<Longrightarrow> (\<And>x. x \<in> set xs' \<Longrightarrow> f x = g x) \<Longrightarrow> wire_items f xs = wire_items g xs'"
  unfolding wire_items_def by (intro arg_cong2 [where f = res_bind] map_res_cong refl) auto

text \<open>\<^verbatim>\<open>toWire\<close> at the types of the other fields of a checkpoint: a string, a map of strings and a map of such maps.\<close>

definition string_wire :: "int \<Rightarrow> int \<Rightarrow> string \<Rightarrow> wire res" where
  "string_wire maxDepth depth s = res_bind (depth_check depth maxDepth) (\<lambda>_. Inr (WStr s))"

definition string_map_wire :: "int \<Rightarrow> int \<Rightarrow> (string \<times> string) list \<Rightarrow> wire res" where
  "string_map_wire maxDepth depth kvs =
     res_bind (depth_check depth maxDepth) (\<lambda>_. wire_entries (string_wire maxDepth (depth + 1)) kvs)"

definition seen_wire :: "int \<Rightarrow> int \<Rightarrow> (string \<times> (string \<times> string) list) list \<Rightarrow> wire res" where
  "seen_wire maxDepth depth kvs =
     res_bind (depth_check depth maxDepth) (\<lambda>_. wire_entries (string_map_wire maxDepth (depth + 1)) kvs)"

definition strings_wire :: "int \<Rightarrow> int \<Rightarrow> string list \<Rightarrow> wire res" where
  "strings_wire maxDepth depth xs =
     res_bind (depth_check depth maxDepth) (\<lambda>_. wire_items (string_wire maxDepth (depth + 1)) xs)"

definition checkpoint_record :: "64 word \<Rightarrow> string \<Rightarrow> string \<Rightarrow> wire \<Rightarrow> (string \<times> string) list \<Rightarrow> wire \<Rightarrow> wire \<Rightarrow> wire" where
  "checkpoint_record version i ts channelValues versions versionsSeen updated =
     WMap [(''v'', WInt version), (''id'', WStr i), (''ts'', WStr ts), (''channel_values'', channelValues),
       (''channel_versions'', stringMapToAny versions), (''versions_seen'', versionsSeen), (''updated_channels'', updated)]"

definition metadata_record ::
  "string \<Rightarrow> 64 word \<Rightarrow> (string \<times> string) list \<Rightarrow> string \<Rightarrow> (string \<times> (64 word \<times> 64 word)) list \<Rightarrow> wire \<Rightarrow> wire" where
  "metadata_record source step parents run counters extra =
     WMap [(''$type'', WStr ''dago.metadata.v1''), (''source'', WStr source), (''step'', WInt step),
       (''parents'', stringMapToAny parents), (''run_id'', WStr run),
       (''counters_since_delta_snapshot'', WMap (map (\<lambda>(k, u, s). (k, WSlice [WUint u, WUint s])) counters)),
       (''extra'', extra)]"

text \<open>
  \<^verbatim>\<open>toWire\<close>, with \<^verbatim>\<open>checkpointToWire\<close> and \<^verbatim>\<open>metadataToWire\<close>, which call it at \<open>depth + 1\<close> on the maps of values.
\<close>

function toWire :: "'x json \<Rightarrow> int \<Rightarrow> int \<Rightarrow> 'x sval \<Rightarrow> wire res" where
  "toWire js maxDepth depth v =
     res_bind (depth_check depth maxDepth) (\<lambda>_.
      case v of
        SNil \<Rightarrow> Inr WNil
      | SBool b \<Rightarrow> Inr (WBool b)
      | SStr s \<Rightarrow> Inr (WStr s)
      | SInt i \<Rightarrow> Inr (WInt i)
      | SUint i \<Rightarrow> Inr (WUint i)
      | SFloat32 f \<Rightarrow> Inr (WFloat32 f)
      | SFloat64 f \<Rightarrow> Inr (WFloat64 f)
      | SBytes bs \<Rightarrow> Inr (WBytes ([] @ bs))
      | SRaw bs \<Rightarrow> if \<not> js_valid js bs then Inl (Wrapf ''%w: invalid raw JSON'' ErrUnsupportedType) else decodeJSON js bs
      | SSnapshot x \<Rightarrow> res_bind (toWire js maxDepth (depth + 1) x) (\<lambda>w. Inr (WExt DeltaSnapshotExtension w))
      | SCheckpoint version i ts values versions seen updated \<Rightarrow>
          res_bind (res_bind (depth_check (depth + 1) maxDepth)
            (\<lambda>_. wire_entries (toWire js maxDepth (depth + 2)) values)) (\<lambda>channelValues.
          res_bind (seen_wire maxDepth (depth + 1) seen) (\<lambda>versionsSeen.
          res_bind (strings_wire maxDepth (depth + 1) updated) (\<lambda>updatedChannels.
            Inr (checkpoint_record version i ts channelValues versions versionsSeen updatedChannels))))
      | SMetadata source step parents run counters extra \<Rightarrow>
          res_bind (res_bind (depth_check (depth + 1) maxDepth)
            (\<lambda>_. wire_entries (toWire js maxDepth (depth + 2)) extra)) (\<lambda>extra'.
            Inr (metadata_record source step parents run counters extra'))
      | SMessage m \<Rightarrow> taggedJSONRecord js ''dago.message.v1'' m
      | SOverwrite x \<Rightarrow>
          res_bind (toWire js maxDepth (depth + 1) x) (\<lambda>w.
            Inr (WMap [(''$type'', WStr ''dago.overwrite.v1''), (''value'', w)]))
      | SMap kvs \<Rightarrow> wire_entries (toWire js maxDepth (depth + 1)) kvs
      | SSlice xs \<Rightarrow> wire_items (toWire js maxDepth (depth + 1)) xs
      | SOther t \<Rightarrow> Inl (Wrapf ''%w: %T'' ErrUnsupportedType))"
  by pat_completeness auto
termination
  by (relation "measure (\<lambda>(js, maxDepth, depth, v). size v)")
    (auto simp: less_Suc_eq_le size_list_estimation' trans_le_add1 trans_le_add2 dest: size_map_value)

declare toWire.simps [simp del]

section \<open>From the wire\<close>

definition intNumber :: "'x sval option \<Rightarrow> 64 word" where
  "intNumber v = (case v of Some (SInt i) \<Rightarrow> i | Some (SUint i) \<Rightarrow> i | _ \<Rightarrow> 0)"

definition uintNumber :: "'x sval option \<Rightarrow> 64 word" where
  "uintNumber v = (case v of Some (SInt i) \<Rightarrow> i | Some (SUint i) \<Rightarrow> i | _ \<Rightarrow> 0)"

definition stringNumber :: "'x json \<Rightarrow> 'x sval option \<Rightarrow> string" where
  "stringNumber js v =
     (case v of
        Some (SStr s) \<Rightarrow> s
      | Some (SInt i) \<Rightarrow> bigint_string (sint i)
      | Some (SUint i) \<Rightarrow> bigint_string (uint i)
      | Some (SFloat64 f) \<Rightarrow> js_fmt_g js f
      | _ \<Rightarrow> [])"

definition isCheckpointRecord :: "(string \<times> 'x sval) list \<Rightarrow> bool" where
  "isCheckpointRecord record \<longleftrightarrow>
     list_all (\<lambda>k. map_of record k \<noteq> None) [''v'', ''id'', ''channel_values'', ''channel_versions'', ''versions_seen'']"

definition string_values :: "'x json \<Rightarrow> (string \<times> 'x sval) list \<Rightarrow> (string \<times> string) list" where
  "string_values js kvs = map (\<lambda>(k, v). (k, stringNumber js (Some v))) kvs"

definition map_field :: "(string \<times> 'x sval) list \<Rightarrow> string \<Rightarrow> (string \<times> 'x sval) list" where
  "map_field record key = (case map_of record key of Some (SMap kvs) \<Rightarrow> kvs | _ \<Rightarrow> [])"

definition wireToCheckpoint :: "'x json \<Rightarrow> (string \<times> 'x sval) list \<Rightarrow> 'x sval res" where
  "wireToCheckpoint js record =
     res_bind (map_res (\<lambda>(node, raw).
         case raw of
           SMap channels \<Rightarrow> Inr (node, string_values js channels)
         | _ \<Rightarrow> Inl (Wrapf ''%w: versions_seen.%s'' ErrMalformedPayload)) (map_field record ''versions_seen'')) (\<lambda>seen.
       Inr (SCheckpoint (intNumber (map_of record ''v'')) (stringNumber js (map_of record ''id''))
         (stringNumber js (map_of record ''ts'')) (map_field record ''channel_values'')
         (string_values js (map_field record ''channel_versions'')) seen
         (case map_of record ''updated_channels'' of
            Some (SSlice updated) \<Rightarrow> map (\<lambda>item. stringNumber js (Some item)) updated | _ \<Rightarrow> [])))"

definition wire_counter :: "'x sval \<Rightarrow> (64 word \<times> 64 word) res" where
  "wire_counter raw =
     (case raw of
        SSlice [updates, supersteps] \<Rightarrow> Inr (uintNumber (Some updates), uintNumber (Some supersteps))
      | _ \<Rightarrow> Inl (Wrapf ''%w: delta counter %q'' ErrMalformedPayload))"

definition wireToMetadata :: "'x json \<Rightarrow> (string \<times> 'x sval) list \<Rightarrow> 'x sval res" where
  "wireToMetadata js record =
     res_bind (map_res (\<lambda>(key, raw). res_bind (wire_counter raw) (\<lambda>c. Inr (key, c)))
         (map_field record ''counters_since_delta_snapshot'')) (\<lambda>counters.
       Inr (SMetadata (stringNumber js (map_of record ''source'')) (intNumber (map_of record ''step''))
         (string_values js (map_field record ''parents'')) (stringNumber js (map_of record ''run_id'')) counters
         (map_field record ''extra'')))"

definition string_or_empty :: "'x sval option \<Rightarrow> string" where
  "string_or_empty v = (case v of Some (SStr t) \<Rightarrow> t | _ \<Rightarrow> [])"

text \<open>What \<^verbatim>\<open>fromWire\<close> does with a decoded map, by its type tag.\<close>

definition from_record :: "'x json \<Rightarrow> (string \<times> 'x sval) list \<Rightarrow> 'x sval res" where
  "from_record js record =
     (let tag = string_or_empty (map_of record ''$type'')
      in if tag = [] then (if isCheckpointRecord record then wireToCheckpoint js record else Inr (SMap record))
         else if tag = ''dago.message.v1'' then
           res_bind (recordInto js (ddel ''$type'' record)) (\<lambda>m. Inr (SMessage m))
         else if tag = ''dago.overwrite.v1'' then
           Inr (SOverwrite (case map_of record ''value'' of None \<Rightarrow> SNil | Some v \<Rightarrow> v))
         else if tag = ''dago.checkpoint.v1'' then wireToCheckpoint js record
         else if tag = ''dago.metadata.v1'' then wireToMetadata js record
         else Inl (Wrapf ''%w: record type %q'' ErrUnsupportedEncoding))"

function fromWire :: "'x json \<Rightarrow> wire \<Rightarrow> 'x sval res" where
  "fromWire js w =
     (case w of
        WExt code v \<Rightarrow>
          if code \<noteq> DeltaSnapshotExtension then Inl (Wrapf ''%w: MessagePack extension %d'' ErrUnsupportedEncoding)
          else res_bind (fromWire js v) (\<lambda>decoded. Inr (SSnapshot decoded))
      | WSlice ws \<Rightarrow> res_bind (map_res (fromWire js) ws) (\<lambda>vs. Inr (SSlice vs))
      | WMap kws \<Rightarrow>
          res_bind (map_res (\<lambda>(k, v). res_bind (fromWire js v) (\<lambda>decoded. Inr (k, decoded))) kws) (from_record js)
      | WNil \<Rightarrow> Inr SNil
      | WBool b \<Rightarrow> Inr (SBool b)
      | WStr s \<Rightarrow> Inr (SStr s)
      | WBytes bs \<Rightarrow> Inr (SBytes bs)
      | WInt i \<Rightarrow> Inr (SInt i)
      | WUint i \<Rightarrow> Inr (SUint i)
      | WFloat32 f \<Rightarrow> Inr (SFloat32 f)
      | WFloat64 f \<Rightarrow> Inr (SFloat64 f)
      | WOther t \<Rightarrow> Inr (SOther t))"
  by pat_completeness auto
termination
  by (relation "measure (\<lambda>(js, w). size w)")
    (auto simp: less_Suc_eq_le size_list_estimation' dest: size_map_value)

declare fromWire.simps [simp del]

section \<open>The codec\<close>

definition serde_New :: "limits \<Rightarrow> limits res" where
  "serde_New l =
     (if lm_MaxDepth l < 0 \<or> lm_MaxCollection l < 0 \<or> lm_MaxBytes l < 0
      then Inl (Errorf ''checkpoint serializer limits cannot be negative'')
      else Inr \<lparr>lm_MaxDepth = (if lm_MaxDepth l = 0 then 64 else lm_MaxDepth l),
                lm_MaxCollection = (if lm_MaxCollection l = 0 then 1000000 else lm_MaxCollection l),
                lm_MaxBytes = (if lm_MaxBytes l = 0 then 64 * 2 ^ 20 else lm_MaxBytes l)\<rparr>)"

definition Encode :: "'x json \<Rightarrow> limits \<Rightarrow> 'x sval \<Rightarrow> typed res" where
  "Encode js l v =
     (case v of
        SNil \<Rightarrow> Inr \<lparr>ty_type = ''null'', ty_data = []\<rparr>
      | SBytes bs \<Rightarrow> Inr \<lparr>ty_type = ''bytes'', ty_data = [] @ bs\<rparr>
      | SRaw bs \<Rightarrow> Inr \<lparr>ty_type = ''bytes'', ty_data = [] @ bs\<rparr>
      | _ \<Rightarrow>
          res_bind (toWire js (lm_MaxDepth l) 0 v) (\<lambda>wire.
          res_bind (marshalMessagePack wire l) (\<lambda>data. Inr \<lparr>ty_type = ''msgpack'', ty_data = data\<rparr>)))"

definition Decode :: "'x json \<Rightarrow> limits \<Rightarrow> typed \<Rightarrow> 'x sval res" where
  "Decode js l t =
     (if int (length (ty_data t)) > lm_MaxBytes l then Inl (Wrapf ''%w: payload exceeds %d bytes'' ErrMalformedPayload)
      else if ty_type t = ''null'' then Inr SNil
      else if ty_type t = ''bytes'' \<or> ty_type t = ''bytearray'' then Inr (SBytes ([] @ ty_data t))
      else if ty_type t = ''json'' then
        res_bind (res_wrap ''decode legacy JSON checkpoint payload: %w'' (decodeJSON js (ty_data t))) (fromWire js)
      else if ty_type t = ''msgpack'' then res_bind (unmarshalMessagePack (ty_data t) l) (fromWire js)
      else if ty_type t = ''pickle'' then Inl (Wrapf ''%w: pickle'' ErrUnsupportedEncoding)
      else Inl (Wrapf ''%w: type tag %q'' ErrUnsupportedEncoding))"

section \<open>Round trip\<close>

text \<open>
  The maps that are read back as maps: no type tag, and not the keys of a checkpoint. \<open>storable\<close> asks this of every map of a
  value, and that its keys are distinct; \<open>snorm\<close> is what is read back: integers by sign and map entries in key order.
\<close>

definition ordinary :: "(string \<times> 'x sval) list \<Rightarrow> bool" where
  "ordinary kvs \<longleftrightarrow>
     distinct (dkeys kvs) \<and> \<not> isCheckpointRecord kvs \<and> string_or_empty (map_of kvs ''$type'') = []"

abbreviation str_vals :: "(string \<times> string) list \<Rightarrow> (string \<times> 'x sval) list" where
  "str_vals kvs \<equiv> map (\<lambda>(k, v). (k, SStr v)) kvs"

definition counter_vals :: "(string \<times> (64 word \<times> 64 word)) list \<Rightarrow> (string \<times> 'x sval) list" where
  "counter_vals kvs = map (\<lambda>(k, u, s). (k, SSlice [SUint u, SUint s])) kvs"

definition seen_vals :: "(string \<times> (string \<times> string) list) list \<Rightarrow> (string \<times> 'x sval) list" where
  "seen_vals kvs = map (\<lambda>(k, m). (k, SMap (str_vals (sort_key fst m)))) kvs"

fun storable :: "'x sval \<Rightarrow> bool" where
  "storable (SSlice xs) = list_all storable xs"
| "storable (SMap kvs) = (ordinary kvs \<and> list_all (\<lambda>(k, v). storable v) kvs)"
| "storable (SSnapshot v) = storable v"
| "storable (SOverwrite v) = storable v"
| "storable (SCheckpoint version i ts vs versions seen updated) =
     (ordinary vs \<and> list_all (\<lambda>(k, v). storable v) vs \<and> ordinary (str_vals versions :: (string \<times> 'x sval) list) \<and>
      ordinary (seen_vals seen :: (string \<times> 'x sval) list) \<and>
      list_all (\<lambda>(k, m). ordinary (str_vals m :: (string \<times> 'x sval) list)) seen)"
| "storable (SMetadata source step parents run counters extra) =
     (ordinary (str_vals parents :: (string \<times> 'x sval) list) \<and>
      ordinary (counter_vals counters :: (string \<times> 'x sval) list) \<and>
      ordinary extra \<and> list_all (\<lambda>(k, v). storable v) extra)"
| "storable (SMessage m) = False"
| "storable (SRaw bs) = False"
| "storable v = True"

fun snorm :: "'x sval \<Rightarrow> 'x sval" where
  "snorm (SInt i) = (if sint i \<ge> 0 then SUint i else SInt i)"
| "snorm (SSlice xs) = SSlice (map snorm xs)"
| "snorm (SMap kvs) = SMap (sort_key fst (map (\<lambda>(k, v). (k, snorm v)) kvs))"
| "snorm (SSnapshot v) = SSnapshot (snorm v)"
| "snorm (SOverwrite v) = SOverwrite (snorm v)"
| "snorm (SCheckpoint version i ts vs versions seen updated) =
     SCheckpoint version i ts (sort_key fst (map (\<lambda>(k, v). (k, snorm v)) vs)) (sort_key fst versions)
       (sort_key fst (map (\<lambda>(k, m). (k, sort_key fst m)) seen)) updated"
| "snorm (SMetadata source step parents run counters extra) =
     SMetadata source step (sort_key fst parents) run (sort_key fst counters)
       (sort_key fst (map (\<lambda>(k, v). (k, snorm v)) extra))"
| "snorm v = v"

lemma snorm_SStr [simp]: "snorm v = SStr t \<longleftrightarrow> v = SStr t"
  by (cases v) auto

lemma map_of_sort_key [simp]: "distinct (dkeys kvs) \<Longrightarrow> map_of (sort_key fst kvs) = map_of kvs"
proof -
  assume d: "distinct (dkeys kvs)"
  have "map_of (sort_key fst kvs) k = Some v \<longleftrightarrow> map_of kvs k = Some v" for k v
    using d distinct_keys_sort [of kvs] by (simp add: map_of_eq_Some_iff)
  then show ?thesis by (intro ext) (metis option.exhaust)
qed

lemma map_of_map_snd: "map_of (map (\<lambda>(k, v). (k, g v)) kvs) k = map_option g (map_of kvs k)"
  by (induction kvs) auto

lemma dkeys_map_snd [simp]: "dkeys (map (\<lambda>(k, v). (k, g v)) kvs) = dkeys kvs"
  by (induction kvs) auto

lemma fst_map_snd [simp]: "fst \<circ> (\<lambda>(k, v). (k, g v)) = fst"
  by auto

lemma map_snd_map_snd [simp]: "(\<lambda>(k, v). (k, f v)) \<circ> (\<lambda>(k, v). (k, g v)) = (\<lambda>(k, v). (k, f (g v)))"
  by auto

text \<open>A map whose entries are converted keeps being ordinary if the conversion does not make strings.\<close>

lemma string_or_empty_map:
  assumes "\<And>v t. g v = SStr t \<Longrightarrow> v = SStr t" and "string_or_empty v = []"
  shows "string_or_empty (map_option g v) = []"
proof (cases v)
  case (Some x)
  show ?thesis
  proof (cases "\<exists>t. g x = SStr t")
    case True
    then obtain t where t: "g x = SStr t" by blast
    with assms(1) have "x = SStr t" by blast
    with assms(2) Some t show ?thesis by (simp add: string_or_empty_def)
  next
    case False
    with Some show ?thesis by (cases "g x") (auto simp: string_or_empty_def)
  qed
qed (simp add: string_or_empty_def)

lemma isCheckpointRecord_map:
  "isCheckpointRecord (map (\<lambda>(k, v). (k, g v)) kvs) = isCheckpointRecord kvs"
  by (simp add: isCheckpointRecord_def map_of_map_snd)

lemma isCheckpointRecord_sort: "distinct (dkeys kvs) \<Longrightarrow> isCheckpointRecord (sort_key fst kvs) = isCheckpointRecord kvs"
  by (simp add: isCheckpointRecord_def)

lemma ordinary_map:
  assumes "ordinary kvs" and "\<And>v t. g v = SStr t \<Longrightarrow> v = SStr t"
  shows "ordinary (map (\<lambda>(k, v). (k, g v)) kvs)"
  using assms by (simp add: ordinary_def isCheckpointRecord_map map_of_map_snd string_or_empty_map)

lemma ordinary_sort: "ordinary kvs \<Longrightarrow> ordinary (sort_key fst kvs)"
  by (simp add: ordinary_def isCheckpointRecord_sort distinct_keys_sort)

lemma from_record_ordinary: "ordinary record \<Longrightarrow> from_record js record = Inr (SMap record)"
  by (simp add: ordinary_def from_record_def Let_def)

lemma wire_entries_Inr:
  "wire_entries f kvs = Inr w \<longleftrightarrow>
   (\<forall>(k, x) \<in> set kvs. \<exists>y. f x = Inr y) \<and> w = WMap (map (\<lambda>(k, x). (k, projr (f x))) kvs)"
proof -
  have "map_res (\<lambda>(k, x). res_wrap m (res_bind (f x) (\<lambda>w. Inr (k, w)))) kvs = Inr kws \<longleftrightarrow>
      (\<forall>(k, x) \<in> set kvs. \<exists>y. f x = Inr y) \<and> kws = map (\<lambda>(k, x). (k, projr (f x))) kvs" for kws m
    by (induction kvs arbitrary: kws) (auto simp: res_simps)
  then show ?thesis by (auto simp: wire_entries_def res_simps)
qed

lemma wire_items_Inr:
  "wire_items f xs = Inr w \<longleftrightarrow> (\<forall>x \<in> set xs. \<exists>y. f x = Inr y) \<and> w = WSlice (map (\<lambda>x. projr (f x)) xs)"
proof -
  have "map_res (\<lambda>x. res_wrap m (f x)) xs = Inr ws \<longleftrightarrow>
      (\<forall>x \<in> set xs. \<exists>y. f x = Inr y) \<and> ws = map (\<lambda>x. projr (f x)) xs" for ws m
    by (induction xs arbitrary: ws) (auto simp: res_simps)
  then show ?thesis by (auto simp: wire_items_def res_simps)
qed

text \<open>A wire value that is read back as \<open>v\<close>.\<close>

definition carries :: "'x json \<Rightarrow> wire \<Rightarrow> 'x sval \<Rightarrow> bool" where
  "carries js w v \<longleftrightarrow> wire_ok w \<and> fromWire js (canon w) = Inr v"

lemma fromWire_WMap:
  "fromWire js (WMap kws) =
   res_bind (map_res (\<lambda>(k, v). res_bind (fromWire js v) (\<lambda>decoded. Inr (k, decoded))) kws) (from_record js)"
  by (simp add: fromWire.simps)

lemma fromWire_WStr: "fromWire js (WStr s) = Inr (SStr s)"
  by (simp add: fromWire.simps)

lemma fromWire_WMap_map:
  "(\<And>k x. (k, x) \<in> set kvs \<Longrightarrow> carries js (h x) (g x)) \<Longrightarrow>
   fromWire js (canon (WMap (map (\<lambda>(k, x). (k, h x)) kvs))) = from_record js (sort_key fst (map (\<lambda>(k, x). (k, g x)) kvs))"
proof -
  assume c: "\<And>k x. (k, x) \<in> set kvs \<Longrightarrow> carries js (h x) (g x)"
  let ?s = "sort_key fst kvs"
  have "canon (WMap (map (\<lambda>(k, x). (k, h x)) kvs)) = WMap (map (\<lambda>(k, x). (k, canon (h x))) ?s)"
    by (simp add: sort_key_map_snd)
  moreover have "map_res (\<lambda>(k, v). res_bind (fromWire js v) (\<lambda>decoded. Inr (k, decoded)))
      (map (\<lambda>(k, x). (k, canon (h x))) ?s) = Inr (map (\<lambda>(k, x). (k, g x)) ?s)"
    using c by (auto simp: map_res_map carries_def intro!: map_res_total)
  ultimately show ?thesis by (simp add: fromWire.simps sort_key_map_snd)
qed

lemma carries_map:
  assumes "\<And>k x. (k, x) \<in> set kvs \<Longrightarrow> carries js (h x) (g x)"
    and "distinct (dkeys kvs)" and "ordinary (map (\<lambda>(k, x). (k, g x)) kvs)"
  shows "carries js (WMap (map (\<lambda>(k, x). (k, h x)) kvs)) (SMap (sort_key fst (map (\<lambda>(k, x). (k, g x)) kvs)))"
proof -
  have "ordinary (sort_key fst (map (\<lambda>(k, x). (k, g x)) kvs))"
    using assms(3) by (rule ordinary_sort)
  moreover have "wire_ok (WMap (map (\<lambda>(k, x). (k, h x)) kvs))"
    using assms(1,2) by (auto simp: list_all_iff carries_def)
  ultimately show ?thesis
    using fromWire_WMap_map [of kvs js h g, OF assms(1)] by (simp only: carries_def from_record_ordinary)
qed

lemma carries_scalar:
  "carries js WNil SNil" "carries js (WBool b) (SBool b)" "carries js (WStr s) (SStr s)" "carries js (WBytes bs) (SBytes bs)"
  "carries js (WInt i) (snorm (SInt i))" "carries js (WUint i) (SUint i)"
  "carries js (WFloat32 f) (SFloat32 f)" "carries js (WFloat64 g) (SFloat64 g)"
  by (simp_all add: carries_def fromWire.simps)

lemma carries_string: "string_wire maxDepth depth s = Inr w \<Longrightarrow> carries js w (SStr s)"
  by (auto simp: string_wire_def res_simps carries_scalar)

lemma carries_stringMap:
  fixes js :: "'x json"
  assumes "ordinary (str_vals kvs :: (string \<times> 'x sval) list)"
  shows "carries js (stringMapToAny kvs) (SMap (str_vals (sort_key fst kvs)))"
  unfolding stringMapToAny_def sort_key_map_snd [symmetric]
  using assms by (intro carries_map carries_scalar) (auto simp: ordinary_def)

text \<open>The loop over the entries of a map, when each entry is carried.\<close>

lemma carries_entries:
  assumes "wire_entries f kvs = Inr w" and "\<And>k x y. (k, x) \<in> set kvs \<Longrightarrow> f x = Inr y \<Longrightarrow> carries js y (g x)"
    and "ordinary (map (\<lambda>(k, x). (k, g x)) kvs)"
  shows "carries js w (SMap (sort_key fst (map (\<lambda>(k, x). (k, g x)) kvs)))"
proof -
  have w: "w = WMap (map (\<lambda>(k, x). (k, projr (f x))) kvs)" and f: "\<forall>(k, x) \<in> set kvs. \<exists>y. f x = Inr y"
    using assms(1) by (auto simp: wire_entries_Inr)
  have "carries js (projr (f x)) (g x)" if "(k, x) \<in> set kvs" for k x
    using f that assms(2) [OF that] by fastforce
  moreover have "distinct (dkeys kvs)" using assms(3) by (simp add: ordinary_def)
  ultimately show ?thesis unfolding w using assms(3) by (intro carries_map)
qed

lemma carries_items:
  assumes "wire_items f xs = Inr w" and "\<And>x y. x \<in> set xs \<Longrightarrow> f x = Inr y \<Longrightarrow> carries js y (g x)"
  shows "carries js w (SSlice (map g xs))"
proof -
  have w: "w = WSlice (map (\<lambda>x. projr (f x)) xs)" and f: "\<forall>x \<in> set xs. \<exists>y. f x = Inr y"
    using assms(1) by (auto simp: wire_items_Inr)
  have c: "carries js (projr (f x)) (g x)" if "x \<in> set xs" for x
    using f that assms(2) [OF that] by fastforce
  then have "map_res (fromWire js) (map canon (map (\<lambda>x. projr (f x)) xs)) = Inr (map g xs)"
    by (simp add: map_res_map) (rule map_res_total, simp add: carries_def)
  with c show ?thesis by (simp add: w carries_def fromWire.simps list_all_iff)
qed

lemma carries_strings: "strings_wire maxDepth depth xs = Inr w \<Longrightarrow> carries js w (SSlice (map SStr xs))"
  by (auto simp: strings_wire_def res_simps intro: carries_items carries_string)

lemma carries_string_map:
  fixes js :: "'x json"
  assumes "string_map_wire maxDepth depth kvs = Inr w" and "ordinary (str_vals kvs :: (string \<times> 'x sval) list)"
  shows "carries js w (SMap (str_vals (sort_key fst kvs)))"
proof -
  have "wire_entries (string_wire maxDepth (depth + 1)) kvs = Inr w"
    using assms(1) by (auto simp: string_map_wire_def res_simps)
  then show ?thesis
    unfolding sort_key_map_snd [symmetric] by (rule carries_entries) (use assms(2) carries_string in auto)
qed

lemma carries_seen:
  fixes js :: "'x json"
  assumes "seen_wire maxDepth depth seen = Inr w" and "ordinary (seen_vals seen :: (string \<times> 'x sval) list)"
    and "list_all (\<lambda>(k, m). ordinary (str_vals m :: (string \<times> 'x sval) list)) seen"
  shows "carries js w (SMap (sort_key fst (seen_vals seen)))"
proof -
  have "wire_entries (string_map_wire maxDepth (depth + 1)) seen = Inr w"
    using assms(1) by (auto simp: seen_wire_def res_simps)
  moreover have "carries js y (SMap (str_vals (sort_key fst m)))"
    if "(k, m) \<in> set seen" "string_map_wire maxDepth (depth + 1) m = Inr y" for k m y
    using that assms(3) by (auto simp: list_all_iff intro: carries_string_map)
  ultimately show ?thesis using assms(2) unfolding seen_vals_def by (intro carries_entries) auto
qed

lemma counter_vals_alt: "counter_vals kvs = map (\<lambda>(k, x). (k, SSlice [SUint (fst x), SUint (snd x)])) kvs"
  by (auto simp: counter_vals_def)

lemma carries_counters:
  fixes js :: "'x json"
  assumes "ordinary (counter_vals counters :: (string \<times> 'x sval) list)"
  shows "carries js (WMap (map (\<lambda>(k, u, s). (k, WSlice [WUint u, WUint s])) counters))
    (SMap (sort_key fst (counter_vals counters)))"
proof -
  have "WMap (map (\<lambda>(k, u, s). (k, WSlice [WUint u, WUint s])) counters) =
      WMap (map (\<lambda>(k, x). (k, WSlice [WUint (fst x), WUint (snd x)])) counters)" by auto
  then show ?thesis
    using assms unfolding counter_vals_alt
    by (simp only:) (rule carries_map, auto simp: ordinary_def carries_def fromWire.simps)
qed

lemma map_res_Inr [simp]: "map_res (\<lambda>x. Inr (g x)) xs = Inr (map g xs)"
  by (induction xs) auto

text \<open>Records with fixed keys: the order of the keys and the fields that are read back.\<close>

lemma string_values_str_vals [simp]: "string_values js (str_vals kvs) = kvs"
  by (induction kvs) (auto simp: string_values_def stringNumber_def)

lemma carries_checkpoint:
  fixes js :: "'x json"
  assumes "carries js cv (SMap vs)" and "carries js sw (SMap (sort_key fst (seen_vals seen)))"
    and "carries js uw (SSlice (map SStr updated))" and "ordinary (str_vals versions :: (string \<times> 'x sval) list)"
  shows "carries js (checkpoint_record version i ts cv versions sw uw)
    (SCheckpoint version i ts vs (sort_key fst versions) (sort_key fst (map (\<lambda>(k, m). (k, sort_key fst m)) seen)) updated)"
proof -
  note c = carries_stringMap [OF assms(4), of js]
  have keys: "canon (checkpoint_record version i ts cv versions sw uw) =
    WMap [(''channel_values'', canon cv), (''channel_versions'', canon (stringMapToAny versions)), (''id'', WStr i),
      (''ts'', WStr ts), (''updated_channels'', canon uw), (''v'', canon (WInt version)), (''versions_seen'', canon sw)]"
    by (simp add: checkpoint_record_def)
  let ?r = "[(''channel_values'', SMap vs), (''channel_versions'', SMap (str_vals (sort_key fst versions))), (''id'', SStr i),
      (''ts'', SStr ts), (''updated_channels'', SSlice (map SStr updated)), (''v'', snorm (SInt version)),
      (''versions_seen'', SMap (sort_key fst (seen_vals seen)))]"
  have "fromWire js (canon (checkpoint_record version i ts cv versions sw uw)) = from_record js ?r"
    using assms(1-3) c carries_scalar(3) [of js] carries_scalar(5) [of js version]
    unfolding keys fromWire_WMap by (simp add: carries_def)
  also have "\<dots> = wireToCheckpoint js ?r" by (simp add: from_record_def string_or_empty_def isCheckpointRecord_def)
  also have "\<dots> = Inr (SCheckpoint version i ts vs (sort_key fst versions)
      (sort_key fst (map (\<lambda>(k, m). (k, sort_key fst m)) seen)) updated)"
  proof -
    have "intNumber (Some (snorm (SInt version))) = version" by (simp add: intNumber_def)
    moreover have "map_res (\<lambda>(node, raw). case raw of SMap channels \<Rightarrow> Inr (node, string_values js channels)
           | _ \<Rightarrow> Inl (Wrapf ''%w: versions_seen.%s'' ErrMalformedPayload)) (sort_key fst (seen_vals seen)) =
        Inr (sort_key fst (map (\<lambda>(k, m). (k, sort_key fst m)) seen))"
      by (simp add: seen_vals_def sort_key_map_snd map_res_map case_prod_beta)
    ultimately show ?thesis
      by (simp add: wireToCheckpoint_def map_field_def stringNumber_def comp_def del: snorm.simps)
  qed
  finally show ?thesis
    using assms c by (simp add: carries_def checkpoint_record_def)
qed

lemma carries_metadata:
  fixes js :: "'x json"
  assumes "carries js ew (SMap extra)" and "ordinary (str_vals parents :: (string \<times> 'x sval) list)"
    and "ordinary (counter_vals counters :: (string \<times> 'x sval) list)"
  shows "carries js (metadata_record source step parents run counters ew)
    (SMetadata source step (sort_key fst parents) run (sort_key fst counters) extra)"
proof -
  let ?cw = "WMap (map (\<lambda>(k, u, s). (k, WSlice [WUint u, WUint s])) counters)"
  note c = carries_stringMap [OF assms(2), of js] carries_counters [OF assms(3), of js]
  have keys: "canon (metadata_record source step parents run counters ew) =
    WMap [(''$type'', WStr ''dago.metadata.v1''), (''counters_since_delta_snapshot'', canon ?cw), (''extra'', canon ew),
      (''parents'', canon (stringMapToAny parents)), (''run_id'', WStr run), (''source'', WStr source),
      (''step'', canon (WInt step))]"
    by (simp add: metadata_record_def)
  let ?r = "[(''$type'', SStr ''dago.metadata.v1''), (''counters_since_delta_snapshot'', SMap (sort_key fst (counter_vals counters))),
      (''extra'', SMap extra), (''parents'', SMap (str_vals (sort_key fst parents))), (''run_id'', SStr run),
      (''source'', SStr source), (''step'', snorm (SInt step))]"
  have "fromWire js (canon (metadata_record source step parents run counters ew)) = from_record js ?r"
    using assms(1) c carries_scalar(5) [of js step]
    unfolding keys fromWire_WMap by (simp add: carries_def fromWire_WStr del: canon.simps)
  also have "\<dots> = wireToMetadata js ?r" by (simp add: from_record_def string_or_empty_def)
  also have "\<dots> = Inr (SMetadata source step (sort_key fst parents) run (sort_key fst counters) extra)"
  proof -
    have "intNumber (Some (snorm (SInt step) :: 'x sval)) = step" by (simp add: intNumber_def)
    moreover have "map_res (\<lambda>(key, raw :: 'x sval). res_bind (wire_counter raw) (\<lambda>c. Inr (key, c)))
        (sort_key fst (counter_vals counters)) = Inr (sort_key fst counters)"
      unfolding counter_vals_alt sort_key_map_snd map_res_map by (simp add: case_prod_beta wire_counter_def uintNumber_def)
    ultimately show ?thesis
      by (simp add: wireToMetadata_def map_field_def stringNumber_def del: snorm.simps)
  qed
  finally show ?thesis
    using assms c by (simp add: carries_def metadata_record_def)
qed

lemma toWire_carries: "toWire js maxDepth depth v = Inr w \<Longrightarrow> storable v \<Longrightarrow> carries js w (snorm v)"
proof (induction v arbitrary: depth w)
  case (SSlice xs)
  then have "wire_items (toWire js maxDepth (depth + 1)) xs = Inr w"
    by (auto simp: toWire.simps [of js maxDepth depth] res_simps)
  then show ?case unfolding snorm.simps by (rule carries_items) (use SSlice in \<open>auto simp: list_all_iff\<close>)
next
  case (SMap kvs)
  then have w: "wire_entries (toWire js maxDepth (depth + 1)) kvs = Inr w"
    by (auto simp: toWire.simps [of js maxDepth depth] res_simps)
  have "ordinary (map (\<lambda>(k, v). (k, snorm v)) kvs)" using SMap.prems(2) by (intro ordinary_map) auto
  from carries_entries [OF w _ this] SMap show ?case by (fastforce simp: list_all_iff)
next
  case (SSnapshot v)
  then obtain y where "toWire js maxDepth (depth + 1) v = Inr y" "w = WExt DeltaSnapshotExtension y"
    by (auto simp: toWire.simps [of js maxDepth depth] res_simps)
  with SSnapshot show ?case by (fastforce simp: carries_def fromWire.simps)
next
  case (SOverwrite v)
  then obtain y where "toWire js maxDepth (depth + 1) v = Inr y"
    "w = WMap [(''$type'', WStr ''dago.overwrite.v1''), (''value'', y)]"
    by (auto simp: toWire.simps [of js maxDepth depth] res_simps)
  with SOverwrite show ?case by (fastforce simp: carries_def fromWire_WMap fromWire_WStr from_record_def string_or_empty_def)
next
  case (SCheckpoint version i ts vs versions seen updated)
  then obtain cv sw uw where cv: "wire_entries (toWire js maxDepth (depth + 2)) vs = Inr cv"
    and sw: "seen_wire maxDepth (depth + 1) seen = Inr sw" and uw: "strings_wire maxDepth (depth + 1) updated = Inr uw"
    and w: "w = checkpoint_record version i ts cv versions sw uw"
    by (auto simp: toWire.simps [of js maxDepth depth] res_simps)
  have "ordinary (map (\<lambda>(k, v). (k, snorm v)) vs)" using SCheckpoint.prems(2) by (intro ordinary_map) auto
  from carries_entries [OF cv _ this] SCheckpoint
  have "carries js cv (SMap (sort_key fst (map (\<lambda>(k, v). (k, snorm v)) vs)))" by (fastforce simp: list_all_iff)
  then show ?case
    unfolding w snorm.simps using SCheckpoint.prems(2) carries_seen [OF sw] carries_strings [OF uw]
    by (intro carries_checkpoint) auto
next
  case (SMetadata source step parents run counters extra)
  then obtain ew where ew: "wire_entries (toWire js maxDepth (depth + 2)) extra = Inr ew"
    and w: "w = metadata_record source step parents run counters ew"
    by (auto simp: toWire.simps [of js maxDepth depth] res_simps)
  have "ordinary (map (\<lambda>(k, v). (k, snorm v)) extra)" using SMetadata.prems(2) by (intro ordinary_map) auto
  from carries_entries [OF ew _ this] SMetadata
  have "carries js ew (SMap (sort_key fst (map (\<lambda>(k, v). (k, snorm v)) extra)))" by (fastforce simp: list_all_iff)
  then show ?case
    unfolding w snorm.simps using SMetadata.prems(2) by (intro carries_metadata) auto
next
  case (SInt i)
  then show ?case using carries_scalar(5) [of js i] by (auto simp: toWire.simps [of js maxDepth depth] res_simps)
qed (auto simp: toWire.simps [of js maxDepth] res_simps carries_scalar)


definition sample_json :: "unit json" where
  "sample_json = \<lparr>js_valid = \<lambda>_. False, js_next = \<lambda>_. Inr None, js_float = \<lambda>_. Inl (External 0),
     js_marshal = \<lambda>_. Inl (External 0), js_marshal_map = \<lambda>_. Inl (External 0), js_unmarshal = \<lambda>_. Inl (External 0),
     js_fmt_g = \<lambda>_. []\<rparr>"


text \<open>C23: A state value that is a map with a \<^verbatim>\<open>$type\<close> entry of its own can be written but never read again: the codec takes
  the entry for its record tag and refuses the payload.\<close>

theorem Decode_rejects_tagged_map:
  assumes "Encode js l (SMap kvs) = Inr t" and "map_of kvs ''$type'' = Some (SStr tag)"
    and "tag \<notin> {[], ''dago.message.v1'', ''dago.overwrite.v1'', ''dago.checkpoint.v1'', ''dago.metadata.v1''}"
    and "distinct (dkeys kvs)" and "\<forall>(k, v) \<in> set kvs. storable v"
    and "lm_MaxBytes l < 2 ^ 32" and "lm_MaxCollection l < 2 ^ 32"
  shows "Decode js l t = Inl (Wrapf ''%w: record type %q'' ErrUnsupportedEncoding)"
proof -
  let ?r = "sort_key fst (map (\<lambda>(k, v). (k, snorm v)) kvs)"
  obtain w data where w: "wire_entries (toWire js (lm_MaxDepth l) 1) kvs = Inr w" "marshalMessagePack w l = Inr data"
    and t: "t = \<lparr>ty_type = ''msgpack'', ty_data = data\<rparr>"
    using assms(1) by (auto simp: Encode_def toWire.simps [of js "lm_MaxDepth l" 0] res_simps)
  have weq: "w = WMap (map (\<lambda>(k, v). (k, projr (toWire js (lm_MaxDepth l) 1 v))) kvs)"
    and f: "\<forall>(k, v) \<in> set kvs. \<exists>y. toWire js (lm_MaxDepth l) 1 v = Inr y"
    using w(1) by (auto simp: wire_entries_Inr)
  have c: "carries js (projr (toWire js (lm_MaxDepth l) 1 v)) (snorm v)" if "(k, v) \<in> set kvs" for k v
    using f that assms(5) toWire_carries [of js "lm_MaxDepth l" 1 v] by fastforce
  have ok: "wire_ok w" using c assms(4) by (auto simp: weq carries_def list_all_iff)
  have "map_of ?r ''$type'' = Some (SStr tag)" using assms(2,4) by (simp add: map_of_map_snd)
  then have "from_record js ?r = Inl (Wrapf ''%w: record type %q'' ErrUnsupportedEncoding)"
    using assms(3) by (simp add: from_record_def string_or_empty_def Let_def)
  moreover have "fromWire js (canon w) = from_record js ?r" unfolding weq by (rule fromWire_WMap_map) (rule c)
  moreover have "unmarshalMessagePack data l = Inr (canon w)"
    using w(2) ok assms(6,7) by (intro marshal_roundtrip) (auto simp: sane_def)
  moreover have "int (length data) \<le> lm_MaxBytes l"
    using w(2) by (auto simp: marshalMessagePack_def check_payload_def res_simps split: if_splits)
  ultimately show ?thesis by (simp add: Decode_def t)
qed

theorem Decode_rejects_tagged_map_witness:
  "\<exists>t. Encode sample_json \<lparr>lm_MaxDepth = 9, lm_MaxCollection = 20, lm_MaxBytes = 200\<rparr> (SMap [(''$type'', SStr ''user'')]) = Inr t \<and>
    Decode sample_json \<lparr>lm_MaxDepth = 9, lm_MaxCollection = 20, lm_MaxBytes = 200\<rparr> t =
      Inl (Wrapf ''%w: record type %q'' ErrUnsupportedEncoding)"
proof -
  let ?l = "\<lparr>lm_MaxDepth = 9, lm_MaxCollection = 20, lm_MaxBytes = 200\<rparr>"
  let ?kvs = "[(''$type'', SStr ''user'')] :: (string \<times> unit sval) list"
  have "\<exists>t. Encode sample_json ?l (SMap ?kvs) = Inr t"
    by (simp add: Encode_def toWire.simps wire_entries_def depth_check_def
        marshalMessagePack_def check_payload_def enc_write.simps writeString_def writeLength_def Let_def)
  then show ?thesis using Decode_rejects_tagged_map [of sample_json ?l ?kvs _ "''user''"] by auto
qed

text \<open>A byte string above the limit is encoded without a check, and then refused by the decoder.\<close>

lemma large_bytes_unreadable:
  "lm_MaxBytes l < int (length bs) \<Longrightarrow>
   \<exists>t. Encode js l (SBytes bs) = Inr t \<and> Decode js l t = Inl (Wrapf ''%w: payload exceeds %d bytes'' ErrMalformedPayload)"
  by (simp add: Encode_def Decode_def)

end
