(* ===== verification/Tool_History.thy ===== *)
theory Tool_History
  imports Messages
begin

text \<open>
  The repair of tool calls in a message history (\<^verbatim>\<open>PatchToolCalls\<close> of \<^verbatim>\<open>features.go\<close>). Chat APIs reject a history in which
  an assistant's tool calls are not followed by exactly their results; a run that was interrupted or cancelled can leave one.
\<close>

section \<open>The repair\<close>

record pendingToolCall =
  pc_name :: string
  pc_invalid :: bool

text \<open>\<^verbatim>\<open>toolCallHistoryNeedsRepair\<close>: the set of calls that wait for a result is a list without repetition.\<close>

definition call_ids :: "message \<Rightarrow> string list" where
  "call_ids item =
     filter (\<lambda>i. i \<noteq> []) (map tc_id (msg_toolCalls item)) @ filter (\<lambda>i. i \<noteq> []) (map ic_id (msg_invalidToolCalls item))"

fun needs_repair :: "string list \<Rightarrow> message list \<Rightarrow> bool" where
  "needs_repair pending [] = (pending \<noteq> [])"
| "needs_repair pending (item # rest) =
     (if msg_role item = RoleTool then
        (if msg_toolCallID item = [] then True
         else if msg_toolCallID item \<notin> set pending then True
         else needs_repair (removeAll (msg_toolCallID item) pending) rest)
      else if pending \<noteq> [] then True
      else if msg_role item \<noteq> RoleAssistant then needs_repair pending rest
      else needs_repair (fold List.insert (call_ids item) pending) rest)"

definition toolCallHistoryNeedsRepair :: "message list \<Rightarrow> bool" where
  "toolCallHistoryNeedsRepair messages = needs_repair [] messages"

record repair =
  rp_patched :: "message list"
  rp_pending :: "(string, pendingToolCall) dict"
  rp_order :: "string list"
  rp_changed :: bool

text \<open>The synthetic result of a call that has none; the text is that of the format strings.\<close>

definition missing_result :: "string \<Rightarrow> pendingToolCall \<Rightarrow> message" where
  "missing_result i call =
     (let name = (if pc_name call = [] then ''unknown'' else pc_name call);
          content = (if pc_invalid call
            then ''Tool call '' @ name @ '' with id '' @ i @ '' could not be executed - arguments were malformed or truncated.''
            else ''Tool call '' @ name @ '' with id '' @ i @ '' was cancelled - another message came in before it could be completed.'')
      in (msg_Tool i content)\<lparr>msg_name := name, msg_toolStatus := ToolStatusError\<rparr>)"

definition missing_results :: "repair \<Rightarrow> message list" where
  "missing_results st =
     concat (map (\<lambda>i. case map_of (rp_pending st) i of None \<Rightarrow> [] | Some call \<Rightarrow> [missing_result i call]) (rp_order st))"

definition flushMissing :: "repair \<Rightarrow> repair" where
  "flushMissing st =
     \<lparr>rp_patched = rp_patched st @ missing_results st, rp_pending = [], rp_order = [],
      rp_changed = (rp_changed st \<or> missing_results st \<noteq> [])\<rparr>"

definition add_pending :: "string \<times> pendingToolCall \<Rightarrow> repair \<Rightarrow> repair" where
  "add_pending ic st =
     (if fst ic = [] then st
      else st\<lparr>rp_order := (if map_of (rp_pending st) (fst ic) = None then rp_order st @ [fst ic] else rp_order st),
              rp_pending := dput (fst ic) (snd ic) (rp_pending st)\<rparr>)"

definition repair_step :: "message \<Rightarrow> repair \<Rightarrow> repair" where
  "repair_step item st =
     (if msg_role item = RoleTool then
        (if map_of (rp_pending st) (msg_toolCallID item) = None \<or> msg_toolCallID item = []
         then st\<lparr>rp_changed := True\<rparr>
         else st\<lparr>rp_patched := rp_patched st @ [item], rp_pending := ddel (msg_toolCallID item) (rp_pending st)\<rparr>)
      else
        let st1 = flushMissing st; st2 = st1\<lparr>rp_patched := rp_patched st1 @ [item]\<rparr>
        in if msg_role item \<noteq> RoleAssistant then st2
           else fold add_pending
             (map (\<lambda>c. (tc_id c, \<lparr>pc_name = tc_name c, pc_invalid = False\<rparr>)) (msg_toolCalls item) @
              map (\<lambda>c. (ic_id c, \<lparr>pc_name = ic_name c, pc_invalid = True\<rparr>)) (msg_invalidToolCalls item)) st2)"

definition repairToolCallHistory :: "message list \<Rightarrow> message list \<times> bool" where
  "repairToolCallHistory messages =
     (if \<not> toolCallHistoryNeedsRepair messages then (messages, False)
      else
        let st = flushMissing (fold repair_step messages \<lparr>rp_patched = [], rp_pending = [], rp_order = [], rp_changed = False\<rparr>)
        in (if rp_changed st then cloneMessages (rp_patched st) else rp_patched st, rp_changed st))"

text \<open>What the middleware reads as a history, and the hook: an overwrite of the history when it was repaired.\<close>

fun feature_items :: "aval list \<Rightarrow> message list res" where
  "feature_items [] = Inr []"
| "feature_items (VOpaque (AMessage m) # xs) = res_bind (feature_items xs) (\<lambda>ms. Inr (msg_Clone m # ms))"
| "feature_items (x # xs) = Inl (Errorf ''message %d has type %T'')"

definition featureMessages :: "aval \<Rightarrow> message list res" where
  "featureMessages v = (case v of
      VNil \<Rightarrow> Inr []
    | VOpaque (AMessages ms) \<Rightarrow> Inr (cloneMessages ms)
    | VSlice xs \<Rightarrow> feature_items xs
    | _ \<Rightarrow> Inl (Errorf ''messages have type %T''))"

definition featureMessageView :: "aval \<Rightarrow> message list res" where
  "featureMessageView v = (case v of VNil \<Rightarrow> Inr [] | VOpaque (AMessages ms) \<Rightarrow> Inr ms | _ \<Rightarrow> featureMessages v)"

definition PatchToolCalls_BeforeAgent :: "(string, aval) dict \<Rightarrow> (string, aval) dict res" where
  "PatchToolCalls_BeforeAgent values =
     res_bind (featureMessageView (dget VNil values ''messages'')) (\<lambda>messages.
       case repairToolCallHistory messages of
         (patched, changed) \<Rightarrow>
           if \<not> changed then Inr [] else Inr [(''messages'', VOverwrite (VOpaque (AMessages patched)))])"

section \<open>Well-formed histories\<close>

text \<open>
  The reference: reading a history from the left with the set of calls that wait for a result. Every result answers a waiting
  call, and nothing but results comes while a call waits.
\<close>

fun scan :: "string set \<Rightarrow> message list \<Rightarrow> string set option" where
  "scan P [] = Some P"
| "scan P (item # rest) =
     (if msg_role item = RoleTool
      then if msg_toolCallID item \<in> P - {[]} then scan (P - {msg_toolCallID item}) rest else None
      else if P \<noteq> {} then None
      else scan (if msg_role item = RoleAssistant then set (call_ids item) else {}) rest)"

definition complete_history :: "message list \<Rightarrow> bool" where
  "complete_history ms \<longleftrightarrow> scan {} ms = Some {}"

lemma scan_append: "scan P (xs @ ys) = (case scan P xs of None \<Rightarrow> None | Some Q \<Rightarrow> scan Q ys)"
  by (induction P xs rule: scan.induct) auto

lemma set_fold_insert: "set (fold List.insert xs ys) = set xs \<union> set ys"
  by (induction xs arbitrary: ys) auto

lemma needs_repair_scan: "needs_repair pending ms \<longleftrightarrow> scan (set pending) ms \<noteq> Some {}"
proof (induction pending ms rule: needs_repair.induct)
  case (2 pending item rest)
  then show ?case by (auto simp: set_fold_insert)
qed simp

lemma needs_repair_iff: "toolCallHistoryNeedsRepair ms \<longleftrightarrow> \<not> complete_history ms"
  by (simp add: toolCallHistoryNeedsRepair_def needs_repair_scan complete_history_def)

section \<open>Correctness\<close>

abbreviation conversation :: "message list \<Rightarrow> message list" where
  "conversation ms \<equiv> filter (\<lambda>m. msg_role m \<noteq> RoleTool) ms"

text \<open>The invariant of the loop, relative to the messages already seen.\<close>

definition repairing :: "message list \<Rightarrow> repair \<Rightarrow> bool" where
  "repairing seen st \<longleftrightarrow>
     scan {} (rp_patched st) = Some (fst ` set (rp_pending st)) \<and>
     fst ` set (rp_pending st) \<subseteq> set (rp_order st) \<and> distinct (rp_order st) \<and> [] \<notin> set (rp_order st) \<and>
     (\<not> rp_changed st \<longrightarrow> rp_patched st = seen) \<and>
     conversation (rp_patched st) = conversation seen \<and>
     (\<forall>m \<in> set (rp_patched st). m \<in> set seen \<or> msg_role m = RoleTool \<and> msg_toolStatus m = ToolStatusError)"

lemma missing_result_fields [simp]:
  "msg_role (missing_result i call) = RoleTool" "msg_toolCallID (missing_result i call) = i"
  "msg_toolStatus (missing_result i call) = ToolStatusError"
  by (simp_all add: missing_result_def msg_Tool_def msg_Text_def Let_def)

lemma missing_results_role: "m \<in> set (missing_results st) \<Longrightarrow> msg_role m = RoleTool \<and> msg_toolStatus m = ToolStatusError"
  by (auto simp: missing_results_def split: option.splits)

lemma scan_missing:
  "distinct order \<Longrightarrow> [] \<notin> set order \<Longrightarrow>
   scan {i \<in> set order. map_of pending i \<noteq> None}
     (concat (map (\<lambda>i. case map_of pending i of None \<Rightarrow> [] | Some call \<Rightarrow> [missing_result i call]) order)) = Some {}"
proof (induction order)
  case (Cons i order)
  have "{j \<in> set (i # order). map_of pending j \<noteq> None} - {i} = {j \<in> set order. map_of pending j \<noteq> None}"
    using Cons.prems(1) by auto
  moreover have "{j \<in> set (i # order). map_of pending j \<noteq> None} = {j \<in> set order. map_of pending j \<noteq> None}"
    if "map_of pending i = None" using that by auto
  ultimately show ?case using Cons by (auto split: option.split)
qed simp

lemma flushMissing_repairing:
  assumes "repairing seen st"
  shows "repairing seen (flushMissing st)" and "scan {} (rp_patched (flushMissing st)) = Some {}"
proof -
  have keys: "fst ` set (rp_pending st) = {i \<in> set (rp_order st). map_of (rp_pending st) i \<noteq> None}"
    using assms by (auto simp: repairing_def map_of_eq_None_iff simp del: not_None_eq)
  have "scan (fst ` set (rp_pending st)) (missing_results st) = Some {}"
    unfolding keys missing_results_def using assms by (intro scan_missing) (auto simp: repairing_def)
  then show s: "scan {} (rp_patched (flushMissing st)) = Some {}"
    using assms by (simp add: repairing_def flushMissing_def scan_append)
  have "conversation (missing_results st) = []" by (auto simp: filter_empty_conv dest: missing_results_role)
  with assms s show "repairing seen (flushMissing st)"
    by (auto simp: repairing_def flushMissing_def dest: missing_results_role)
qed

lemma fold_add_pending:
  assumes "fst ` set (rp_pending st) = set (rp_order st)" and "distinct (rp_order st)" and "[] \<notin> set (rp_order st)"
  shows "rp_patched (fold add_pending ics st) = rp_patched st \<and> rp_changed (fold add_pending ics st) = rp_changed st \<and>
    fst ` set (rp_pending (fold add_pending ics st)) = fst ` set (rp_pending st) \<union> (fst ` set ics - {[]}) \<and>
    set (rp_order (fold add_pending ics st)) = fst ` set (rp_pending (fold add_pending ics st)) \<and>
    distinct (rp_order (fold add_pending ics st)) \<and> [] \<notin> set (rp_order (fold add_pending ics st))"
  using assms
proof (induction ics arbitrary: st)
  case Nil
  then show ?case by simp
next
  case (Cons ic ics)
  have "fst ` set (rp_pending (add_pending ic st)) = set (rp_order (add_pending ic st))"
    "distinct (rp_order (add_pending ic st))" "[] \<notin> set (rp_order (add_pending ic st))"
    using Cons.prems by (auto simp: add_pending_def map_of_eq_None_iff )
  from Cons.IH [OF this] show ?case by (auto simp: add_pending_def split: if_splits)
qed

lemma repair_step_repairing:
  assumes "repairing seen st"
  shows "repairing (seen @ [item]) (repair_step item st)"
proof (cases "msg_role item = RoleTool")
  case True
  have "fst ` set (ddel i d) = fst ` set d - {i}" for i and d :: "(string, pendingToolCall) dict"
    by (auto simp: AList.delete_eq)
  with True assms show ?thesis
    by (auto simp: repair_step_def repairing_def map_of_eq_None_iff scan_append)
next
  case False
  let ?calls = "map (\<lambda>c. (tc_id c, \<lparr>pc_name = tc_name c, pc_invalid = False\<rparr>)) (msg_toolCalls item) @
    map (\<lambda>c. (ic_id c, \<lparr>pc_name = ic_name c, pc_invalid = True\<rparr>)) (msg_invalidToolCalls item)"
  define st1 where "st1 = flushMissing st"
  define st2 where "st2 = st1\<lparr>rp_patched := rp_patched st1 @ [item]\<rparr>"
  define st3 where "st3 = fold add_pending ?calls st2"
  have st1: "repairing seen st1" "scan {} (rp_patched st1) = Some {}"
    using flushMissing_repairing [OF assms] by (simp_all add: st1_def)
  have empty: "rp_pending st1 = []" "rp_order st1 = []" by (simp_all add: st1_def flushMissing_def)
  have st2: "rp_pending st2 = []" "rp_order st2 = []" "rp_patched st2 = rp_patched st1 @ [item]" "rp_changed st2 = rp_changed st1"
    by (simp_all add: st2_def empty)
  have ids: "fst ` set ?calls - {[]} = set (call_ids item)"
    by (auto simp: call_ids_def image_image image_Un)
  have st3: "rp_patched st3 = rp_patched st2" "rp_changed st3 = rp_changed st2" "fst ` set (rp_pending st3) = set (call_ids item)"
    "set (rp_order st3) = set (call_ids item)" "distinct (rp_order st3)" "[] \<notin> set (rp_order st3)"
    using fold_add_pending [of st2 ?calls] by (simp_all only: ids st2 st3_def [symmetric]) (auto simp: call_ids_def)
  have "repair_step item st = (if msg_role item \<noteq> RoleAssistant then st2 else st3)"
    using False by (simp add: repair_step_def Let_def st1_def st2_def st3_def)
  with st1 st2 st3 False empty show ?thesis
    by (auto simp: repairing_def scan_append)
qed

lemma fold_repair_step: "repairing seen st \<Longrightarrow> repairing (seen @ ms) (fold repair_step ms st)"
proof (induction ms arbitrary: seen st)
  case (Cons m ms)
  from Cons.IH [OF repair_step_repairing [OF Cons.prems]] show ?case by simp
qed simp

lemma repair_complete:
  assumes "repairToolCallHistory ms = (out, changed)"
  shows "complete_history out \<and> (changed \<longleftrightarrow> \<not> complete_history ms) \<and> (\<not> changed \<longrightarrow> out = ms) \<and>
    conversation out = conversation ms \<and>
    (\<forall>m \<in> set out. m \<in> set ms \<or> msg_role m = RoleTool \<and> msg_toolStatus m = ToolStatusError)"
proof -
  let ?st0 = "\<lparr>rp_patched = [], rp_pending = [], rp_order = [], rp_changed = False\<rparr>"
  have "repairing [] ?st0" by (simp add: repairing_def)
  from flushMissing_repairing [OF fold_repair_step [OF this, of ms]]
  have "repairing ms (flushMissing (fold repair_step ms ?st0))"
    "scan {} (rp_patched (flushMissing (fold repair_step ms ?st0))) = Some {}" by simp_all
  then show ?thesis
    using assms by (auto simp: repairToolCallHistory_def needs_repair_iff repairing_def complete_history_def Let_def split: if_splits)
qed

text \<open>C8: the repaired history is complete: reading it from the left, every tool result answers a waiting call, and no other message
  comes while a call waits. The repair reports a change exactly when the history was not complete, leaves a complete history as it
  is, keeps every message that is not a tool result in its order, and adds nothing but results with the error status.
\<close>

theorem repairToolCallHistory_complete:
  assumes "repairToolCallHistory ms = (out, changed)"
  shows "complete_history out \<and> (changed \<longleftrightarrow> \<not> complete_history ms) \<and> (\<not> changed \<longrightarrow> out = ms) \<and>
    conversation out = conversation ms \<and>
    (\<forall>m \<in> set out. m \<in> set ms \<or> msg_role m = RoleTool \<and> msg_toolStatus m = ToolStatusError)"
  using assms by (rule repair_complete)

text \<open>A call without a result, a question, and a result nobody waits for.\<close>

abbreviation broken_history :: "message list" where
  "broken_history \<equiv>
     [(msg_Assistant [])\<lparr>msg_toolCalls := [\<lparr>tc_id = ''c1'', tc_name = ''grep'', tc_arguments = ''{}''\<rparr>]\<rparr>,
      msg_Human ''stop'', msg_Tool ''c9'' ''late'']"

theorem repairToolCallHistory_complete_witness:
  "complete_history (fst (repairToolCallHistory broken_history)) \<and> snd (repairToolCallHistory broken_history)"
  using repairToolCallHistory_complete [OF prod.collapse [symmetric], of broken_history]
  by (simp add: complete_history_def msg_Assistant_def msg_Human_def msg_Text_def call_ids_def)

text \<open>While what was read is well formed nothing is dropped or added, and what was kept stays.\<close>

lemma repair_step_keeps: "\<exists>more. rp_patched (repair_step item st) = rp_patched st @ more"
proof -
  have "rp_patched (fold add_pending ics st') = rp_patched st'" for ics st'
    by (induction ics arbitrary: st') (simp_all add: add_pending_def)
  then show ?thesis by (simp add: repair_step_def flushMissing_def Let_def)
qed

lemma fold_repair_step_keeps: "\<exists>more. rp_patched (fold repair_step ms st) = rp_patched st @ more"
proof (induction ms arbitrary: st)
  case (Cons m ms)
  from Cons [of "repair_step m st"] repair_step_keeps [of m st] show ?case by auto
qed simp

lemma repair_step_well_formed:
  assumes "repairing seen st" and "rp_patched st = seen" and "scan {} (seen @ [item]) \<noteq> None"
  shows "rp_patched (repair_step item st) = seen @ [item]"
proof -
  have add: "rp_patched (fold add_pending ics st') = rp_patched st'" for ics st'
    by (induction ics arbitrary: st') (simp_all add: add_pending_def)
  have s: "scan (fst ` set (rp_pending st)) [item] \<noteq> None"
    using assms by (simp add: repairing_def scan_append)
  show ?thesis
  proof (cases "msg_role item = RoleTool")
    case True
    with s have "msg_toolCallID item \<in> fst ` set (rp_pending st) - {[]}" by (auto split: if_splits)
    with True assms(2) show ?thesis by (auto simp: repair_step_def map_of_eq_None_iff)
  next
    case False
    with s have "rp_pending st = []" by (auto split: if_splits)
    then have "missing_results st = []" by (simp add: missing_results_def)
    with False assms(2) show ?thesis by (simp add: repair_step_def flushMissing_def Let_def add)
  qed
qed

lemma fold_repair_step_well_formed:
  assumes "repairing seen st" and "rp_patched st = seen" and "scan {} (seen @ xs) \<noteq> None"
  shows "rp_patched (fold repair_step xs st) = seen @ xs"
  using assms
proof (induction xs arbitrary: seen st)
  case (Cons x xs)
  have "scan {} (seen @ [x]) \<noteq> None"
    using Cons.prems(3) scan_append [of "{}" "seen @ [x]" xs] by (auto split: option.splits)
  from Cons.IH [OF repair_step_repairing [OF Cons.prems(1)] repair_step_well_formed [OF Cons.prems(1,2) this]] Cons.prems(3)
  show ?case by simp
qed simp

text \<open>C22: the repair touches nothing before the first defect. A beginning of the history in which every result answers a waiting call
  and nothing else comes while a call waits is the beginning of the repaired history, so results that were delivered are kept.
\<close>

theorem repairToolCallHistory_keeps:
  assumes "scan {} xs \<noteq> None"
  shows "\<exists>more. fst (repairToolCallHistory (xs @ ys)) = xs @ more"
proof (cases "toolCallHistoryNeedsRepair (xs @ ys)")
  case True
  let ?st0 = "\<lparr>rp_patched = [], rp_pending = [], rp_order = [], rp_changed = False\<rparr>"
  have "repairing [] ?st0" by (simp add: repairing_def)
  from fold_repair_step_well_formed [OF this, of xs] assms
  have "rp_patched (fold repair_step xs ?st0) = xs" by simp
  with fold_repair_step_keeps [of ys "fold repair_step xs ?st0"]
  have "\<exists>more. rp_patched (fold repair_step (xs @ ys) ?st0) = xs @ more" by simp
  with True show ?thesis by (auto simp: repairToolCallHistory_def flushMissing_def Let_def)
qed (simp add: repairToolCallHistory_def)

theorem repairToolCallHistory_keeps_witness:
  "scan {} [hd broken_history] \<noteq> None \<and>
   (\<exists>more. fst (repairToolCallHistory ([hd broken_history] @ tl broken_history)) = [hd broken_history] @ more)"
  using repairToolCallHistory_keeps [of "[hd broken_history]" "tl broken_history"]
  by (simp add: msg_Assistant_def msg_Text_def)

section \<open>The hook and the state\<close>

text \<open>The history that the hook leaves is complete, whether it overwrites the field or not.\<close>

lemma PatchToolCalls_complete:
  assumes "dget VNil values ''messages'' = VOpaque (AMessages ms)" and "PatchToolCalls_BeforeAgent values = Inr update"
  shows "if complete_history ms then update = []
    else \<exists>out. update = [(''messages'', VOverwrite (VOpaque (AMessages out)))] \<and> complete_history out \<and> conversation out = conversation ms"
proof -
  obtain out changed where r: "repairToolCallHistory ms = (out, changed)" by fastforce
  from repair_complete [OF r] show ?thesis
    using assms r by (auto simp: PatchToolCalls_BeforeAgent_def featureMessageView_def)
qed

end
