(* ===== verification/Agent_Updates.thy ===== *)
theory Agent_Updates
  imports Tool_History Graph_Builder
begin

text \<open>
  The state updates of an agent (\<^verbatim>\<open>dagent/agent.go\<close>): the keys of its state, and how the updates of several middleware
  hooks that run in one node are merged. A node keeps two maps: \<open>current\<close>, the state as the next hook sees it, and \<open>combined\<close>,
  the update that the graph will commit. The main theorem says that the two agree: committing the combined update to the messages
  channel yields exactly the messages that the last hook saw.
\<close>

section \<open>Keys and identifiers\<close>

abbreviation MessagesKey :: string where "MessagesKey \<equiv> ''messages''"
abbreviation StructuredResponseKey :: string where "StructuredResponseKey \<equiv> ''structured_response''"
abbreviation toolDirectKey :: string where "toolDirectKey \<equiv> ''__agent_tool_direct''"
abbreviation structuredRetryKey :: string where "structuredRetryKey \<equiv> ''__agent_structured_retry''"
abbreviation structuredRetryCountKey :: string where "structuredRetryCountKey \<equiv> ''__agent_structured_retry_count''"
abbreviation jumpToKey :: string where "jumpToKey \<equiv> ''__agent_jump_to''"

type_synonym avals = "agentVal vals"

text \<open>What one call of \<^verbatim>\<open>EnsureIDs\<close> draws: random identifiers, and texts of the clock where randomness fails.\<close>

type_synonym idgen = "(nat \<Rightarrow> string res) \<times> (nat \<Rightarrow> string)"

definition ensure :: "idgen \<Rightarrow> message list \<Rightarrow> message list" where
  "ensure g ms = EnsureIDs (fst g) (snd g) ms"

abbreviation msgs_val :: "message list \<Rightarrow> aval" where
  "msgs_val ms \<equiv> VOpaque (AMessages ms)"

definition ensureMessageIDsInValues :: "idgen \<Rightarrow> avals \<Rightarrow> avals" where
  "ensureMessageIDsInValues g values =
     (case map_of values MessagesKey of
        None \<Rightarrow> values
      | Some raw \<Rightarrow>
          (case raw of
             VOverwrite v \<Rightarrow>
               (case messagesView v of
                  Inl e \<Rightarrow> values
                | Inr messages \<Rightarrow> dput MessagesKey (VOverwrite (msgs_val (ensure g messages))) values)
           | _ \<Rightarrow>
               (case messagesView raw of
                  Inl e \<Rightarrow> values
                | Inr messages \<Rightarrow> dput MessagesKey (msgs_val (ensure g messages)) values)))"

section \<open>Merging the updates of hooks\<close>

text \<open>
  \<^verbatim>\<open>pending, _ := messagesView(combined[key])\<close>: the error is dropped, and with it the slice.
\<close>

definition pending_view :: "avals \<Rightarrow> message list" where
  "pending_view combined = (case messagesView (dget VNil combined MessagesKey) of Inl e \<Rightarrow> [] | Inr ms \<Rightarrow> ms)"

definition overwrite_messages :: "aval \<Rightarrow> message list option" where
  "overwrite_messages v =
     (case v of VOverwrite w \<Rightarrow> (case messagesFrom w of Inl e \<Rightarrow> None | Inr ms \<Rightarrow> Some ms) | _ \<Rightarrow> None)"

text \<open>The pending overwrite with the incoming messages merged in.\<close>

definition merge_overwrite :: "avals \<Rightarrow> message list \<Rightarrow> message list option" where
  "merge_overwrite combined incoming =
     (case map_of combined MessagesKey of
        Some (VOverwrite w) \<Rightarrow>
          (case messagesView w of
             Inl e \<Rightarrow> None
           | Inr pending \<Rightarrow> (case DeltaReduce pending [incoming] of Inl e \<Rightarrow> None | Inr merged \<Rightarrow> Some merged))
      | _ \<Rightarrow> None)"

definition merge_entry :: "idgen \<Rightarrow> string \<times> aval \<Rightarrow> avals \<times> avals \<Rightarrow> avals \<times> avals" where
  "merge_entry g kv cc =
     (case (kv, cc) of ((key, v), (current, combined)) \<Rightarrow>
        if key \<noteq> MessagesKey then (dput key v current, dput key v combined)
        else (case overwrite_messages v of
          Some replacement0 \<Rightarrow>
            (let replacement = ensure g replacement0
             in (dput key (msgs_val replacement) current, dput key (VOverwrite (msgs_val replacement)) combined))
        | None \<Rightarrow>
            (case (messagesView (dget VNil current key), messagesView v) of
               (Inr currentMessages, Inr incoming0) \<Rightarrow>
                 (let incoming = ensure g incoming0;
                      current' = (case DeltaReduce currentMessages [incoming] of
                                    Inl e \<Rightarrow> current | Inr merged \<Rightarrow> dput key (msgs_val merged) current)
                  in (current',
                      case merge_overwrite combined incoming of
                        Some merged \<Rightarrow> dput key (VOverwrite (msgs_val merged)) combined
                      | None \<Rightarrow> dput key (msgs_val (pending_view combined @ incoming)) combined))
             | _ \<Rightarrow> (dput key v current, dput key v combined))))"

definition mergeUpdate :: "idgen \<Rightarrow> avals \<Rightarrow> avals \<times> avals \<Rightarrow> avals \<times> avals" where
  "mergeUpdate g update cc = fold (merge_entry g) update cc"

text \<open>
  The method of the compiler: with retained threads it reduces in place and leaves the difficult cases to the function. \<open>all\<close> is
  the whole update, which those cases merge again.
\<close>

fun retained_entries :: "idgen \<Rightarrow> avals \<Rightarrow> avals \<Rightarrow> avals \<times> avals \<Rightarrow> avals \<times> avals" where
  "retained_entries g all [] cc = cc"
| "retained_entries g all ((key, v) # rest) (current, combined) =
     (if key \<noteq> MessagesKey then retained_entries g all rest (dput key v current, dput key v combined)
      else if is_overwrite v then mergeUpdate g all (current, combined)
      else (case (messagesView (dget VNil current key), messagesView v) of
        (Inr currentMessages, Inr incoming0) \<Rightarrow>
          (let incoming = ensure g incoming0
           in case DeltaReduceOwned currentMessages [incoming] of
                Inl e \<Rightarrow> mergeUpdate g all (current, combined)
              | Inr merged \<Rightarrow>
                  retained_entries g all rest
                    (dput key (msgs_val merged) current, dput key (msgs_val (pending_view combined @ incoming)) combined))
      | _ \<Rightarrow> mergeUpdate g all (current, combined)))"

definition compiler_mergeUpdate :: "bool \<Rightarrow> idgen \<Rightarrow> avals \<Rightarrow> avals \<times> avals \<Rightarrow> avals \<times> avals" where
  "compiler_mergeUpdate retain g update cc =
     (if \<not> retain then mergeUpdate g update cc else retained_entries g update update cc)"

definition mergePendingUpdate :: "avals \<Rightarrow> avals \<Rightarrow> avals" where
  "mergePendingUpdate update combined =
     fold (\<lambda>(key, v) combined.
       if key \<noteq> MessagesKey then dput key v combined
       else (case messagesView v of
         Inl e \<Rightarrow> dput key v combined
       | Inr incoming \<Rightarrow> dput key (msgs_val (pending_view combined @ incoming)) combined)) update combined"

section \<open>What the graph commits\<close>

text \<open>The messages channel, holding \<open>base\<close>, after the update of a node.\<close>

definition commit_messages :: "bool \<Rightarrow> message list \<Rightarrow> avals \<Rightarrow> message list res" where
  "commit_messages retain base combined =
     (case map_of combined MessagesKey of
        None \<Rightarrow> Inr base
      | Some v \<Rightarrow>
          (case delta_Apply ((messages_delta retain)\<lparr>d_cell := Some (msgs_val base)\<rparr>) (map delta_write (expand v)) of
             (ch, Inl e) \<Rightarrow> Inl e
           | (ch, Inr _) \<Rightarrow> (case d_cell ch of None \<Rightarrow> Inl ErrEmpty | Some w \<Rightarrow> messagesFrom w)))"

text \<open>The view of the next hook agrees with what will be committed.\<close>

definition view_agrees :: "bool \<Rightarrow> avals \<Rightarrow> message list \<Rightarrow> avals \<times> avals \<Rightarrow> bool" where
  "view_agrees retain values base cc \<longleftrightarrow>
     (\<forall>k. k \<noteq> MessagesKey \<longrightarrow> map_of (fst cc) k = (case map_of (snd cc) k of None \<Rightarrow> map_of values k | Some v \<Rightarrow> Some v)) \<and>
     (\<exists>ms. messagesView (dget VNil (fst cc) MessagesKey) = Inr ms \<and> commit_messages retain base (snd cc) = Inr ms)"

lemma DeltaReduce_total: "\<exists>merged. DeltaReduce ms ws = Inr merged"
  by (simp add: DeltaReduce_def deltaReduce_def Let_def)

lemma commit_overwrite:
  "map_of combined MessagesKey = Some (VOverwrite (msgs_val ms)) \<Longrightarrow> commit_messages retain base combined = Inr ms"
  by (simp add: commit_messages_def expand_def delta_Apply_def messages_delta_def messagesFrom_slice cloneMessageValue_def)

lemma commit_plain:
  assumes "wf_messages base" and "map_of combined MessagesKey = Some (msgs_val ms)"
  shows "commit_messages retain base combined = Inr (fold put_message ms base)"
  using assms by (simp add: commit_messages_def expand_def delta_Apply_def messages_delta_def delta_base_def
      cloneMessageValue_def messagesFrom_slice reduceMessages_spec
      reduceMessagesOwned_eq messages_value_def)


text \<open>The invariant behind the agreement: what \<open>combined\<close> holds decides what the hooks see.\<close>

definition merged_ok :: "avals \<Rightarrow> message list \<Rightarrow> avals \<times> avals \<Rightarrow> bool" where
  "merged_ok values base cc \<longleftrightarrow>
     (\<forall>k. k \<noteq> MessagesKey \<longrightarrow> map_of (fst cc) k = (case map_of (snd cc) k of None \<Rightarrow> map_of values k | Some v \<Rightarrow> Some v)) \<and>
     (\<exists>ms. messagesView (dget VNil (fst cc) MessagesKey) = Inr ms \<and>
        (map_of (snd cc) MessagesKey = None \<and> ms = base \<or>
         map_of (snd cc) MessagesKey = Some (VOverwrite (msgs_val ms)) \<or>
         (\<exists>p. map_of (snd cc) MessagesKey = Some (msgs_val p) \<and> ms = fold put_message p base)))"

lemma merged_ok_agrees: "wf_messages base \<Longrightarrow> merged_ok values base cc \<Longrightarrow> view_agrees retain values base cc"
  by (auto simp: merged_ok_def view_agrees_def commit_overwrite commit_plain) (simp_all add: commit_messages_def)

text \<open>An update whose messages can be read, as a replacement or as a list to merge.\<close>

definition readable :: "aval \<Rightarrow> bool" where
  "readable v \<longleftrightarrow> overwrite_messages v \<noteq> None \<or> (\<exists>ms. messagesView v = Inr ms)"

definition update_ok :: "avals \<Rightarrow> bool" where
  "update_ok u \<longleftrightarrow> (\<forall>v. (MessagesKey, v) \<in> set u \<longrightarrow> readable v)"

lemma messagesView_overwrite: "messagesView (VOverwrite w) = Inl (Errorf ''agent messages have type %T'')"
  by (simp add: messagesView_def messagesFrom_def)

lemma messagesView_val [simp]: "messagesView (msgs_val ms) = Inr ms"
  by (simp add: messagesView_def)

lemma pending_view_cases:
  "map_of combined MessagesKey = None \<Longrightarrow> pending_view combined = []"
  "map_of combined MessagesKey = Some (msgs_val p) \<Longrightarrow> pending_view combined = p"
  "map_of combined MessagesKey = Some (VOverwrite w) \<Longrightarrow> pending_view combined = []"
  by (simp_all add: pending_view_def dget_def messagesView_overwrite) (simp add: messagesView_def messagesFrom_def)

lemma merge_overwrite_cases:
  "map_of combined MessagesKey = None \<Longrightarrow> merge_overwrite combined incoming = None"
  "map_of combined MessagesKey = Some (msgs_val p) \<Longrightarrow> merge_overwrite combined incoming = None"
  "map_of combined MessagesKey = Some (VOverwrite (msgs_val p)) \<Longrightarrow>
     merge_overwrite combined incoming = (case DeltaReduce p [incoming] of Inl e \<Rightarrow> None | Inr merged \<Rightarrow> Some merged)"
  by (simp_all add: merge_overwrite_def)

lemma merge_entry_ok:
  assumes wf: "wf_messages base" and ok: "merged_ok values base cc" and r: "fst kv = MessagesKey \<Longrightarrow> readable (snd kv)"
  shows "merged_ok values base (merge_entry g kv cc)"
proof -
  obtain key v current combined where [simp]: "kv = (key, v)" "cc = (current, combined)" by (metis surj_pair)
  show ?thesis
  proof (cases "key = MessagesKey")
    case False
    then show ?thesis using ok by (auto simp: merge_entry_def merged_ok_def dget_def)
  next
    case True
    show ?thesis
    proof (cases "overwrite_messages v")
      case (Some replacement)
      with True ok show ?thesis by (auto simp: merge_entry_def merged_ok_def Let_def)
    next
      case None
      with r True obtain incoming0 where inc: "messagesView v = Inr incoming0" by (auto simp: readable_def)
      from ok obtain ms where ms: "messagesView (dget VNil current MessagesKey) = Inr ms" by (auto simp: merged_ok_def)
      obtain merged where m: "DeltaReduce ms [ensure g incoming0] = Inr merged" using DeltaReduce_total by blast
      have fold: "merged = fold put_message (ensure g incoming0) ms" if "wf_messages ms"
        using DeltaReduce_refines [OF that, of "[ensure g incoming0]"] m by simp
      from True None inc ms m have eq: "merge_entry g kv cc = (dput MessagesKey (msgs_val merged) current,
          case merge_overwrite combined (ensure g incoming0) of
            Some merged \<Rightarrow> dput MessagesKey (VOverwrite (msgs_val merged)) combined
          | None \<Rightarrow> dput MessagesKey (msgs_val (pending_view combined @ ensure g incoming0)) combined)"
        by (simp add: merge_entry_def Let_def)
      from ok ms consider "map_of combined MessagesKey = None" "ms = base"
        | "map_of combined MessagesKey = Some (VOverwrite (msgs_val ms))"
        | p where "map_of combined MessagesKey = Some (msgs_val p)" "ms = fold put_message p base"
        by (auto simp: merged_ok_def)
      then show ?thesis
      proof cases
        case 1
        with ok fold wf show ?thesis unfolding eq
          by (auto simp: merged_ok_def merge_overwrite_cases pending_view_cases)
      next
        case 2
        with ok m show ?thesis unfolding eq
          by (auto simp: merged_ok_def merge_overwrite_cases)
      next
        case 3
        with ok fold [OF fold_put_message_wf [OF wf, of p, folded 3(2)]] show ?thesis unfolding eq
          by (auto simp: merged_ok_def merge_overwrite_cases pending_view_cases)
      qed
    qed
  qed
qed

lemma mergeUpdate_ok:
  assumes "wf_messages base" and "merged_ok values base cc" and "update_ok u"
  shows "merged_ok values base (mergeUpdate g u cc)"
  using assms(2,3) unfolding mergeUpdate_def
proof (induction u arbitrary: cc)
  case (Cons kv u)
  have "merged_ok values base (merge_entry g kv cc)"
    using Cons.prems by (intro merge_entry_ok assms(1)) (auto simp: update_ok_def, metis prod.collapse)
  with Cons show ?case by (simp add: update_ok_def)
qed simp

lemma readable_plain: "readable v \<Longrightarrow> \<not> is_overwrite v \<Longrightarrow> \<exists>ms. messagesView v = Inr ms"
  by (cases v) (simp_all add: readable_def overwrite_messages_def is_overwrite_def)

text \<open>With retained threads, as long as no plain messages come after an overwrite.\<close>

definition pending_overwrite :: "avals \<Rightarrow> bool" where
  "pending_overwrite u \<longleftrightarrow> (\<exists>w. map_of u MessagesKey = Some (VOverwrite w))"

definition plain_messages :: "avals \<Rightarrow> bool" where
  "plain_messages u \<longleftrightarrow> (\<exists>v. (MessagesKey, v) \<in> set u \<and> \<not> is_overwrite v)"

lemma retained_entries_ok:
  assumes wf: "wf_messages base" and all: "update_ok all"
  shows "merged_ok values base cc \<Longrightarrow> update_ok u \<Longrightarrow> (pending_overwrite (snd cc) \<longrightarrow> \<not> plain_messages u) \<Longrightarrow>
    merged_ok values base (retained_entries g all u cc)"
proof (induction u arbitrary: cc)
  case (Cons kv u)
  obtain key v current combined where [simp]: "kv = (key, v)" "cc = (current, combined)" by (metis surj_pair)
  have fallback: "merged_ok values base (mergeUpdate g all cc)" by (rule mergeUpdate_ok [OF wf Cons.prems(1) all])
  have u: "update_ok u" "plain_messages u \<Longrightarrow> plain_messages (kv # u)"
    using Cons.prems(2) by (auto simp: update_ok_def plain_messages_def)
  show ?case
  proof (cases "key = MessagesKey")
    case False
    have "merged_ok values base (merge_entry g (key, v) cc)"
      using False by (intro merge_entry_ok [OF wf Cons.prems(1)]) simp
    with False have "merged_ok values base (dput key v current, dput key v combined)"
      by (simp add: merge_entry_def)
    from Cons.IH [OF this u(1)] u(2) Cons.prems(3) False show ?thesis by (auto simp: pending_overwrite_def)
  next
    case key: True
    show ?thesis
    proof (cases "is_overwrite v")
      case True
      with key fallback show ?thesis by simp
    next
      case False
      with Cons.prems(3) key have np: "\<not> pending_overwrite combined" by (auto simp: plain_messages_def)
      from False Cons.prems(2) key obtain incoming0 where inc: "messagesView v = Inr incoming0"
        using readable_plain by (auto simp: update_ok_def)
      from Cons.prems(1) obtain ms where ms: "messagesView (dget VNil current MessagesKey) = Inr ms"
        by (auto simp: merged_ok_def)
      from np Cons.prems(1) ms have cases: "map_of combined MessagesKey = None \<and> ms = base \<or>
          (\<exists>p. map_of combined MessagesKey = Some (msgs_val p) \<and> ms = fold put_message p base)"
        by (auto simp: merged_ok_def pending_overwrite_def)
      then have "wf_messages ms" using wf by (auto intro: fold_put_message_wf)
      then have red: "DeltaReduceOwned ms [ensure g incoming0] = Inr (fold put_message (ensure g incoming0) ms)"
        by (simp add: DeltaReduceOwned_refines)
      let ?cc = "(dput MessagesKey (msgs_val (fold put_message (ensure g incoming0) ms)) current,
        dput MessagesKey (msgs_val (pending_view combined @ ensure g incoming0)) combined)"
      have "merged_ok values base ?cc"
        using cases Cons.prems(1) by (auto simp: merged_ok_def pending_view_cases)
      from Cons.IH [OF this u(1)] key False inc ms red show ?thesis by (simp add: pending_overwrite_def Let_def)
    qed
  qed
qed simp


definition overwrites :: "avals \<Rightarrow> bool" where
  "overwrites u \<longleftrightarrow> (\<exists>v. (MessagesKey, v) \<in> set u \<and> is_overwrite v)"

text \<open>Some update merges messages after an earlier one has replaced them.\<close>

fun late_messages :: "avals list \<Rightarrow> bool" where
  "late_messages [] = False"
| "late_messages (u # us) = (overwrites u \<and> (\<exists>u' \<in> set us. plain_messages u') \<or> late_messages us)"

lemma pending_overwrite_dput:
  "pending_overwrite (dput k v u) \<longleftrightarrow> (if k = MessagesKey then is_overwrite v else pending_overwrite u)"
  by (cases v) (auto simp: pending_overwrite_def is_overwrite_def)

lemma overwrite_messages_is: "overwrite_messages v = Some ms \<Longrightarrow> is_overwrite v"
  by (cases v) (simp_all add: overwrite_messages_def is_overwrite_def)

lemma merge_overwrite_pending: "merge_overwrite combined inc = Some m \<Longrightarrow> pending_overwrite combined"
  by (simp add: merge_overwrite_def pending_overwrite_def split: option.splits gval.splits)

lemma merge_entry_pending:
  assumes "pending_overwrite (snd (merge_entry g (k, v) (current, combined)))"
  shows "pending_overwrite combined \<or> k = MessagesKey \<and> is_overwrite v"
proof (cases "k = MessagesKey \<and> overwrite_messages v = None")
  case True
  then show ?thesis
    using assms merge_overwrite_pending
    by (auto simp: merge_entry_def pending_overwrite_dput Let_def is_overwrite_def split: sum.splits option.splits)
next
  case False
  then show ?thesis
    using assms by (cases "k = MessagesKey") (auto simp: merge_entry_def pending_overwrite_dput overwrite_messages_is)
qed

lemma mergeUpdate_pending:
  "pending_overwrite (snd (mergeUpdate g u cc)) \<Longrightarrow> pending_overwrite (snd cc) \<or> overwrites u"
proof (induction u arbitrary: cc)
  case (Cons kv u)
  then have "pending_overwrite (snd (merge_entry g kv cc)) \<or> overwrites u" by (simp add: mergeUpdate_def)
  then show ?case using merge_entry_pending [of g "fst kv" "snd kv" "fst cc" "snd cc"]
    by (auto simp: overwrites_def) (metis prod.collapse)
qed (simp add: mergeUpdate_def)

lemma retained_entries_pending:
  "pending_overwrite (snd (retained_entries g all u cc)) \<Longrightarrow> pending_overwrite (snd cc) \<or> overwrites all \<or> overwrites u"
proof (induction u arbitrary: cc)
  case (Cons kv rest)
  obtain key v current combined where [simp]: "kv = (key, v)" "cc = (current, combined)" by (metis surj_pair)
  have fb: "pending_overwrite (snd (mergeUpdate g all (current, combined))) \<Longrightarrow> pending_overwrite combined \<or> overwrites all"
    using mergeUpdate_pending [of g all "(current, combined)"] by simp
  have sub: "overwrites rest \<Longrightarrow> overwrites ((key, v) # rest)" by (auto simp: overwrites_def)
  show ?case
  proof (cases "key = MessagesKey")
    case False
    with Cons sub show ?thesis by (fastforce simp: pending_overwrite_dput)
  next
    case key: True
    show ?thesis
    proof (cases "is_overwrite v")
      case True
      with key show ?thesis by (auto simp: overwrites_def)
    next
      case False
      have plain: "\<not> pending_overwrite (dput MessagesKey (msgs_val ms) combined)" for ms
        by (simp add: pending_overwrite_dput is_overwrite_def)
      from False key Cons.prems fb sub Cons.IH plain show ?thesis
        by (fastforce simp: Let_def split: sum.splits)
    qed
  qed
qed simp

lemma compiler_mergeUpdate_ok:
  assumes "wf_messages base" and "merged_ok values base cc" and "update_ok u"
    and "retain \<Longrightarrow> pending_overwrite (snd cc) \<Longrightarrow> \<not> plain_messages u"
  shows "merged_ok values base (compiler_mergeUpdate retain g u cc)"
  using assms by (simp add: compiler_mergeUpdate_def mergeUpdate_ok retained_entries_ok)

lemma compiler_mergeUpdate_pending:
  "pending_overwrite (snd (compiler_mergeUpdate retain g u cc)) \<Longrightarrow> pending_overwrite (snd cc) \<or> overwrites u"
  using mergeUpdate_pending retained_entries_pending by (fastforce simp: compiler_mergeUpdate_def split: if_splits)

lemma merge_updates_ok:
  assumes "wf_messages base" and "merged_ok values base cc" and "list_all (\<lambda>gu. update_ok (snd gu)) gus"
    and "retain \<Longrightarrow> \<not> late_messages (map snd gus)"
    and "retain \<Longrightarrow> pending_overwrite (snd cc) \<Longrightarrow> \<not> (\<exists>u' \<in> set (map snd gus). plain_messages u')"
  shows "merged_ok values base (fold (\<lambda>(g, u). compiler_mergeUpdate retain g u) gus cc)"
  using assms(2-)
proof (induction gus arbitrary: cc)
  case (Cons gu gus)
  obtain g u where gu: "gu = (g, u)" by (cases gu)
  have "merged_ok values base (compiler_mergeUpdate retain g u cc)"
    using Cons.prems gu by (intro compiler_mergeUpdate_ok assms(1)) auto
  moreover have "\<not> (\<exists>u' \<in> set (map snd gus). plain_messages u')"
    if "retain" "pending_overwrite (snd (compiler_mergeUpdate retain g u cc))"
    using compiler_mergeUpdate_pending [OF that(2)] Cons.prems(3,4) that(1) gu by auto
  ultimately show ?case using Cons.IH [of "compiler_mergeUpdate retain g u cc"] Cons.prems gu by auto
qed simp


abbreviation sample_gen :: idgen where
  "sample_gen \<equiv> (\<lambda>n. Inr (''u'' @ dec_string n), \<lambda>n. ''t'')"

text \<open>One hook clears the history and a later one adds a message.\<close>

abbreviation clear_then_add :: "(idgen \<times> avals) list" where
  "clear_then_add \<equiv> [(sample_gen, [(MessagesKey, VOverwrite (msgs_val []))]), (sample_gen, [(MessagesKey, msgs_val [sample_reply])])]"


text \<open>
  With retained threads a replacement of the history is lost when a later hook adds messages: the hooks see the new history
  with the addition, and the graph commits the addition to the old history.
\<close>

theorem retained_overwrite_lost:
  assumes "wf_messages base" and "messagesView (dget VNil current MessagesKey) = Inr ms" and "wf_messages ms"
    and "map_of combined MessagesKey = Some (VOverwrite w)" and "messagesView v = Inr incoming"
    and "compiler_mergeUpdate True g [(MessagesKey, v)] (current, combined) = (current', combined')"
  shows "messagesView (dget VNil current' MessagesKey) = Inr (fold put_message (ensure g incoming) ms) \<and>
    commit_messages True base combined' = Inr (fold put_message (ensure g incoming) base)"
proof -
  have "\<not> is_overwrite v" using assms(5) by (auto simp: is_overwrite_def messagesView_overwrite split: gval.splits)
  with assms have "current' = dput MessagesKey (msgs_val (fold put_message (ensure g incoming) ms)) current"
    "combined' = dput MessagesKey (msgs_val (ensure g incoming)) combined"
    by (simp_all add: compiler_mergeUpdate_def DeltaReduceOwned_refines pending_view_cases Let_def)
  with assms(1) show ?thesis by (simp add: commit_plain)
qed

theorem retained_overwrite_lost_witness:
  "view_agrees True [(MessagesKey, msgs_val [sample_human])] [sample_human]
     (fold (\<lambda>(g, u). compiler_mergeUpdate True g u) clear_then_add ([(MessagesKey, msgs_val [sample_human])], [])) = False"
proof -
  have wf: "wf_messages [sample_human]" by (simp add: wf_messages_def sample_human_def msg_Human_def msg_Text_def)
  define st where "st = compiler_mergeUpdate True sample_gen [(MessagesKey, VOverwrite (msgs_val []))] ([(MessagesKey, msgs_val [sample_human])], [])"
  have st: "st = ([(MessagesKey, msgs_val [])], [(MessagesKey, VOverwrite (msgs_val []))])"
    by (simp add: st_def compiler_mergeUpdate_def is_overwrite_def mergeUpdate_def merge_entry_def overwrite_messages_def
        messagesFrom_def ensure_def EnsureIDs_def)
  obtain current' combined' where r: "compiler_mergeUpdate True sample_gen [(MessagesKey, msgs_val [sample_reply])] st = (current', combined')"
    by fastforce
  have e: "ensure g [sample_reply] = [sample_reply]" for g
    by (simp add: ensure_def EnsureIDs_def sample_reply_def)
  have "messagesView (dget VNil current' MessagesKey) = Inr (fold put_message [sample_reply] []) \<and>
      commit_messages True [sample_human] combined' = Inr (fold put_message [sample_reply] [sample_human])"
    using retained_overwrite_lost [OF wf _ _ _ _ r [unfolded st], of "[]" "msgs_val []" "[sample_reply]"]
    by (simp add: dget_def e)
  moreover have "put_message sample_reply [] \<noteq> put_message sample_reply [sample_human]"
    by (simp add: put_message_def is_reset_def sample_defs)
  moreover have "fold (\<lambda>(g, u). compiler_mergeUpdate True g u) clear_then_add ([(MessagesKey, msgs_val [sample_human])], []) =
      (current', combined')"
    using r by (simp add: st_def)
  ultimately show ?thesis by (simp only: view_agrees_def fst_conv snd_conv) simp
qed

text \<open>The node that calls the model has no other way to combine when no hook runs after the model.\<close>

lemma mergePendingUpdate_overwrite_lost:
  "map_of combined MessagesKey = Some (VOverwrite w) \<Longrightarrow> messagesView v = Inr incoming \<Longrightarrow>
   map_of (mergePendingUpdate [(MessagesKey, v)] combined) MessagesKey = Some (msgs_val incoming)"
  by (simp add: mergePendingUpdate_def pending_view_cases)

end
