(* ===== verification/Agent_Types.thy ===== *)
theory Agent_Types
  imports Agent_Updates
begin

text \<open>
  The interfaces of an agent (\<^verbatim>\<open>dagent/types.go\<close>, \<^verbatim>\<open>datool/tool.go\<close>): tools with their results, middleware with its hooks
  and wrappers, state fields, and the agent's options.

  Tools, hooks, wrappers and models are code of the application or of a service. They run as actions: functions of a stamp (the call
  of the node and a number that grows with every external call in it), so that the same request may be answered differently each
  time, by a value or an error.
\<close>

section \<open>Actions\<close>

datatype stamp = Stamp (st_call: nat) (st_count: nat)

type_synonym 'a io = "stamp \<Rightarrow> stamp \<times> 'a res"

definition io_ret :: "'a \<Rightarrow> 'a io" where "io_ret x t = (t, Inr x)"
definition io_fail :: "gerr \<Rightarrow> 'a io" where "io_fail e t = (t, Inl e)"
definition io_of :: "'a res \<Rightarrow> 'a io" where "io_of r t = (t, r)"

definition io_bind :: "'a io \<Rightarrow> ('a \<Rightarrow> 'b io) \<Rightarrow> 'b io" where
  "io_bind m f t = (case m t of (t', Inl e) \<Rightarrow> (t', Inl e) | (t', Inr x) \<Rightarrow> f x t')"

text \<open>The value and the error of a call, as its caller receives them.\<close>

definition io_try :: "'a io \<Rightarrow> 'a res io" where
  "io_try m t = (case m t of (t', r) \<Rightarrow> (t', Inr r))"

definition io_wrap :: "string \<Rightarrow> 'a io \<Rightarrow> 'a io" where
  "io_wrap text m t = (case m t of (t', r) \<Rightarrow> (t', res_wrap text r))"

text \<open>A value drawn from outside: each call has a stamp of its own.\<close>

definition io_draw :: "(stamp \<Rightarrow> 'a) \<Rightarrow> 'a io" where
  "io_draw f t = (Stamp (st_call t) (Suc (st_count t)), Inr (f t))"

fun io_map :: "('a \<Rightarrow> 'b io) \<Rightarrow> 'a list \<Rightarrow> 'b list io" where
  "io_map f [] = io_ret []"
| "io_map f (x # xs) = io_bind (f x) (\<lambda>y. io_bind (io_map f xs) (\<lambda>ys. io_ret (y # ys)))"

fun io_fold :: "('a \<Rightarrow> 's \<Rightarrow> 's io) \<Rightarrow> 'a list \<Rightarrow> 's \<Rightarrow> 's io" where
  "io_fold f [] s = io_ret s"
| "io_fold f (x # xs) s = io_bind (f x s) (io_fold f xs)"

named_theorems io_simps \<open>results of actions\<close>

lemma io_ret_result [io_simps]: "io_ret x t = (t', r) \<longleftrightarrow> t' = t \<and> r = Inr x"
  by (auto simp: io_ret_def)

lemma io_fail_result [io_simps]: "io_fail e t = (t', r) \<longleftrightarrow> t' = t \<and> r = Inl e"
  by (auto simp: io_fail_def)

lemma io_bind_Inr [io_simps]:
  "io_bind m f t = (t', Inr y) \<longleftrightarrow> (\<exists>t1 x. m t = (t1, Inr x) \<and> f x t1 = (t', Inr y))"
  by (auto simp: io_bind_def split: prod.splits sum.splits)

lemma io_wrap_Inr [io_simps]: "io_wrap text m t = (t', Inr x) \<longleftrightarrow> m t = (t', Inr x)"
  by (auto simp: io_wrap_def res_wrap_def split: prod.splits sum.splits)

lemma io_of_Inr [io_simps]: "io_of r t = (t', Inr x) \<longleftrightarrow> t' = t \<and> r = Inr x"
  by (auto simp: io_of_def)

lemma io_draw_result [io_simps]: "io_draw f t = (t', r) \<longleftrightarrow> t' = Stamp (st_call t) (Suc (st_count t)) \<and> r = Inr (f t)"
  by (auto simp: io_draw_def)

lemma io_try_result [io_simps]: "io_try m t = (t', Inr r) \<longleftrightarrow> m t = (t', r)"
  by (auto simp: io_try_def split: prod.splits)

definition io_yields :: "'a io \<Rightarrow> 'a \<Rightarrow> bool" where
  "io_yields m y \<longleftrightarrow> (\<exists>s s'. m s = (s', Inr y))"

lemma io_map_Inr: "io_map f xs t = (t', Inr ys) \<Longrightarrow> list_all2 (\<lambda>x. io_yields (f x)) xs ys"
proof (induction xs arbitrary: t ys)
  case (Cons x xs)
  then obtain t1 y zs where y: "f x t = (t1, Inr y)" and zs: "io_map f xs t1 = (t', Inr zs)" and "ys = y # zs"
    by (auto simp: io_simps)
  moreover from y have "io_yields (f x) y" unfolding io_yields_def by blast
  ultimately show ?case using Cons.IH by simp
qed (simp add: io_simps)

section \<open>Tools\<close>

record toolDefinition =
  td_name :: string
  td_description :: string
  td_inputSchema :: string
  td_strict :: bool
  td_direct :: bool
  td_extra :: "(string, string) dict"

record toolRuntime =
  trt_callID :: string
  trt_taskID :: string
  trt_threadID :: string
  trt_namespace :: string
  trt_checkpointID :: string
  trt_resume :: aval
  trt_state :: avals
  trt_deps :: aval
  trt_configurable :: avals

text \<open>A handoff is its destination; the empty status means success.\<close>

record toolResult =
  tlr_content :: "contentBlock list"
  tlr_structured :: string
  tlr_status :: toolStatus
  tlr_artifact :: string
  tlr_otherUsage :: "(string \<times> usage) list"
  tlr_update :: avals
  tlr_interrupt :: "agentVal interrupt option"
  tlr_handoff :: "string option"

record tool =
  tl_definition :: toolDefinition
  tl_execute :: "string \<Rightarrow> toolRuntime \<Rightarrow> toolResult io"

record toolCallRequest =
  tq_call :: toolCall
  tq_tool :: "tool option"
  tq_state :: avals
  tq_runtime :: "agentVal runtime"

record toolCallResponse =
  tp_result :: toolResult
  tp_call :: "toolCall option"

type_synonym toolHandler = "toolCallRequest \<Rightarrow> toolCallResponse io"
type_synonym toolWrapper = "toolCallRequest \<Rightarrow> toolHandler \<Rightarrow> toolCallResponse io"

record toolBatchRequest =
  bq_calls :: "toolCall list"
  bq_tools :: "(string, tool) dict"
  bq_state :: avals
  bq_runtime :: "agentVal runtime"

text \<open>A nil slice of calls means that the calls stay as they are.\<close>

record toolBatchResponse =
  bp_calls :: "toolCall list option"
  bp_messages :: "message list"
  bp_interrupt :: "agentVal interrupt option"
  bp_resumeConsumed :: bool

type_synonym toolBatchHook = "toolBatchRequest \<Rightarrow> toolBatchResponse io"
type_synonym hook = "avals \<Rightarrow> agentVal runtime \<Rightarrow> avals io"

section \<open>Models\<close>

text \<open>
  What the agent passes to a chat model and receives from it. The settings that wrappers may set and the agent only forwards (tool
  choice, prompt cache, reasoning, skills, metadata, tags) are one opaque value, zero when nothing is set; the metadata and tags of
  the run, which wrappers see and the provider does not, are another (\<open>mq_invocation\<close>).
\<close>

record responseFormat =
  rf_name :: string
  rf_description :: string
  rf_schema :: string
  rf_strict :: bool

record providerRequest =
  pq_messages :: "message list"
  pq_systemMessage :: "message option"
  pq_tools :: "toolDefinition list"
  pq_responseFormat :: "responseFormat option"
  pq_settings :: nat

record modelResult =
  mr_message :: message
  mr_structured :: string

record chunk =
  ck_messageDelta :: message
  ck_structured :: string

record profile =
  pf_structuredOutput :: bool
  pf_supportsSeparateSystemMessage :: bool
  pf_nativeStreaming :: bool

text \<open>A stream ends or breaks off with an error.\<close>

record chat =
  ch_profile :: profile
  ch_invoke :: "providerRequest \<Rightarrow> modelResult io"
  ch_stream :: "providerRequest \<Rightarrow> (chunk list \<times> gerr option) io"

text \<open>A model that binds tools returns another model.\<close>

record boundChat =
  bc_chat :: chat
  bc_bindTools :: "(toolDefinition list \<Rightarrow> chat res) option"

record modelRequest =
  mq_model :: boundChat
  mq_messages :: "message list"
  mq_systemMessage :: message
  mq_tools :: "tool list"
  mq_responseFormat :: "responseFormat option"
  mq_settings :: nat
  mq_state :: avals
  mq_runtime :: "agentVal runtime"
  mq_messagesReadOnly :: bool
  mq_invocation :: nat

record modelResponse =
  mp_messages :: "message list"
  mp_structured :: string
  mp_update :: avals

type_synonym modelCallHandler = "modelRequest \<Rightarrow> modelResponse io"
type_synonym modelWrapper = "modelRequest \<Rightarrow> modelCallHandler \<Rightarrow> modelResponse io"

section \<open>Fields, middleware, options\<close>

datatype agentFieldKind = AFieldLast | AFieldAggregate | AFieldDelta | AFieldEphemeral | AFieldOther string

record stateField =
  sf_kind :: agentFieldKind
  sf_contract :: string
  sf_private :: bool
  sf_initial :: "aval option"
  sf_reduce :: "aval reducer option"
  sf_clone :: "(aval \<Rightarrow> aval) option"
  sf_snapshotFrequency :: "64 word"

definition stateField_validate :: "stateField \<Rightarrow> unit res" where
  "stateField_validate field =
     (if sf_contract field = [] \<or> sf_clone field = None
      then Inl (Errorf ''agent state field %q requires contract and cloner'')
      else case sf_kind field of
        AFieldLast \<Rightarrow> Inr ()
      | AFieldEphemeral \<Rightarrow> Inr ()
      | AFieldOther k \<Rightarrow> Inl (Errorf ''agent state field %q has unsupported kind %q'')
      | kind \<Rightarrow>
          if sf_initial field = None \<or> sf_reduce field = None
          then Inl (Errorf ''agent state field %q requires initial value and reducer'')
          else if kind = AFieldDelta \<and> sf_snapshotFrequency field = 0
          then Inl (Errorf ''agent delta state field %q requires snapshot frequency'')
          else Inr ())"

record middleware =
  mw_name :: string
  mw_fields :: "(string, stateField) dict"
  mw_tools :: "tool option list"
  mw_beforeAgent :: "hook option"
  mw_beforeModel :: "hook option"
  mw_wrapModelCall :: "modelWrapper option"
  mw_afterModel :: "hook option"
  mw_beforeTools :: "toolBatchHook option"
  mw_wrapToolCall :: "toolWrapper option"
  mw_afterAgent :: "hook option"

definition no_middleware :: "string \<Rightarrow> middleware" where
  "no_middleware name = \<lparr>mw_name = name, mw_fields = [], mw_tools = [], mw_beforeAgent = None, mw_beforeModel = None,
     mw_wrapModelCall = None, mw_afterModel = None, mw_beforeTools = None, mw_wrapToolCall = None, mw_afterAgent = None\<rparr>"

datatype structuredStrategy = StrategyUnset | StructuredAuto | StructuredProvider | StructuredTool | StrategyOther string

text \<open>\<open>so_compiled\<close> is the compiled JSON schema as the function that validates a document.\<close>

record structuredOutput =
  so_strategy :: structuredStrategy
  so_name :: string
  so_description :: string
  so_schema :: string
  so_strict :: bool
  so_handleErrors :: bool
  so_maxRetries :: int
  so_toolMessageContent :: string
  so_compiled :: "(string \<Rightarrow> unit res) option"

record ('s) agentOptions =
  op_name :: string
  op_tools :: "tool option list"
  op_systemMessage :: message
  op_middleware :: "middleware list"
  op_stateFields :: "(string, stateField) dict"
  op_structuredOutput :: "structuredOutput option"
  op_saver :: "(agentVal, 's) saver option"
  op_retainThreadState :: bool
  op_deps :: aval
  op_recursionLimit :: int
  op_maxConcurrency :: int
  op_failOnToolError :: bool
  op_invocation :: nat

record 's compiler =
  cp_chat :: boundChat
  cp_options :: "'s agentOptions"
  cp_tools :: "(string, tool) dict"
  cp_fields :: "(string, stateField) dict"

text \<open>
  The library code and the surroundings an agent uses: validity of JSON texts, the \<^verbatim>\<open>type\<close> of a JSON schema (absent, not a
  string, or a string; an error when the schema is not an object), the schema compiler, the encoding of handoffs and values, the
  texts of errors, the errors a tool propagates, the identifiers, the context (\<open>ae_done\<close>: whether waiting for a slot ends with the
  context's error), and the event writer.
\<close>

record toolProgress =
  pg_callID :: string
  pg_name :: string
  pg_output :: string
  pg_status :: toolStatus

record agentEnv =
  ae_jsonValid :: "string \<Rightarrow> bool"
  ae_schemaType :: "string \<Rightarrow> string option option res"
  ae_compileSchema :: "string \<Rightarrow> (string \<Rightarrow> unit res) res"
  ae_marshalHandoff :: "string \<Rightarrow> string"
  ae_unmarshalHandoff :: "string \<Rightarrow> string option"
  ae_marshalValue :: "aval \<Rightarrow> string res"
  ae_errorText :: "gerr \<Rightarrow> string"
  ae_propagates :: "gerr \<Rightarrow> bool"
  ae_ids :: "stamp \<Rightarrow> idgen"
  ae_done :: "stamp \<Rightarrow> gerr option"
  ae_toolWriter :: "(stamp \<Rightarrow> toolProgress \<Rightarrow> gerr option) option"
  ae_streamWriter :: "(stamp \<Rightarrow> chunk \<Rightarrow> gerr option) option"

definition convertRuntime :: "agentVal runtime \<Rightarrow> agentVal runtime" where
  "convertRuntime runtime = runtime\<lparr>rt_configurable := map (\<lambda>(k, v). (k, clone_any v)) (rt_configurable runtime),
     rt_previous := values_Clone (rt_previous runtime)\<rparr>"

text \<open>The wrappers of the middleware around a handler: the first one is outermost.\<close>

definition wrap_handler :: "(('q \<Rightarrow> 'p io) \<Rightarrow> 'q \<Rightarrow> 'p io) option list \<Rightarrow> ('q \<Rightarrow> 'p io) \<Rightarrow> 'q \<Rightarrow> 'p io" where
  "wrap_handler wrappers handler = foldr (\<lambda>w next. case w of None \<Rightarrow> next | Some f \<Rightarrow> f next) wrappers handler"

end
