(* ===== verification/Agent_Stream.thy ===== *)
theory Agent_Stream
  imports Agent_Types
begin

text \<open>
  Streaming a model's answer (\<^verbatim>\<open>invokeModelStream\<close>, \<^verbatim>\<open>mergeModelChunk\<close> and \<^verbatim>\<open>streamSafeChunk\<close> of
  \<^verbatim>\<open>dagent/agent.go\<close>): the chunks are written to the event stream as they come and merged into one response. The theorem is that
  nothing of the answer is lost, repeated or reordered: its text and its tool calls are those of the chunks in their order.
\<close>

section \<open>Merging chunks\<close>

definition BlockReasoning :: string where "BlockReasoning = ''reasoning''"

text \<open>The last index below \<open>n\<close> whose element satisfies \<open>P\<close>.\<close>

fun down_index :: "('a \<Rightarrow> bool) \<Rightarrow> 'a list \<Rightarrow> nat \<Rightarrow> nat option" where
  "down_index P xs 0 = None"
| "down_index P xs (Suc i) = (if P (xs ! i) then Some i else down_index P xs i)"

definition merge_raw :: "(string, string) dict \<Rightarrow> (string, string) dict \<Rightarrow> (string, string) dict" where
  "merge_raw into from_map = fold (\<lambda>(k, v). dput k (cloneSlice v)) from_map into"

definition text_target :: "contentBlock list \<Rightarrow> contentBlock \<Rightarrow> nat option" where
  "text_target content block =
     (if cb_type block = BlockText \<and> content \<noteq> [] then
        if cb_type (content ! (length content - 1)) = BlockText then Some (length content - 1)
        else if cb_text block = [] \<and> (cb_citations block \<noteq> [] \<or> cb_extra block \<noteq> [])
        then down_index (\<lambda>b. cb_type b = BlockText) content (length content)
        else None
      else None)"

definition merge_text :: "contentBlock \<Rightarrow> contentBlock \<Rightarrow> contentBlock" where
  "merge_text block current = current\<lparr>
     cb_text := cb_text current @ cb_text block,
     cb_citations := cb_citations current @ cb_citations block,
     cb_id := (if cb_id current = [] then cb_id block else cb_id current),
     cb_extra := merge_raw (cb_extra current) (cb_extra block)\<rparr>"

definition reasoning_target :: "contentBlock list \<Rightarrow> contentBlock \<Rightarrow> nat option" where
  "reasoning_target content block =
     (if cb_type block = BlockReasoning
      then down_index (\<lambda>b. \<not> (cb_type b \<noteq> BlockReasoning \<or> (cb_id block \<noteq> [] \<and> cb_id b \<noteq> [] \<and> cb_id b \<noteq> cb_id block)))
        content (length content)
      else None)"

definition merge_reasoning :: "contentBlock \<Rightarrow> contentBlock \<Rightarrow> contentBlock" where
  "merge_reasoning block current = current\<lparr>
     cb_reasoning := cb_reasoning current @ cb_reasoning block,
     cb_id := (if cb_id current = [] then cb_id block else cb_id current),
     cb_extra := merge_raw (cb_extra current) (cb_extra block)\<rparr>"

definition merge_block :: "contentBlock \<Rightarrow> contentBlock list \<Rightarrow> contentBlock list" where
  "merge_block block content =
     (case text_target content block of
        Some i \<Rightarrow> content[i := merge_text block (content ! i)]
      | None \<Rightarrow>
          (case reasoning_target content block of
             Some i \<Rightarrow> content[i := merge_reasoning block (content ! i)]
           | None \<Rightarrow> content @ [block]))"

definition mergeModelChunk :: "chunk \<Rightarrow> modelResult \<Rightarrow> modelResult" where
  "mergeModelChunk ck response =
     (let delta = ck_messageDelta ck; m = mr_message response
      in response\<lparr>mr_message := m\<lparr>
           msg_id := (if msg_id m = [] then msg_id delta else msg_id m),
           msg_name := (if msg_name m = [] then msg_name delta else msg_name m),
           msg_metadata := merge_raw (msg_metadata m) (msg_metadata delta),
           msg_responseMetadata := merge_raw (msg_responseMetadata m) (msg_responseMetadata delta),
           msg_artifact := (if msg_artifact delta \<noteq> [] then msg_artifact delta else msg_artifact m),
           msg_content := fold merge_block (msg_content delta) (msg_content m),
           msg_toolCalls := msg_toolCalls m @ msg_toolCalls delta,
           msg_invalidToolCalls := msg_invalidToolCalls m @ msg_invalidToolCalls delta,
           msg_usage := (case msg_usage delta of None \<Rightarrow> msg_usage m | Some u \<Rightarrow> Some u)\<rparr>,
         mr_structured := (if ck_structured ck \<noteq> [] then ck_structured ck else mr_structured response)\<rparr>)"

text \<open>What is written to the event stream: arguments that are not JSON are replaced.\<close>

definition streamSafeChunk :: "agentEnv \<Rightarrow> chunk \<Rightarrow> chunk" where
  "streamSafeChunk env ck =
     (let delta = msg_Clone (ck_messageDelta ck)
      in ck\<lparr>ck_messageDelta := delta\<lparr>
           msg_toolCalls := map (\<lambda>c. if ae_jsonValid env (tc_arguments c) then c else c\<lparr>tc_arguments := ''null''\<rparr>) (msg_toolCalls delta),
           msg_invalidToolCalls :=
             map (\<lambda>c. if ae_jsonValid env (ic_arguments c) then c else c\<lparr>ic_arguments := ''null''\<rparr>) (msg_invalidToolCalls delta)\<rparr>\<rparr>)"

definition empty_response :: modelResult where
  "empty_response = \<lparr>mr_message = empty_message\<lparr>msg_role := RoleAssistant\<rparr>, mr_structured = []\<rparr>"

definition stream_chunk :: "agentEnv \<Rightarrow> (stamp \<Rightarrow> chunk \<Rightarrow> gerr option) \<Rightarrow> chunk \<Rightarrow> modelResult \<Rightarrow> modelResult io" where
  "stream_chunk env write_event ck response =
     io_bind (io_draw (\<lambda>t. write_event t (streamSafeChunk env ck))) (\<lambda>failed.
       case failed of Some e \<Rightarrow> io_fail e | None \<Rightarrow> io_ret (mergeModelChunk ck response))"

definition invokeModelStream ::
  "agentEnv \<Rightarrow> chat \<Rightarrow> providerRequest \<Rightarrow> (stamp \<Rightarrow> chunk \<Rightarrow> gerr option) \<Rightarrow> modelResult io" where
  "invokeModelStream env model request write_event =
     io_bind (ch_stream model request) (\<lambda>(chunks, broken).
     io_bind (io_fold (stream_chunk env write_event) chunks empty_response) (\<lambda>response.
       case broken of Some e \<Rightarrow> io_fail e | None \<Rightarrow> io_ret response))"

section \<open>Nothing is lost\<close>

definition texts :: "contentBlock list \<Rightarrow> string" where
  "texts content = concat (map (\<lambda>b. if cb_type b = BlockText then cb_text b else []) content)"

lemma TextContent_texts: "TextContent m = texts (msg_content m)"
proof -
  have "text_blocks r bs = r @ texts bs" for r bs
    by (induction bs arbitrary: r) (simp_all add: texts_def)
  then show ?thesis by (simp add: TextContent_def)
qed

lemma texts_simps [simp]: "texts [] = []" "texts (xs @ ys) = texts xs @ texts ys"
  "texts (b # bs) = (if cb_type b = BlockText then cb_text b else []) @ texts bs"
  by (simp_all add: texts_def)

lemma down_index_Some: "down_index P xs n = Some i \<Longrightarrow> i < n \<and> P (xs ! i)"
  by (induction n) (auto split: if_splits)

lemma texts_update:
  assumes "i < length content" and "cb_type b = cb_type (content ! i)" and "cb_text b = cb_text (content ! i)"
  shows "texts (content[i := b]) = texts content"
proof -
  have "content = take i content @ content ! i # drop (Suc i) content" using assms(1) by (rule id_take_nth_drop)
  then have "texts content = texts (take i content) @ texts [content ! i] @ texts (drop (Suc i) content)"
    by (metis texts_simps(2) append_Cons append_Nil)
  with assms show ?thesis by (simp add: upd_conv_take_nth_drop)
qed

text \<open>One block appends its text, wherever it is put.\<close>

lemma merge_block_texts: "texts (merge_block block content) = texts content @ texts [block]"
proof (cases "text_target content block")
  case (Some i)
  then consider (final) "i = length content - 1" "content \<noteq> []" "cb_type (content ! i) = BlockText" "cb_type block = BlockText"
    | (earlier) "i < length content" "cb_type block = BlockText" "cb_text block = []"
    by (auto simp: text_target_def split: if_splits dest: down_index_Some)
  then show ?thesis
  proof cases
    case final
    then obtain xs x where content: "content = xs @ [x]" by (metis rev_exhaust)
    with final Some show ?thesis by (simp add: merge_block_def merge_text_def nth_append)
  next
    case earlier
    have "texts (content[i := merge_text block (content ! i)]) = texts content"
      using earlier by (intro texts_update) (simp_all add: merge_text_def)
    with Some earlier show ?thesis by (simp add: merge_block_def)
  qed
next
  case None
  show ?thesis
  proof (cases "reasoning_target content block")
    case (Some i)
    then have i: "i < length content" and type: "cb_type block = BlockReasoning"
      by (auto simp: reasoning_target_def split: if_splits dest: down_index_Some)
    have "texts (content[i := merge_reasoning block (content ! i)]) = texts content"
      using i by (intro texts_update) (simp_all add: merge_reasoning_def)
    with None Some type show ?thesis by (simp add: merge_block_def BlockReasoning_def BlockText_def)
  next
    case n: None
    with None show ?thesis by (simp add: merge_block_def)
  qed
qed

lemma fold_merge_texts: "texts (fold merge_block blocks content) = texts content @ texts blocks"
  by (induction blocks arbitrary: content) (simp_all add: merge_block_texts)

lemma mergeModelChunk_content:
  "TextContent (mr_message (mergeModelChunk ck r)) = TextContent (mr_message r) @ TextContent (ck_messageDelta ck)"
  "msg_toolCalls (mr_message (mergeModelChunk ck r)) = msg_toolCalls (mr_message r) @ msg_toolCalls (ck_messageDelta ck)"
  "msg_invalidToolCalls (mr_message (mergeModelChunk ck r)) =
     msg_invalidToolCalls (mr_message r) @ msg_invalidToolCalls (ck_messageDelta ck)"
  "msg_role (mr_message (mergeModelChunk ck r)) = msg_role (mr_message r)"
  by (simp_all add: mergeModelChunk_def Let_def TextContent_texts fold_merge_texts)

lemma stream_chunks_merge:
  "io_fold (stream_chunk env w) chunks r t = (t', Inr response) \<Longrightarrow> response = fold mergeModelChunk chunks r"
  by (induction chunks arbitrary: r t) (auto simp: io_simps stream_chunk_def split: option.splits)

lemma fold_merge_chunks:
  "TextContent (mr_message (fold mergeModelChunk cks r)) = TextContent (mr_message r) @ concat (map (\<lambda>c. TextContent (ck_messageDelta c)) cks)"
  "msg_toolCalls (mr_message (fold mergeModelChunk cks r)) =
     msg_toolCalls (mr_message r) @ concat (map (\<lambda>c. msg_toolCalls (ck_messageDelta c)) cks)"
  "msg_invalidToolCalls (mr_message (fold mergeModelChunk cks r)) =
     msg_invalidToolCalls (mr_message r) @ concat (map (\<lambda>c. msg_invalidToolCalls (ck_messageDelta c)) cks)"
  "msg_role (mr_message (fold mergeModelChunk cks r)) = msg_role (mr_message r)"
  by (induction cks arbitrary: r) (simp_all add: mergeModelChunk_content)

lemma empty_response_fields:
  "TextContent (mr_message empty_response) = []" "msg_toolCalls (mr_message empty_response) = []"
  "msg_invalidToolCalls (mr_message empty_response) = []" "msg_role (mr_message empty_response) = RoleAssistant"
  by (simp_all add: empty_response_def TextContent_texts empty_message_def)

text \<open>C17: a streamed answer is the chunks put together. When streaming succeeds, the response is an assistant message whose text is the
  concatenation of the texts of the chunks and whose tool calls, valid and invalid, are theirs in order, whatever mixture of text,
  reasoning and citation blocks the chunks carry; a stream that breaks off yields no response.
\<close>

theorem invokeModelStream_text:
  assumes "ch_stream model request t = (t1, Inr (chunks, broken))"
    and "invokeModelStream env model request write_event t = (t', Inr response)"
  shows "broken = None \<and> msg_role (mr_message response) = RoleAssistant \<and>
    TextContent (mr_message response) = concat (map (\<lambda>c. TextContent (ck_messageDelta c)) chunks) \<and>
    msg_toolCalls (mr_message response) = concat (map (\<lambda>c. msg_toolCalls (ck_messageDelta c)) chunks) \<and>
    msg_invalidToolCalls (mr_message response) = concat (map (\<lambda>c. msg_invalidToolCalls (ck_messageDelta c)) chunks)"
proof -
  from assms have "broken = None" and "response = fold mergeModelChunk chunks empty_response"
    by (auto simp: invokeModelStream_def io_simps split: option.splits dest: stream_chunks_merge)
  then show ?thesis by (simp add: fold_merge_chunks empty_response_fields)
qed

text \<open>Two chunks of text around a reasoning block.\<close>

definition text_chunk :: "string \<Rightarrow> chunk" where
  "text_chunk t = \<lparr>ck_messageDelta = msg_Assistant t, ck_structured = []\<rparr>"

definition reasoning_chunk :: "string \<Rightarrow> chunk" where
  "reasoning_chunk t = \<lparr>ck_messageDelta = empty_message\<lparr>msg_role := RoleAssistant,
     msg_content := [empty_block\<lparr>cb_type := BlockReasoning, cb_reasoning := t\<rparr>]\<rparr>, ck_structured = []\<rparr>"

definition streaming_chat :: chat where
  "streaming_chat = \<lparr>ch_profile = \<lparr>pf_structuredOutput = False, pf_supportsSeparateSystemMessage = False, pf_nativeStreaming = True\<rparr>,
     ch_invoke = (\<lambda>q. io_fail NilCall),
     ch_stream = (\<lambda>q. io_ret ([text_chunk ''a'', reasoning_chunk ''r'', text_chunk ''b''], None))\<rparr>"

theorem invokeModelStream_text_witness:
  "\<forall>env request. \<exists>t' response. invokeModelStream env streaming_chat request (\<lambda>t c. None) (Stamp 0 0) = (t', Inr response) \<and>
     TextContent (mr_message response) = ''ab''"
proof (intro allI)
  fix env request
  have s: "ch_stream streaming_chat request (Stamp 0 0) = (Stamp 0 0, Inr ([text_chunk ''a'', reasoning_chunk ''r'', text_chunk ''b''], None))"
    by (simp add: streaming_chat_def io_ret_def)
  obtain t' response where r: "invokeModelStream env streaming_chat request (\<lambda>t c. None) (Stamp 0 0) = (t', Inr response)"
    by (simp add: invokeModelStream_def io_bind_def s stream_chunk_def io_draw_def io_ret_def)
  from invokeModelStream_text [OF s r] r
  show "\<exists>t' response. invokeModelStream env streaming_chat request (\<lambda>t c. None) (Stamp 0 0) = (t', Inr response) \<and>
     TextContent (mr_message response) = ''ab''"
    by (simp add: text_chunk_def reasoning_chunk_def TextContent_texts msg_Assistant_def msg_Text_def BlockReasoning_def BlockText_def)
qed

end
