(* ===== verification/Agent_Tools.thy ===== *)
theory Agent_Tools
  imports Agent_Types
begin

text \<open>
  The tools node of an agent (\<^verbatim>\<open>executeTools\<close> and \<^verbatim>\<open>executeTool\<close> of \<^verbatim>\<open>dagent/agent.go\<close>): which calls of the last
  assistant message still wait, the hooks that may edit, answer or interrupt the batch, the execution of the calls, and the assembly
  of their results into one update. The theorem is that a batch which is not interrupted answers every call exactly once, in the order
  of the calls, so that a complete history stays complete.
\<close>

section \<open>One call\<close>

record toolOutcome =
  to_message :: message
  to_update :: avals
  to_direct :: bool
  to_handoff :: "string option"
  to_interrupt :: "agentVal interrupt option"
  to_err :: "gerr option"

definition no_outcome :: toolOutcome where
  "no_outcome = \<lparr>to_message = empty_message, to_update = [], to_direct = False, to_handoff = None, to_interrupt = None, to_err = None\<rparr>"

text \<open>\<^verbatim>\<open>strings.TrimSpace(s) == ""\<close> on UTF-8 text: nothing but Unicode white space.\<close>

fun blank :: "string \<Rightarrow> bool" where
  "blank [] = True"
| "blank (c # cs) =
     (let b = of_char c :: nat in
      if b \<in> {9, 10, 11, 12, 13, 32} then blank cs
      else if b = 0xC2 then (case cs of d # ds \<Rightarrow> (of_char d :: nat) \<in> {0x85, 0xA0} \<and> blank ds | [] \<Rightarrow> False)
      else if b \<in> {0xE1, 0xE2, 0xE3} then
        (case cs of
           d # e # ds \<Rightarrow>
             (let m = of_char d :: nat; l = of_char e :: nat
              in (b = 0xE1 \<and> m = 0x9A \<and> l = 0x80 \<or>
                  b = 0xE2 \<and> m = 0x80 \<and> (0x80 \<le> l \<and> l \<le> 0x8A \<or> l \<in> {0xA8, 0xA9, 0xAF}) \<or>
                  b = 0xE2 \<and> m = 0x81 \<and> l = 0x9F \<or>
                  b = 0xE3 \<and> m = 0x80 \<and> l = 0x80) \<and> blank ds)
         | _ \<Rightarrow> False)
      else False)"

definition join :: "string \<Rightarrow> string list \<Rightarrow> string" where
  "join sep xs = concat (case xs of [] \<Rightarrow> [] | y # ys \<Rightarrow> y # map ((@) sep) ys)"

definition error_result :: "toolCall \<Rightarrow> string \<Rightarrow> message" where
  "error_result call text = (msg_Tool (tc_id call) text)\<lparr>msg_name := tc_name call, msg_toolStatus := ToolStatusError\<rparr>"

definition handoffMetadataKey :: string where "handoffMetadataKey = ''dago_handoff''"

text \<open>The handler inside the wrappers: the tool itself.\<close>

definition invoke_tool :: "agentVal runtime \<Rightarrow> toolHandler" where
  "invoke_tool runtime request =
     (case tq_tool request of
        None \<Rightarrow> io_fail NilCall
      | Some executable \<Rightarrow>
          io_bind (tl_execute executable (tc_arguments (tq_call request))
            \<lparr>trt_callID = tc_id (tq_call request), trt_taskID = rt_taskID runtime,
             trt_threadID = cf_threadID (rt_config runtime), trt_namespace = cf_namespace (rt_config runtime),
             trt_checkpointID = cf_checkpointID (rt_config runtime), trt_resume = rt_resume (tq_runtime request),
             trt_state = tq_state request, trt_deps = rt_deps (tq_runtime request),
             trt_configurable = rt_configurable (tq_runtime request)\<rparr>) (\<lambda>output.
          io_ret \<lparr>tp_result = output, tp_call = None\<rparr>))"

definition tool_handler :: "'s compiler \<Rightarrow> agentVal runtime \<Rightarrow> toolHandler" where
  "tool_handler cp runtime =
     wrap_handler (map (\<lambda>m. map_option (\<lambda>w next request. w request next) (mw_wrapToolCall m)) (op_middleware (cp_options cp)))
       (invoke_tool runtime)"

text \<open>The outcome of a response; \<open>direct\<close> is the flag of the tool's definition.\<close>

definition finish_tool :: "agentEnv \<Rightarrow> bool \<Rightarrow> toolCall \<Rightarrow> toolCallResponse \<Rightarrow> toolOutcome" where
  "finish_tool env direct call0 response =
     (let result = tp_result response in
      case tlr_interrupt result of
        Some interrupt \<Rightarrow> no_outcome\<lparr>to_interrupt := Some interrupt, to_update := tlr_update result\<rparr>
      | None \<Rightarrow>
          let call = (case tp_call response of None \<Rightarrow> call0 | Some c \<Rightarrow> c);
              status = (if tlr_status result = ToolStatusUnset then ToolStatusSuccess else tlr_status result)
          in if status \<noteq> ToolStatusSuccess \<and> status \<noteq> ToolStatusError
             then no_outcome\<lparr>to_err := Some (Errorf ''tool %q returned invalid status %q'')\<rparr>
             else
               let message = empty_message\<lparr>msg_role := RoleTool, msg_name := tc_name call, msg_toolCallID := tc_id call,
                     msg_toolStatus := status, msg_content := tlr_content result, msg_artifact := tlr_artifact result,
                     msg_otherUsage := tlr_otherUsage result\<rparr>;
                   outcome = no_outcome\<lparr>to_message := message, to_update := tlr_update result, to_direct := direct\<rparr>
               in case tlr_handoff result of
                    None \<Rightarrow> outcome
                  | Some destination \<Rightarrow>
                      if blank destination
                      then outcome\<lparr>to_err := Some (Errorf ''tool %q returned a handoff with an empty destination'')\<rparr>
                      else outcome\<lparr>to_handoff := Some destination,
                        to_message := message\<lparr>msg_responseMetadata := [(handoffMetadataKey, ae_marshalHandoff env destination)]\<rparr>\<rparr>)"

definition executeTool :: "agentEnv \<Rightarrow> 's compiler \<Rightarrow> toolCall \<Rightarrow> avals \<Rightarrow> agentVal runtime \<Rightarrow> toolOutcome io" where
  "executeTool env cp call values runtime =
     (case map_of (cp_tools cp) (tc_name call) of
        None \<Rightarrow>
          io_ret (if op_failOnToolError (cp_options cp)
            then no_outcome\<lparr>to_err := Some (Wrapf ''%w %q'' ErrUnknownTool)\<rparr>
            else no_outcome\<lparr>to_message := error_result call
              (''Error: '' @ tc_name call @ '' is not a valid tool, try one of ['' @ join '', '' (sorted_keys (cp_tools cp)) @ ''].'')\<rparr>)
      | Some executable \<Rightarrow>
          io_bind (io_try (tool_handler cp runtime
              \<lparr>tq_call = call, tq_tool = Some executable, tq_state = values_Clone values, tq_runtime = convertRuntime runtime\<rparr>)) (\<lambda>r.
          io_ret (case r of
              Inl err \<Rightarrow>
                if op_failOnToolError (cp_options cp) \<or> ae_propagates env err then no_outcome\<lparr>to_err := Some err\<rparr>
                else no_outcome\<lparr>to_message := error_result call (ae_errorText env err)\<rparr>
            | Inr response \<Rightarrow> finish_tool env (td_direct (tl_definition executable)) call response)))"

section \<open>The progress of a call\<close>

definition terminalToolProgress :: "agentEnv \<Rightarrow> toolCall \<Rightarrow> toolOutcome \<Rightarrow> toolProgress option" where
  "terminalToolProgress env call result =
     (if to_interrupt result \<noteq> None then None
      else case to_err result of
        Some err \<Rightarrow> Some \<lparr>pg_callID = tc_id call, pg_name = tc_name call, pg_output = ae_errorText env err, pg_status = ToolStatusError\<rparr>
      | None \<Rightarrow>
          let m = to_message result in
          if msg_role m \<noteq> RoleTool then None
          else Some \<lparr>pg_callID = (if msg_toolCallID m \<noteq> [] then msg_toolCallID m else tc_id call),
            pg_name = (if msg_name m \<noteq> [] then msg_name m else tc_name call),
            pg_output = TextContent m, pg_status = msg_toolStatus m\<rparr>)"

definition writeToolProgress :: "agentEnv \<Rightarrow> toolProgress \<Rightarrow> gerr option io" where
  "writeToolProgress env progress =
     (case ae_toolWriter env of None \<Rightarrow> io_ret None | Some write_event \<Rightarrow> io_draw (\<lambda>t. write_event t progress))"

text \<open>What one goroutine of the batch leaves in its slot.\<close>

definition run_call ::
  "agentEnv \<Rightarrow> 's compiler \<Rightarrow> avals \<Rightarrow> agentVal runtime \<Rightarrow> bool \<Rightarrow> toolCall \<Rightarrow> toolOutcome io" where
  "run_call env cp values runtime resumeConsumed call =
     io_bind (io_draw (ae_done env)) (\<lambda>cancelled.
       case cancelled of
         Some e \<Rightarrow> io_ret (no_outcome\<lparr>to_err := Some e\<rparr>)
       | None \<Rightarrow>
           io_bind (executeTool env cp call values (if resumeConsumed then runtime\<lparr>rt_resume := VNil\<rparr> else runtime)) (\<lambda>result.
           case terminalToolProgress env call result of
             None \<Rightarrow> io_ret result
           | Some progress \<Rightarrow>
               io_bind (writeToolProgress env progress) (\<lambda>failed.
                 io_ret (case (failed, to_err result) of
                     (Some err, None) \<Rightarrow> result\<lparr>to_err := Some (Wrapf ''stream tool %q result'' err)\<rparr>
                   | _ \<Rightarrow> result))))"

section \<open>The batch\<close>

text \<open>The index of the last assistant message with tool calls, searching downwards from \<open>n\<close>.\<close>

fun assistant_index :: "message list \<Rightarrow> nat \<Rightarrow> nat option" where
  "assistant_index messages 0 = None"
| "assistant_index messages (Suc i) =
     (if msg_role (messages ! i) \<noteq> RoleAssistant \<or> msg_toolCalls (messages ! i) = [] then assistant_index messages i else Some i)"

definition completed_ids :: "message list \<Rightarrow> string list" where
  "completed_ids later = map msg_toolCallID (filter (\<lambda>m. msg_role m = RoleTool \<and> msg_toolCallID m \<noteq> []) later)"

record batch =
  bt_calls :: "toolCall list"
  bt_prefilled :: "message list"
  bt_resumeConsumed :: bool

text \<open>The hooks before the batch; an interrupt ends them.\<close>

fun before_tools ::
  "'s compiler \<Rightarrow> avals \<Rightarrow> agentVal runtime \<Rightarrow> middleware list \<Rightarrow> batch \<Rightarrow> (agentVal interrupt + batch) io" where
  "before_tools cp values runtime [] b = io_ret (Inr b)"
| "before_tools cp values runtime (m # ms) b =
     (case mw_beforeTools m of
        None \<Rightarrow> before_tools cp values runtime ms b
      | Some f \<Rightarrow>
          io_bind (io_wrap ''middleware %q before tools'' (f
            \<lparr>bq_calls = bt_calls b, bq_tools = map (\<lambda>(k, v). (k, v)) (cp_tools cp), bq_state = values_Clone values,
             bq_runtime = convertRuntime runtime\<rparr>)) (\<lambda>response.
          case bp_interrupt response of
            Some interrupt \<Rightarrow> io_ret (Inl interrupt)
          | None \<Rightarrow>
              before_tools cp values runtime ms
                \<lparr>bt_calls = (case bp_calls response of None \<Rightarrow> bt_calls b | Some calls \<Rightarrow> calls),
                 bt_prefilled = bt_prefilled b @ cloneMessages (bp_messages response),
                 bt_resumeConsumed = bt_resumeConsumed b \<or> bp_resumeConsumed response\<rparr>))"

text \<open>The first error, and the interrupts of several calls as one.\<close>

definition append_values :: "aval \<Rightarrow> aval \<Rightarrow> aval option" where
  "append_values current additional =
     (case current of
        VSlice xs \<Rightarrow> (case additional of VSlice ys \<Rightarrow> Some (VSlice (xs @ ys)) | _ \<Rightarrow> None)
      | _ \<Rightarrow> None)"

fun combine_interrupts :: "agentVal interrupt option \<Rightarrow> toolOutcome list \<Rightarrow> agentVal interrupt option res" where
  "combine_interrupts pending [] = Inr pending"
| "combine_interrupts pending (result # rest) =
     (case to_err result of
        Some e \<Rightarrow> Inl e
      | None \<Rightarrow>
          (case to_interrupt result of
             None \<Rightarrow> combine_interrupts pending rest
           | Some interrupt \<Rightarrow>
               (case pending of
                  None \<Rightarrow> combine_interrupts (Some interrupt) rest
                | Some p \<Rightarrow>
                    if it_ID p \<noteq> it_ID interrupt then Inl (Errorf ''tools interrupted with incompatible ids %q and %q'')
                    else (case append_values (it_value p) (it_value interrupt) of
                        Some v \<Rightarrow> combine_interrupts (Some (p\<lparr>it_value := v\<rparr>)) rest
                      | None \<Rightarrow> Inl (Errorf ''multiple tool interrupts %q cannot be combined'')))))"

text \<open>Results by their call, and results without one.\<close>

definition associate :: "message \<Rightarrow> (string, message) dict \<times> message list \<Rightarrow> (string, message) dict \<times> message list" where
  "associate item acc =
     (if msg_toolCallID item = [] then (fst acc, snd acc @ [item]) else (dput (msg_toolCallID item) item (fst acc), snd acc))"

definition merge_tool_update :: "'s compiler \<Rightarrow> string \<times> aval \<Rightarrow> avals \<Rightarrow> avals res" where
  "merge_tool_update cp kv update =
     (case kv of (key, v) \<Rightarrow>
        case map_of update key of
          None \<Rightarrow> Inr (dput key v update)
        | Some previous \<Rightarrow>
            if (case map_of (cp_fields cp) key of
                  None \<Rightarrow> True
                | Some field \<Rightarrow> sf_kind field \<noteq> AFieldAggregate \<and> sf_kind field \<noteq> AFieldDelta)
            then Inl (Wrapf ''%w for field %q'' ErrConflictingUpdate)
            else Inr (dput key (case previous of VBatch vs \<Rightarrow> VBatch (vs @ [v]) | _ \<Rightarrow> VBatch [previous, v]) update))"

record collected =
  cl_update :: avals
  cl_byCallID :: "(string, message) dict"
  cl_handoff :: "string option"

definition collect_outcome :: "'s compiler \<Rightarrow> toolOutcome \<Rightarrow> collected \<Rightarrow> collected res" where
  "collect_outcome cp result c =
     res_bind (fold_res (merge_tool_update cp) (to_update result) (cl_update c)) (\<lambda>update.
       if to_interrupt result \<noteq> None then Inr (c\<lparr>cl_update := update\<rparr>)
       else
         let c1 = c\<lparr>cl_byCallID := dput (msg_toolCallID (to_message result)) (to_message result) (cl_byCallID c),
               cl_update := (if to_direct result then dput toolDirectKey (VBool True) update else update)\<rparr>
         in case to_handoff result of
              None \<Rightarrow> Inr c1
            | Some destination \<Rightarrow>
                if cl_handoff c1 \<noteq> None then Inl (Errorf ''multiple tools requested parent handoffs to %q and %q'')
                else Inr (c1\<lparr>cl_handoff := Some destination, cl_update := dput toolDirectKey (VBool True) (cl_update c1)\<rparr>))"

text \<open>The results in the order of the calls, what has no call, and the rest by identifier.\<close>

fun in_call_order :: "toolCall list \<Rightarrow> (string, message) dict \<Rightarrow> message list \<times> (string, message) dict" where
  "in_call_order [] byCallID = ([], byCallID)"
| "in_call_order (call # calls) byCallID =
     (case map_of byCallID (tc_id call) of
        None \<Rightarrow> in_call_order calls byCallID
      | Some item \<Rightarrow> (case in_call_order calls (ddel (tc_id call) byCallID) of (items, rest) \<Rightarrow> (item # items, rest)))"

definition tool_messages :: "toolCall list \<Rightarrow> (string, message) dict \<Rightarrow> message list \<Rightarrow> message list" where
  "tool_messages calls byCallID unassociated =
     (case in_call_order calls byCallID of (items, rest) \<Rightarrow>
        items @ unassociated @ concat (map (\<lambda>i. case map_of rest i of None \<Rightarrow> [] | Some m \<Rightarrow> [m]) (sorted_keys rest)))"

definition finish_batch ::
  "'s compiler \<Rightarrow> message list \<Rightarrow> nat \<Rightarrow> message list \<Rightarrow> toolOutcome list \<Rightarrow> agentVal interrupt option \<Rightarrow> agentVal command res" where
  "finish_batch cp messages assistantIndex prefilled results pendingInterrupt =
     (case fold associate (filter (\<lambda>m. msg_role m = RoleTool) (drop (assistantIndex + 1) messages) @ prefilled) ([], []) of
        (byCallID, unassociated) \<Rightarrow>
          res_bind (fold_res (collect_outcome cp) results \<lparr>cl_update = [], cl_byCallID = byCallID, cl_handoff = None\<rparr>) (\<lambda>c.
            let toolMessages = tool_messages (msg_toolCalls (messages ! assistantIndex)) (cl_byCallID c) unassociated;
                update =
                  (if toolMessages = [] then cl_update c
                   else if assistantIndex < length messages - 1
                   then dput MessagesKey (VOverwrite (msgs_val (cloneMessages (take (assistantIndex + 1) messages) @ toolMessages))) (cl_update c)
                   else dput MessagesKey (msgs_val toolMessages) (cl_update c))
            in Inr (empty_command\<lparr>cmd_update := update, cmd_interrupt := pendingInterrupt\<rparr>)))"

definition executeTools :: "agentEnv \<Rightarrow> 's compiler \<Rightarrow> avals \<Rightarrow> agentVal runtime \<Rightarrow> agentVal command io" where
  "executeTools env cp values runtime =
     io_bind (io_of (messagesFrom (dget VNil values MessagesKey))) (\<lambda>messages.
       if messages = [] then io_fail (Errorf ''execute tools: message history is empty'')
       else case assistant_index messages (length messages) of
         None \<Rightarrow> io_fail (Errorf ''execute tools: last message has no tool calls'')
       | Some assistantIndex \<Rightarrow>
           let completed = completed_ids (drop (assistantIndex + 1) messages);
               calls = filter (\<lambda>call. tc_id call \<notin> set completed) (msg_toolCalls (messages ! assistantIndex))
           in if calls = [] then io_ret empty_command
              else
                io_bind (before_tools cp values runtime (op_middleware (cp_options cp))
                  \<lparr>bt_calls = calls, bt_prefilled = [], bt_resumeConsumed = False\<rparr>) (\<lambda>r.
                case r of
                  Inl interrupt \<Rightarrow> io_ret (empty_command\<lparr>cmd_interrupt := Some interrupt\<rparr>)
                | Inr b \<Rightarrow>
                    io_bind (io_map (run_call env cp values runtime (bt_resumeConsumed b)) (bt_calls b)) (\<lambda>results.
                    io_bind (io_of (combine_interrupts None results)) (\<lambda>pendingInterrupt.
                    io_bind (io_of (finish_batch cp messages assistantIndex (bt_prefilled b) results pendingInterrupt)) (\<lambda>command.
                    io_bind (io_draw (ae_ids env)) (\<lambda>g.
                      io_ret (command\<lparr>cmd_update := ensureMessageIDsInValues g (cmd_update command)\<rparr>)))))))"


section \<open>Answering a call\<close>

text \<open>
  A handler keeps the identifier of the call (a wrapper may rewrite the call, but not whose answer it is), and a tool that interrupts
  writes no messages of its own.
\<close>

definition keeps_call :: "(string, tool) dict \<Rightarrow> toolHandler \<Rightarrow> bool" where
  "keeps_call tools h \<longleftrightarrow> (\<forall>request t t' response.
     tq_tool request = map_of tools (tc_name (tq_call request)) \<longrightarrow> h request t = (t', Inr response) \<longrightarrow>
     (\<forall>c. tp_call response = Some c \<longrightarrow> tc_id c = tc_id (tq_call request)) \<and>
     (tlr_interrupt (tp_result response) \<noteq> None \<longrightarrow> map_of (tlr_update (tp_result response)) MessagesKey = None))"

lemma keeps_callD:
  assumes "keeps_call tools h" and "tq_tool request = map_of tools (tc_name (tq_call request))" and "h request t = (t', Inr response)"
  shows "tp_call response = Some c \<Longrightarrow> tc_id c = tc_id (tq_call request)"
    and "tlr_interrupt (tp_result response) \<noteq> None \<Longrightarrow> map_of (tlr_update (tp_result response)) MessagesKey = None"
  using assms unfolding keeps_call_def by blast+

definition answers :: "toolCall \<Rightarrow> message \<Rightarrow> bool" where
  "answers call m \<longleftrightarrow> msg_role m = RoleTool \<and> msg_toolCallID m = tc_id call \<and> msg_id m = []"

lemma error_result_answers: "answers call (error_result call text)"
  by (simp add: answers_def error_result_def msg_Tool_def msg_Text_def empty_message_def)

text \<open>What a call leaves: an answer, an interrupt that writes no messages, or an error.\<close>

definition settled :: "toolCall \<Rightarrow> toolOutcome \<Rightarrow> bool" where
  "settled call r \<longleftrightarrow> to_err r \<noteq> None \<or>
     (if to_interrupt r = None then answers call (to_message r) else map_of (to_update r) MessagesKey = None)"

lemma finish_tool_settled:
  assumes "\<And>c. tp_call response = Some c \<Longrightarrow> tc_id c = tc_id call"
    and "tlr_interrupt (tp_result response) \<noteq> None \<Longrightarrow> map_of (tlr_update (tp_result response)) MessagesKey = None"
  shows "settled call (finish_tool env direct call response)"
proof -
  define call' where "call' = (case tp_call response of None \<Rightarrow> call | Some c \<Rightarrow> c)"
  have id: "tc_id call' = tc_id call" using assms(1) by (cases "tp_call response") (simp_all add: call'_def)
  show ?thesis
    using assms(2) id
    by (auto simp: finish_tool_def settled_def answers_def Let_def no_outcome_def empty_message_def call'_def [symmetric]
        split: option.splits if_splits)
qed

lemma executeTool_settled:
  assumes "\<And>rt. keeps_call (cp_tools cp) (tool_handler cp rt)" and "executeTool env cp call values runtime t = (t', Inr result)"
  shows "settled call result"
proof (cases "map_of (cp_tools cp) (tc_name call)")
  case None
  with assms(2) show ?thesis
    by (auto simp: executeTool_def io_simps no_outcome_def error_result_answers settled_def)
next
  case (Some executable)
  define request where "request = \<lparr>tq_call = call, tq_tool = Some executable, tq_state = values_Clone values, tq_runtime = convertRuntime runtime\<rparr>"
  from assms(2) Some obtain t1 r where h: "tool_handler cp runtime request t = (t1, r)"
    and res: "result = (case r of
        Inl err \<Rightarrow> if op_failOnToolError (cp_options cp) \<or> ae_propagates env err then no_outcome\<lparr>to_err := Some err\<rparr>
          else no_outcome\<lparr>to_message := error_result call (ae_errorText env err)\<rparr>
      | Inr response \<Rightarrow> finish_tool env (td_direct (tl_definition executable)) call response)"
    by (auto simp: executeTool_def io_simps request_def)
  show ?thesis
  proof (cases r)
    case (Inl err)
    with res show ?thesis by (auto simp: no_outcome_def error_result_answers settled_def)
  next
    case (Inr response)
    have "tq_tool request = map_of (cp_tools cp) (tc_name (tq_call request))" using Some by (simp add: request_def)
    note keeps = keeps_callD [OF assms(1) this h [unfolded Inr]]
    have "tc_id c = tc_id call" if "tp_call response = Some c" for c
      using keeps(1) [OF that] by (simp add: request_def)
    moreover have "result = finish_tool env (td_direct (tl_definition executable)) call response" using res Inr by simp
    ultimately show ?thesis using finish_tool_settled keeps(2) by metis
  qed
qed

lemma run_call_settled:
  assumes "\<And>rt. keeps_call (cp_tools cp) (tool_handler cp rt)" and "io_yields (run_call env cp values runtime rc call) result"
  shows "settled call result"
proof -
  from assms(2) obtain t t' where "run_call env cp values runtime rc call t = (t', Inr result)" by (auto simp: io_yields_def)
  then consider "to_err result \<noteq> None" | s s' rt where "executeTool env cp call values rt s = (s', Inr result)"
    by (fastforce simp: run_call_def io_simps no_outcome_def split: option.splits)
  then show ?thesis
  proof cases
    case 1
    then show ?thesis by (simp add: settled_def)
  next
    case 2
    with executeTool_settled [OF assms(1)] show ?thesis by blast
  qed
qed

section \<open>Answering the batch\<close>

text \<open>
  The contract of a hook before the batch: whoever takes calls out of the batch answers them, and nobody brings in foreign ones.
\<close>

definition covers :: "toolBatchRequest \<Rightarrow> toolBatchResponse \<Rightarrow> bool" where
  "covers request response \<longleftrightarrow>
     tc_id ` set (case bp_calls response of None \<Rightarrow> bq_calls request | Some calls \<Rightarrow> calls) \<union>
       msg_toolCallID ` set (bp_messages response) = tc_id ` set (bq_calls request) \<and>
     (\<forall>m \<in> set (bp_messages response). msg_role m = RoleTool \<and> msg_id m = [])"

definition covering_hook :: "toolBatchHook \<Rightarrow> bool" where
  "covering_hook f \<longleftrightarrow> (\<forall>request t t' response. f request t = (t', Inr response) \<longrightarrow> bp_interrupt response = None \<longrightarrow>
     covers request response)"

lemma before_tools_covers:
  assumes "before_tools cp values runtime ms b t = (t', Inr (Inr b'))" and "\<forall>m \<in> set ms. \<forall>f. mw_beforeTools m = Some f \<longrightarrow> covering_hook f"
    and "\<forall>m \<in> set (bt_prefilled b). msg_role m = RoleTool \<and> msg_id m = []"
  shows "tc_id ` set (bt_calls b') \<union> msg_toolCallID ` set (bt_prefilled b') =
      tc_id ` set (bt_calls b) \<union> msg_toolCallID ` set (bt_prefilled b) \<and>
    (\<forall>m \<in> set (bt_prefilled b'). msg_role m = RoleTool \<and> msg_id m = [])"
  using assms
proof (induction ms arbitrary: b t)
  case Nil
  then show ?case by (auto simp: io_simps)
next
  case (Cons m ms)
  show ?case
  proof (cases "mw_beforeTools m")
    case None
    with Cons.prems(1) have "before_tools cp values runtime ms b t = (t', Inr (Inr b'))" by simp
    from Cons.IH [OF this _ Cons.prems(3)] Cons.prems(2) show ?thesis by (meson list.set_intros(2))
  next
    case (Some f)
    with Cons.prems(1) obtain request t1 response where r: "f request t = (t1, Inr response)" "bq_calls request = bt_calls b"
      and n: "bp_interrupt response = None"
      and rest: "before_tools cp values runtime ms
          \<lparr>bt_calls = (case bp_calls response of None \<Rightarrow> bt_calls b | Some calls \<Rightarrow> calls),
           bt_prefilled = bt_prefilled b @ bp_messages response,
           bt_resumeConsumed = bt_resumeConsumed b \<or> bp_resumeConsumed response\<rparr> t1 = (t', Inr (Inr b'))"
      by (cases "before_tools cp values runtime (m # ms) b t") (auto simp: io_simps Some split: option.splits)
    have "covering_hook f" using Cons.prems(2) Some by (meson list.set_intros(1))
    then have c: "covers request response" using r n unfolding covering_hook_def by blast
    have tail: "\<forall>m \<in> set ms. \<forall>f. mw_beforeTools m = Some f \<longrightarrow> covering_hook f" using Cons.prems(2) by (meson list.set_intros(2))
    have "\<forall>m \<in> set (bt_prefilled b @ bp_messages response). msg_role m = RoleTool \<and> msg_id m = []"
      using c Cons.prems(3) unfolding covers_def set_append by blast
    from Cons.IH [OF rest tail] this
    have ih: "tc_id ` set (bt_calls b') \<union> msg_toolCallID ` set (bt_prefilled b') =
        tc_id ` set (case bp_calls response of None \<Rightarrow> bt_calls b | Some calls \<Rightarrow> calls) \<union>
        msg_toolCallID ` set (bt_prefilled b @ bp_messages response)"
      "\<forall>m \<in> set (bt_prefilled b'). msg_role m = RoleTool \<and> msg_id m = []" by simp_all
    have "tc_id ` set (case bp_calls response of None \<Rightarrow> bt_calls b | Some calls \<Rightarrow> calls) \<union>
        msg_toolCallID ` set (bp_messages response) = tc_id ` set (bt_calls b)"
      using c unfolding covers_def r(2) by (rule conjunct1)
    then show ?thesis using ih by (simp only: set_append image_Un) (auto simp only: Un_ac)
  qed
qed


text \<open>Results by call: every entry is filed under its call.\<close>

definition filed :: "(message \<Rightarrow> bool) \<Rightarrow> (string, message) dict \<Rightarrow> bool" where
  "filed Q d \<longleftrightarrow> (\<forall>k m. map_of d k = Some m \<longrightarrow> msg_toolCallID m = k \<and> Q m)"

lemma filedI_dput: "filed Q d \<Longrightarrow> Q m \<Longrightarrow> filed Q (dput (msg_toolCallID m) m d)"
  by (simp add: filed_def)

lemma filed_ddel: "filed Q d \<Longrightarrow> filed Q (ddel k d)"
  by (simp add: filed_def)

lemma fold_associate:
  assumes "\<forall>m \<in> set items. msg_toolCallID m \<noteq> [] \<and> Q m" and "filed Q d"
  shows "\<exists>d'. fold associate items (d, u) = (d', u) \<and> filed Q d' \<and> dom (map_of d') = dom (map_of d) \<union> msg_toolCallID ` set items"
  using assms
proof (induction items arbitrary: d)
  case (Cons m items)
  have m: "msg_toolCallID m \<noteq> []" "Q m" using Cons.prems(1) by (meson list.set_intros(1))+
  have rest: "\<forall>m \<in> set items. msg_toolCallID m \<noteq> [] \<and> Q m" using Cons.prems(1) by (meson list.set_intros(2))
  have "associate m (d, u) = (dput (msg_toolCallID m) m d, u)" using m(1) by (simp add: associate_def)
  moreover have "dom (map_of (dput (msg_toolCallID m) m d)) = insert (msg_toolCallID m) (dom (map_of d))" by (simp only: map_of_dput dom_fun_upd) simp
  ultimately show ?case using Cons.IH [OF rest filedI_dput [OF Cons.prems(2) m(2)]] by (simp del: map_of_dput)
qed simp

lemma merge_tool_update_other:
  "merge_tool_update cp kv update = Inr update' \<Longrightarrow> fst kv \<noteq> k \<Longrightarrow> map_of update' k = map_of update k"
  by (auto simp: merge_tool_update_def split: prod.splits option.splits if_splits)

lemma fold_merge_other:
  "fold_res (merge_tool_update cp) kvs update = Inr update' \<Longrightarrow> map_of kvs k = None \<Longrightarrow> map_of update' k = map_of update k"
proof (induction kvs arbitrary: update)
  case (Cons kv kvs)
  then obtain u where "merge_tool_update cp kv update = Inr u" "fold_res (merge_tool_update cp) kvs u = Inr update'"
    by (auto simp: res_bind_def split: sum.splits)
  with Cons merge_tool_update_other [of cp kv update u k] show ?case by (auto split: if_splits)
qed simp

lemma collect_outcome_files:
  assumes "collect_outcome cp result c = Inr c'" and "filed Q (cl_byCallID c)" and "to_interrupt result = None \<Longrightarrow> Q (to_message result)"
  shows "filed Q (cl_byCallID c') \<and> dom (map_of (cl_byCallID c')) =
    dom (map_of (cl_byCallID c)) \<union> (if to_interrupt result = None then {msg_toolCallID (to_message result)} else {})"
proof (cases "to_interrupt result = None")
  case True
  with assms filedI_dput [OF assms(2) assms(3) [OF True]] show ?thesis
    by (auto simp: collect_outcome_def res_bind_def Let_def split: sum.splits option.splits if_splits)
next
  case False
  with assms show ?thesis by (auto simp: collect_outcome_def res_bind_def split: sum.splits)
qed

lemma fold_collect_files:
  assumes "fold_res (collect_outcome cp) results c = Inr c'" and "filed Q (cl_byCallID c)"
    and "\<forall>r \<in> set results. to_interrupt r = None \<longrightarrow> Q (to_message r)"
  shows "filed Q (cl_byCallID c') \<and> dom (map_of (cl_byCallID c')) = dom (map_of (cl_byCallID c)) \<union>
    (\<lambda>r. msg_toolCallID (to_message r)) ` {r \<in> set results. to_interrupt r = None}"
  using assms
proof (induction results arbitrary: c)
  case (Cons r results)
  then obtain c1 where c1: "collect_outcome cp r c = Inr c1" "fold_res (collect_outcome cp) results c1 = Inr c'"
    by (auto simp: res_bind_def split: sum.splits)
  have r: "to_interrupt r = None \<Longrightarrow> Q (to_message r)" using Cons.prems(3) by (meson list.set_intros(1))
  have rest: "\<forall>r \<in> set results. to_interrupt r = None \<longrightarrow> Q (to_message r)" using Cons.prems(3) by (meson list.set_intros(2))
  note f = collect_outcome_files [where Q = Q, OF c1(1) Cons.prems(2) r]
  from Cons.IH [OF c1(2) conjunct1 [OF f] rest] f show ?case by auto
qed simp

lemma fold_collect_other:
  assumes "fold_res (collect_outcome cp) results c = Inr c'" and "\<forall>r \<in> set results. to_interrupt r \<noteq> None \<and> map_of (to_update r) k = None"
  shows "map_of (cl_update c') k = map_of (cl_update c) k"
  using assms
proof (induction results arbitrary: c)
  case (Cons r results)
  then obtain c1 where c1: "collect_outcome cp r c = Inr c1" "fold_res (collect_outcome cp) results c1 = Inr c'"
    by (auto simp: res_bind_def split: sum.splits)
  have r: "to_interrupt r \<noteq> None" "map_of (to_update r) k = None" using Cons.prems(2) by (meson list.set_intros(1))+
  have rest: "\<forall>r \<in> set results. to_interrupt r \<noteq> None \<and> map_of (to_update r) k = None" using Cons.prems(2) by (meson list.set_intros(2))
  have "map_of (cl_update c1) k = map_of (cl_update c) k"
    using c1(1) r fold_merge_other by (auto simp: collect_outcome_def res_bind_def split: sum.splits)
  with Cons.IH [OF c1(2) rest] show ?case by simp
qed simp

lemma in_call_order_all:
  assumes "distinct (map tc_id calls)" and "filed Q d" and "in_call_order calls d = (items, rest)"
  shows "map msg_toolCallID items = filter (\<lambda>i. i \<in> dom (map_of d)) (map tc_id calls) \<and> list_all Q items \<and>
    dom (map_of rest) = dom (map_of d) - tc_id ` set calls"
  using assms
proof (induction calls arbitrary: d items rest)
  case (Cons call calls)
  show ?case
  proof (cases "map_of d (tc_id call)")
    case None
    with Cons.IH [OF _ Cons.prems(2), of items rest] Cons.prems(1,3) show ?thesis by auto
  next
    case (Some m)
    with Cons.prems(2) have mq: "msg_toolCallID m = tc_id call" "Q m" by (auto simp: filed_def)
    obtain items' rest' where r: "in_call_order calls (ddel (tc_id call) d) = (items', rest')" by fastforce
    have eq: "filter (\<lambda>i. i \<in> dom (map_of (ddel (tc_id call) d))) (map tc_id calls) = filter (\<lambda>i. i \<in> dom (map_of d)) (map tc_id calls)"
    proof (rule filter_cong)
      fix i assume "i \<in> set (map tc_id calls)"
      then have "i \<noteq> tc_id call" using Cons.prems(1) by (metis distinct.simps(2) list.simps(9))
      then show "i \<in> dom (map_of (ddel (tc_id call) d)) \<longleftrightarrow> i \<in> dom (map_of d)" by simp
    qed simp
    have dom: "dom (map_of (ddel (tc_id call) d)) = dom (map_of d) - {tc_id call}" by (simp only: map_of_ddel dom_fun_upd) simp
    note ih = Cons.IH [OF _ filed_ddel [OF Cons.prems(2)] r, unfolded eq, unfolded dom]
    from ih Cons.prems(1,3) Some mq r show ?thesis by auto
  qed
qed simp

lemma tool_messages_all:
  assumes "distinct (map tc_id calls)" and "dom (map_of d) \<subseteq> tc_id ` set calls" and "filed Q d"
  shows "map msg_toolCallID (tool_messages calls d []) = filter (\<lambda>i. i \<in> dom (map_of d)) (map tc_id calls) \<and>
    list_all Q (tool_messages calls d [])"
proof -
  obtain items rest where r: "in_call_order calls d = (items, rest)" by fastforce
  note a = in_call_order_all [OF assms(1,3) r]
  then have "dom (map_of rest) = {}" using assms(2) by (simp add: Diff_eq_empty_iff)
  then have "rest = []" by (cases rest) auto
  with a r show ?thesis by (simp add: tool_messages_def sorted_keys_def)
qed

lemma combine_interrupts_Some: "combine_interrupts (Some p) results \<noteq> Inr None"
  by (induction results arbitrary: p) (simp_all split: option.split)

lemma combine_interrupts_None:
  "combine_interrupts None results = Inr None \<Longrightarrow> r \<in> set results \<Longrightarrow> to_interrupt r = None"
  by (induction results) (auto simp: combine_interrupts_Some split: option.splits)

lemma combine_interrupts_errors: "combine_interrupts pending results = Inr p \<Longrightarrow> r \<in> set results \<Longrightarrow> to_err r = None"
proof (induction results arbitrary: pending)
  case (Cons x results)
  show ?case
  proof (cases "to_err x")
    case None
    then obtain pending' where "combine_interrupts pending' results = Inr p" using Cons.prems(1)
      by (simp split: option.splits if_splits)
    with Cons None show ?thesis by auto
  qed (use Cons.prems in simp)
qed simp

section \<open>The history after the batch\<close>

lemma scan_ensure_ids: "scan P (ensure_ids u f n ms) = scan P ms"
  by (induction ms arbitrary: P n) (simp_all add: call_ids_def)

lemma scan_ensure: "scan P (ensure g ms) = scan P ms"
  by (simp add: ensure_def EnsureIDs_def scan_ensure_ids)

lemma ensure_ids_fields: "map msg_toolCallID (ensure_ids u f n ms) = map msg_toolCallID ms"
  by (induction ms arbitrary: n) simp_all

lemma ensure_toolCallIDs: "map msg_toolCallID (ensure g ms) = map msg_toolCallID ms"
  by (simp add: ensure_def EnsureIDs_def ensure_ids_fields)

lemma ensure_append: "\<forall>m \<in> set xs. msg_id m \<noteq> [] \<Longrightarrow> ensure g (xs @ ys) = xs @ ensure g ys"
  unfolding ensure_def EnsureIDs_def cloneMessages_id by (induction xs) simp_all

lemma scan_answers:
  "distinct (map msg_toolCallID ms) \<Longrightarrow> msg_toolCallID ` set ms \<subseteq> P - {[]} \<Longrightarrow> list_all (\<lambda>m. msg_role m = RoleTool) ms \<Longrightarrow>
   scan P ms = Some (P - msg_toolCallID ` set ms)"
proof (induction ms arbitrary: P)
  case (Cons m ms)
  have "msg_toolCallID m \<notin> msg_toolCallID ` set ms" "msg_toolCallID ` set ms \<subseteq> P - {[]}" using Cons.prems(1,2) by simp_all
  then have "msg_toolCallID ` set ms \<subseteq> P - {msg_toolCallID m} - {[]}" by blast
  with Cons.IH [of "P - {msg_toolCallID m}"] Cons.prems show ?case by (simp add: Diff_insert2 [symmetric])
qed simp

lemma scan_results:
  "\<forall>m \<in> set ms. msg_role m = RoleTool \<Longrightarrow> scan P ms = Some Q \<Longrightarrow>
   Q = P - msg_toolCallID ` set ms \<and> msg_toolCallID ` set ms \<subseteq> P - {[]}"
proof (induction ms arbitrary: P)
  case (Cons m ms)
  have m: "msg_role m = RoleTool" using Cons.prems(1) by (meson list.set_intros(1))
  have rest: "\<forall>m \<in> set ms. msg_role m = RoleTool" using Cons.prems(1) by (meson list.set_intros(2))
  from m Cons.prems(2) have "msg_toolCallID m \<in> P - {[]}" "scan (P - {msg_toolCallID m}) ms = Some Q" by (simp_all split: if_splits)
  with Cons.IH [OF rest, of "P - {msg_toolCallID m}"] show ?case by auto
qed simp

text \<open>Identifiers that are new for a history: drawn without repetition, and none of them in use.\<close>

definition gen_fresh :: "idgen \<Rightarrow> message list \<Rightarrow> bool" where
  "gen_fresh g base \<longleftrightarrow> inj (fresh_id (fst g) (snd g)) \<and> (\<forall>n. fresh_id (fst g) (snd g) n \<notin> msg_id ` set base)"

lemma fold_put_fresh:
  assumes "\<forall>m \<in> set ms. msg_id m = [] \<and> msg_role m = RoleTool" and "inj (fresh_id u f)" and "\<forall>k \<ge> n. fresh_id u f k \<notin> msg_id ` set base"
  shows "fold put_message (ensure_ids u f n ms) base = base @ ensure_ids u f n ms"
  using assms(1,3)
proof (induction ms arbitrary: n base)
  case (Cons m ms)
  have m: "msg_id m = []" "msg_role m = RoleTool" using Cons.prems(1) by (meson list.set_intros(1))+
  have rest: "\<forall>m \<in> set ms. msg_id m = [] \<and> msg_role m = RoleTool" using Cons.prems(1) by (meson list.set_intros(2))
  let ?m = "m\<lparr>msg_id := fresh_id u f n\<rparr>"
  have "fresh_id u f k \<noteq> fresh_id u f n" if "k \<ge> Suc n" for k using that assms(2) by (auto dest: injD)
  with Cons.prems(2) have fresh: "\<forall>k \<ge> Suc n. fresh_id u f k \<notin> msg_id ` set (base @ [?m])" by auto
  have "put_message ?m base = base @ [?m]" using m Cons.prems(2) by (simp add: put_message_def is_reset_def)
  with Cons.IH [OF rest fresh] m show ?case by simp
qed simp

lemma fold_put_ensure:
  "\<forall>m \<in> set ms. msg_id m = [] \<and> msg_role m = RoleTool \<Longrightarrow> gen_fresh g base \<Longrightarrow>
   fold put_message (ensure g ms) base = base @ ensure g ms"
  unfolding ensure_def EnsureIDs_def cloneMessages_id gen_fresh_def by (intro fold_put_fresh) simp_all

lemma assistant_index_found:
  "i < n \<Longrightarrow> msg_role (ms ! i) = RoleAssistant \<Longrightarrow> msg_toolCalls (ms ! i) \<noteq> [] \<Longrightarrow>
   (\<And>j. i < j \<Longrightarrow> j < n \<Longrightarrow> msg_role (ms ! j) \<noteq> RoleAssistant) \<Longrightarrow> assistant_index ms n = Some i"
proof (induction n)
  case (Suc n)
  show ?case
  proof (cases "i = n")
    case True
    with Suc.prems show ?thesis by simp
  next
    case False
    with Suc.prems(1) have "msg_role (ms ! n) \<noteq> RoleAssistant" by (intro Suc.prems(4)) simp_all
    with False Suc show ?thesis by simp
  qed
qed simp

declare assistant_index.simps [simp del]

lemma assistant_index_last:
  assumes "msg_role a = RoleAssistant" and "msg_toolCalls a \<noteq> []" and "\<forall>m \<in> set tail. msg_role m = RoleTool"
  shows "assistant_index (pre @ a # tail) (Suc (length pre + length tail)) = Some (length pre)"
proof (rule assistant_index_found)
  fix j assume "length pre < j" "j < Suc (length pre + length tail)"
  then have "(pre @ a # tail) ! j \<in> set tail" by (auto simp: nth_append nth_Cons split: nat.split)
  with assms(3) show "msg_role ((pre @ a # tail) ! j) \<noteq> RoleAssistant" by (simp add: Ball_def)
qed (use assms in simp_all)


text \<open>A history that ends in an assistant's calls and the results some of them already have.\<close>

definition open_batch :: "message list \<Rightarrow> message \<Rightarrow> message list \<Rightarrow> bool" where
  "open_batch pre a tail \<longleftrightarrow>
     msg_role a = RoleAssistant \<and> msg_toolCalls a \<noteq> [] \<and> msg_invalidToolCalls a = [] \<and>
     distinct (map tc_id (msg_toolCalls a)) \<and> [] \<notin> tc_id ` set (msg_toolCalls a) \<and>
     (\<forall>m \<in> set tail. msg_role m = RoleTool) \<and>
     complete_history pre \<and> scan {} (pre @ a # tail) \<noteq> None \<and>
     wf_messages (pre @ a # tail) \<and> (\<forall>m \<in> set (pre @ [a]). msg_id m \<noteq> [])"

lemma open_batchD:
  assumes "open_batch pre a tail"
  shows "msg_role a = RoleAssistant" "msg_toolCalls a \<noteq> []" "distinct (map tc_id (msg_toolCalls a))"
    "[] \<notin> tc_id ` set (msg_toolCalls a)" "\<forall>m \<in> set tail. msg_role m = RoleTool"
    "wf_messages (pre @ a # tail)" "\<forall>m \<in> set (pre @ [a]). msg_id m \<noteq> []"
    "scan {} (pre @ a # ms) = scan (tc_id ` set (msg_toolCalls a)) ms"
    "\<exists>Q. scan (tc_id ` set (msg_toolCalls a)) tail = Some Q"
proof -
  show scan: "scan {} (pre @ a # ms) = scan (tc_id ` set (msg_toolCalls a)) ms" for ms
  proof -
    have "msg_invalidToolCalls a = []" using assms by (simp add: open_batch_def)
    then have "set (call_ids a) = tc_id ` set (msg_toolCalls a) - {[]}" by (auto simp: call_ids_def)
    moreover have "[] \<notin> tc_id ` set (msg_toolCalls a)" using assms unfolding open_batch_def by (elim conjE)
    ultimately have "set (call_ids a) = tc_id ` set (msg_toolCalls a)" by (metis Diff_insert0 Diff_empty)
    then show ?thesis using assms by (simp add: open_batch_def scan_append complete_history_def)
  qed
  show "\<exists>Q. scan (tc_id ` set (msg_toolCalls a)) tail = Some Q"
    using assms unfolding open_batch_def scan [of tail, symmetric] by simp
qed (use assms in \<open>simp_all add: open_batch_def\<close>)

text \<open>The calls that have a result when the batch ends.\<close>

definition answered :: "message list \<Rightarrow> toolOutcome list \<Rightarrow> string set" where
  "answered earlier results =
     msg_toolCallID ` set earlier \<union> (\<lambda>r. msg_toolCallID (to_message r)) ` {r \<in> set results. to_interrupt r = None}"

lemma finish_batch_messages:
  assumes batch: "open_batch pre a tail"
    and ids: "answered (tail @ prefilled) results \<subseteq> tc_id ` set (msg_toolCalls a)"
    and prefilled: "\<forall>m \<in> set prefilled. msg_role m = RoleTool \<and> msg_id m = []"
    and results: "list_all2 settled calls results" "\<forall>r \<in> set results. to_err r = None"
    and finish: "finish_batch cp (pre @ a # tail) (length pre) prefilled results pending = Inr command"
  shows "\<exists>ms. map msg_toolCallID ms = filter (\<lambda>i. i \<in> answered (tail @ prefilled) results) (map tc_id (msg_toolCalls a)) \<and>
    list_all (\<lambda>m. msg_role m = RoleTool \<and> (tail = [] \<longrightarrow> msg_id m = [])) ms \<and>
    map_of (cmd_update command) MessagesKey =
      (if ms = [] then None else Some (if tail = [] then msgs_val ms else VOverwrite (msgs_val (pre @ a # ms)))) \<and>
    cmd_interrupt command = pending"
proof -
  note open_batch = open_batchD [OF batch]
  define Q where "Q = (\<lambda>m :: message. msg_role m = RoleTool \<and> (tail = [] \<longrightarrow> msg_id m = []))"
  have tools: "filter (\<lambda>m. msg_role m = RoleTool) tail = tail" using open_batch(5) by simp
  have "\<forall>m \<in> set (tail @ prefilled). msg_toolCallID m \<noteq> [] \<and> Q m"
  proof
    fix m assume m: "m \<in> set (tail @ prefilled)"
    then have "msg_toolCallID m \<in> tc_id ` set (msg_toolCalls a)" using ids unfolding answered_def by blast
    then have "msg_toolCallID m \<noteq> []" using open_batch(4) by metis
    moreover have "Q m" using m open_batch(5) prefilled unfolding Q_def by (cases "tail = []") (simp_all, metis)
    ultimately show "msg_toolCallID m \<noteq> [] \<and> Q m" by simp
  qed
  moreover have "filed Q []" by (simp add: filed_def)
  ultimately obtain d where d: "fold associate (tail @ prefilled) ([], []) = (d, [])" "filed Q d"
    "dom (map_of d) = msg_toolCallID ` set (tail @ prefilled)" using fold_associate [of "tail @ prefilled" Q "[]" "[]"] by auto
  let ?c0 = "\<lparr>cl_update = [], cl_byCallID = d, cl_handoff = None\<rparr>"
  from finish d(1) tools obtain c where c: "fold_res (collect_outcome cp) results ?c0 = Inr c"
    and command: "command = (let ms = tool_messages (msg_toolCalls a) (cl_byCallID c) [];
        update = (if ms = [] then cl_update c else if tail \<noteq> []
          then dput MessagesKey (VOverwrite (msgs_val ((pre @ [a]) @ ms))) (cl_update c) else dput MessagesKey (msgs_val ms) (cl_update c))
      in empty_command\<lparr>cmd_update := update, cmd_interrupt := pending\<rparr>)"
    by (auto simp: finish_batch_def res_bind_def Let_def split: sum.splits)
  have settled: "\<exists>call. settled call r \<and> to_err r = None" if "r \<in> set results" for r
    using results that by (metis list_all2_conv_all_nth in_set_conv_nth)
  then have "\<forall>r \<in> set results. to_interrupt r = None \<longrightarrow> Q (to_message r)"
    by (fastforce simp: settled_def answers_def Q_def)
  note f = fold_collect_files [OF c _ this]
  with d have dom: "dom (map_of (cl_byCallID c)) = answered (tail @ prefilled) results" and "filed Q (cl_byCallID c)"
    by (simp_all add: answered_def)
  note t = tool_messages_all [OF open_batch(3) _ this(2), unfolded dom, OF ids]
  have "map_of (cl_update c) MessagesKey = None" if "tool_messages (msg_toolCalls a) (cl_byCallID c) [] = []"
  proof -
    have "filter (\<lambda>i. i \<in> answered (tail @ prefilled) results) (map tc_id (msg_toolCalls a)) = []" using t unfolding that by simp
    then have "set (map tc_id (msg_toolCalls a)) \<inter> answered (tail @ prefilled) results = {}" unfolding filter_empty_conv by blast
    then have "answered (tail @ prefilled) results = {}" using ids unfolding set_map by blast
    then have "{r \<in> set results. to_interrupt r = None} = {}" unfolding answered_def Un_empty image_is_empty by (rule conjunct2)
    then have none: "to_interrupt r \<noteq> None" if "r \<in> set results" for r using that by (metis (mono_tags, lifting) emptyE mem_Collect_eq)
    have "map_of (to_update r) MessagesKey = None" if r: "r \<in> set results" for r
      using settled [OF r] none [OF r] by (auto simp: settled_def)
    with none have "\<forall>r \<in> set results. to_interrupt r \<noteq> None \<and> map_of (to_update r) MessagesKey = None" by blast
    from fold_collect_other [OF c this] show ?thesis by simp
  qed
  with command t show ?thesis
    by (intro exI [of _ "tool_messages (msg_toolCalls a) (cl_byCallID c) []"]) (simp add: Let_def Q_def empty_command_def)
qed

lemma finish_batch_interrupt:
  "finish_batch cp messages i prefilled results pending = Inr command \<Longrightarrow> cmd_interrupt command = pending"
  by (auto simp: finish_batch_def res_bind_def Let_def split: prod.splits sum.splits)

lemma executeTools_results:
  assumes calls: "list_all2 (\<lambda>call. io_yields (run_call env cp values runtime rc call)) calls results"
    and "combine_interrupts None results = Inr pending" and keeps: "\<And>rt. keeps_call (cp_tools cp) (tool_handler cp rt)"
  shows "list_all2 settled calls results" and "\<forall>r \<in> set results. to_err r = None"
    and "answered earlier results \<subseteq> tc_id ` set calls \<union> msg_toolCallID ` set earlier"
    and "pending = None \<Longrightarrow> answered earlier results = tc_id ` set calls \<union> msg_toolCallID ` set earlier"
proof -
  show s: "list_all2 settled calls results" by (rule list_all2_mono [OF calls]) (rule run_call_settled [OF keeps])
  show e: "\<forall>r \<in> set results. to_err r = None" using combine_interrupts_errors [OF assms(2)] by blast
  have id: "msg_toolCallID (to_message (results ! i)) = tc_id (calls ! i)"
    if "i < length calls" "to_interrupt (results ! i) = None" for i
  proof -
    have "results ! i \<in> set results" using that(1) list_all2_lengthD [OF calls] by simp
    with that list_all2_nthD [OF s that(1)] e show ?thesis by (simp add: settled_def answers_def)
  qed
  show "answered earlier results \<subseteq> tc_id ` set calls \<union> msg_toolCallID ` set earlier"
  proof
    fix x assume "x \<in> answered earlier results"
    then consider "x \<in> msg_toolCallID ` set earlier" | r where "r \<in> set results" "to_interrupt r = None" "x = msg_toolCallID (to_message r)"
      unfolding answered_def by blast
    then show "x \<in> tc_id ` set calls \<union> msg_toolCallID ` set earlier"
    proof cases
      case 2
      then obtain i where "i < length calls" "r = results ! i" using list_all2_lengthD [OF calls] by (metis in_set_conv_nth)
      with 2 id show ?thesis by auto
    qed simp
  qed
  assume "pending = None"
  then have n: "to_interrupt r = None" if "r \<in> set results" for r using combine_interrupts_None [OF _ that] assms(2) by simp
  have "map (\<lambda>r. msg_toolCallID (to_message r)) results = map tc_id calls"
    using id n list_all2_lengthD [OF calls] by (intro nth_equalityI) simp_all
  from arg_cong [OF this, of set] have "(\<lambda>r. msg_toolCallID (to_message r)) ` set results = tc_id ` set calls" by simp
  moreover have "{r \<in> set results. to_interrupt r = None} = set results" using n by blast
  ultimately show "answered earlier results = tc_id ` set calls \<union> msg_toolCallID ` set earlier"
    unfolding answered_def by (simp add: Un_commute)
qed

lemma commit_batch:
  assumes batch: "open_batch pre a tail" and g: "gen_fresh g (pre @ a # tail)" and empty: "ms = [] \<Longrightarrow> tail = []"
    and ms: "list_all (\<lambda>m. msg_role m = RoleTool \<and> (tail = [] \<longrightarrow> msg_id m = [])) ms"
    and update: "map_of update MessagesKey =
      (if ms = [] then None else Some (if tail = [] then msgs_val ms else VOverwrite (msgs_val (pre @ a # ms))))"
  shows "commit_messages retain (pre @ a # tail) (ensureMessageIDsInValues g update) = Inr (pre @ a # ensure g ms)"
proof (cases "tail = []")
  case True
  then have "\<forall>m \<in> set ms. msg_id m = [] \<and> msg_role m = RoleTool" using ms by (simp add: list_all_iff)
  from fold_put_ensure [OF this g] True update open_batchD(6) [OF batch] show ?thesis
    by (cases "ms = []") (simp_all add: ensureMessageIDsInValues_def commit_plain, simp add: commit_messages_def ensure_def EnsureIDs_def)
next
  case False
  have "ensure g (pre @ a # ms) = pre @ a # ensure g ms" using ensure_append [OF open_batchD(7) [OF batch], of g ms] by simp
  with False update empty show ?thesis by (auto simp: ensureMessageIDsInValues_def commit_overwrite)
qed

lemma scan_batch:
  assumes batch: "open_batch pre a tail" and ms: "map msg_toolCallID ms = filter (\<lambda>i. i \<in> A) (map tc_id (msg_toolCalls a))"
    "list_all (\<lambda>m. msg_role m = RoleTool \<and> Q m) ms"
  shows "scan {} (pre @ a # ensure g ms) = Some (tc_id ` set (msg_toolCalls a) - A)"
proof -
  note b = open_batchD [OF batch]
  have set: "msg_toolCallID ` set ms = tc_id ` set (msg_toolCalls a) \<inter> A" using arg_cong [OF ms(1), of set] by auto
  have "distinct (map msg_toolCallID ms)" unfolding ms(1) using b(3) by (rule distinct_filter)
  moreover have "msg_toolCallID ` set ms \<subseteq> tc_id ` set (msg_toolCalls a) - {[]}" unfolding set using b(4) by blast
  moreover have "list_all (\<lambda>m. msg_role m = RoleTool) ms" using ms(2) by (simp add: list_all_iff)
  ultimately have "scan (tc_id ` set (msg_toolCalls a)) ms = Some (tc_id ` set (msg_toolCalls a) - msg_toolCallID ` set ms)"
    by (rule scan_answers)
  then show ?thesis unfolding b(8) scan_ensure set by (simp add: Diff_Int_distrib Diff_Int)
qed

text \<open>The batch once its hooks have run.\<close>

lemma executed_batch:
  assumes batch: "open_batch pre a tail" and fresh: "gen_fresh g (pre @ a # tail)" and keeps: "\<And>rt. keeps_call (cp_tools cp) (tool_handler cp rt)"
    and ids: "tc_id ` set (bt_calls bt) \<union> msg_toolCallID ` set (tail @ bt_prefilled bt) = tc_id ` set (msg_toolCalls a)"
    and prefilled: "\<forall>m \<in> set (bt_prefilled bt). msg_role m = RoleTool \<and> msg_id m = []"
    and results: "io_map (run_call env cp values runtime (bt_resumeConsumed bt)) (bt_calls bt) t1 = (t2, Inr results)"
    and pending: "combine_interrupts None results = Inr pending"
    and finish: "finish_batch cp (pre @ a # tail) (length pre) (bt_prefilled bt) results pending = Inr command"
  shows "\<exists>ms waiting. commit_messages retain (pre @ a # tail) (ensureMessageIDsInValues g (cmd_update command)) = Inr (pre @ a # ms) \<and>
    scan {} (pre @ a # ms) = Some waiting \<and> (pending = None \<longrightarrow> waiting = {}) \<and>
    msg_toolCallID ` set tail \<subseteq> msg_toolCallID ` set ms \<and>
    map msg_toolCallID ms = filter (\<lambda>i. i \<notin> waiting) (map tc_id (msg_toolCalls a))"
proof -
  let ?A = "answered (tail @ bt_prefilled bt) results" and ?ids = "tc_id ` set (msg_toolCalls a)"
  note R = executeTools_results(1,2) [OF io_map_Inr [OF results] pending keeps]
  note A = executeTools_results(3,4) [OF io_map_Inr [OF results] pending keeps, where earlier = "tail @ bt_prefilled bt", unfolded ids]
  obtain ms where ms: "map msg_toolCallID ms = filter (\<lambda>i. i \<in> ?A) (map tc_id (msg_toolCalls a))"
    "list_all (\<lambda>m. msg_role m = RoleTool \<and> (tail = [] \<longrightarrow> msg_id m = [])) ms"
    "map_of (cmd_update command) MessagesKey =
      (if ms = [] then None else Some (if tail = [] then msgs_val ms else VOverwrite (msgs_val (pre @ a # ms))))"
    using finish_batch_messages [OF batch A(1) prefilled R finish] by blast
  have "msg_toolCallID ` set tail \<subseteq> ?ids" unfolding ids [symmetric] by auto
  then have kept: "msg_toolCallID ` set tail \<subseteq> msg_toolCallID ` set ms"
    using arg_cong [OF ms(1), of set] by (auto simp: answered_def)
  then have "ms = [] \<Longrightarrow> tail = []" by simp
  note commit = commit_batch [OF batch fresh this ms(2,3), of retain]
  note sc = scan_batch [OF batch ms(1,2), of g]
  have order: "filter (\<lambda>i. i \<in> ?A) (map tc_id (msg_toolCalls a)) = filter (\<lambda>i. i \<notin> ?ids - ?A) (map tc_id (msg_toolCalls a))"
    by (rule filter_cong) simp_all
  have ens: "map msg_toolCallID (ensure g ms) = map msg_toolCallID ms" by (rule ensure_toolCallIDs)
  from arg_cong [OF this, of set] kept have "msg_toolCallID ` set tail \<subseteq> msg_toolCallID ` set (ensure g ms)" by simp
  with commit sc A(2) order ms(1) ens show ?thesis
    by (intro exI [of _ "ensure g ms"] exI [of _ "?ids - ?A"]) simp
qed

lemma completed_ids_tail:
  assumes "\<forall>m \<in> set tail. msg_role m = RoleTool" and "scan P tail = Some Q"
  shows "set (completed_ids tail) = msg_toolCallID ` set tail"
proof -
  have "filter (\<lambda>m. msg_role m = RoleTool \<and> msg_toolCallID m \<noteq> []) tail = tail"
    using assms(1) scan_results [OF assms] by (intro filter_True) blast
  then show ?thesis by (simp add: completed_ids_def)
qed

lemma executeTools_commits:
  assumes "messagesFrom (dget VNil values MessagesKey) = Inr (pre @ a # tail)" and batch: "open_batch pre a tail"
    and hooks: "\<forall>m \<in> set (op_middleware (cp_options cp)). \<forall>f. mw_beforeTools m = Some f \<longrightarrow> covering_hook f"
    and keeps: "\<And>rt. keeps_call (cp_tools cp) (tool_handler cp rt)" and fresh: "\<And>s. gen_fresh (ae_ids env s) (pre @ a # tail)"
    and run: "executeTools env cp values runtime t = (t', Inr command)"
  shows "\<exists>results waiting. commit_messages retain (pre @ a # tail) (cmd_update command) = Inr (pre @ a # results) \<and>
    scan {} (pre @ a # results) = Some waiting \<and> (cmd_interrupt command = None \<longrightarrow> waiting = {}) \<and>
    msg_toolCallID ` set tail \<subseteq> msg_toolCallID ` set results \<and>
    (results = tail \<or> map msg_toolCallID results = filter (\<lambda>i. i \<notin> waiting) (map tc_id (msg_toolCalls a)))"
proof -
  note b = open_batchD [OF batch]
  let ?ids = "tc_id ` set (msg_toolCalls a)"
  let ?calls = "filter (\<lambda>call. tc_id call \<notin> set (completed_ids tail)) (msg_toolCalls a)"
  obtain Q where q: "scan ?ids tail = Some Q" using b(9) by blast
  note tail = scan_results [OF b(5) q] and completed = completed_ids_tail [OF b(5) q]
  have unchanged: ?thesis if "cmd_update command = []" "cmd_interrupt command = None \<Longrightarrow> Q = {}"
    using that q b(8) by (intro exI [of _ tail] exI [of _ Q]) (simp add: commit_messages_def)
  show ?thesis
  proof (cases "?calls = []")
    case True
    with run assms(1) have "command = empty_command"
      by (simp add: executeTools_def io_bind_def io_of_def assistant_index_last [OF b(1,2,5)] Let_def io_ret_def)
    moreover have "Q = {}" using True tail completed by (auto simp: filter_empty_conv)
    ultimately show ?thesis by (intro unchanged) (simp_all add: empty_command_def)
  next
    case False
    let ?b0 = "\<lparr>bt_calls = ?calls, bt_prefilled = [], bt_resumeConsumed = False\<rparr>"
    from run assms(1) False obtain t1 r where r: "before_tools cp values runtime (op_middleware (cp_options cp)) ?b0 t = (t1, Inr r)"
      and rest: "(case r of
          Inl interrupt \<Rightarrow> io_ret (empty_command\<lparr>cmd_interrupt := Some interrupt\<rparr>)
        | Inr b \<Rightarrow>
            io_bind (io_map (run_call env cp values runtime (bt_resumeConsumed b)) (bt_calls b)) (\<lambda>results.
            io_bind (io_of (combine_interrupts None results)) (\<lambda>pendingInterrupt.
            io_bind (io_of (finish_batch cp (pre @ a # tail) (length pre) (bt_prefilled b) results pendingInterrupt)) (\<lambda>command.
            io_bind (io_draw (ae_ids env)) (\<lambda>g.
              io_ret (command\<lparr>cmd_update := ensureMessageIDsInValues g (cmd_update command)\<rparr>)))))) t1 = (t', Inr command)"
      by (auto simp: executeTools_def io_simps assistant_index_last [OF b(1,2,5)] Let_def)
    show ?thesis
    proof (cases r)
      case (Inl interrupt)
      with rest show ?thesis by (intro unchanged) (simp_all add: io_simps empty_command_def)
    next
      case (Inr bt)
      with rest obtain t2 results pending t3 command' where
        results: "io_map (run_call env cp values runtime (bt_resumeConsumed bt)) (bt_calls bt) t1 = (t2, Inr results)"
        and pending: "combine_interrupts None results = Inr pending"
        and finish: "finish_batch cp (pre @ a # tail) (length pre) (bt_prefilled bt) results pending = Inr command'"
        and command: "command = command'\<lparr>cmd_update := ensureMessageIDsInValues (ae_ids env t3) (cmd_update command')\<rparr>"
        by (auto simp: io_simps)
      have cover: "tc_id ` set (bt_calls bt) \<union> msg_toolCallID ` set (bt_prefilled bt) = tc_id ` set ?calls"
        "\<forall>m \<in> set (bt_prefilled bt). msg_role m = RoleTool \<and> msg_id m = []"
        using before_tools_covers [OF r [unfolded Inr] hooks] by simp_all
      have waiting: "tc_id ` set ?calls \<union> msg_toolCallID ` set tail = ?ids"
        using tail unfolding completed by auto
      have "tc_id ` set (bt_calls bt) \<union> msg_toolCallID ` set (tail @ bt_prefilled bt) = ?ids"
        unfolding waiting [symmetric] cover(1) [symmetric] by auto
      from executed_batch [OF batch fresh keeps this cover(2) results pending finish, of retain t3]
      show ?thesis using finish_batch_interrupt [OF finish] command by auto
    qed
  qed
qed


section \<open>A small agent\<close>

definition agent_sample_env :: agentEnv where
  "agent_sample_env = \<lparr>ae_jsonValid = (\<lambda>s. s \<noteq> []), ae_schemaType = (\<lambda>s. Inr None), ae_compileSchema = (\<lambda>s. Inr (\<lambda>d. if d = ''{}'' then Inr () else Inl (Errorf ''schema''))),
     ae_marshalHandoff = (\<lambda>d. CHR ''d'' # d), ae_unmarshalHandoff = (\<lambda>s. case s of [] \<Rightarrow> None | c # d \<Rightarrow> Some d),
     ae_marshalValue = (\<lambda>v. Inr ''v''), ae_errorText = (\<lambda>e. ''failed''), ae_propagates = (\<lambda>e. False), ae_ids = (\<lambda>t. sample_gen), ae_done = (\<lambda>t. None),
     ae_toolWriter = None, ae_streamWriter = None\<rparr>"

definition text_result :: "string \<Rightarrow> toolResult" where
  "text_result text = \<lparr>tlr_content = [empty_block\<lparr>cb_type := BlockText, cb_text := text\<rparr>], tlr_structured = [],
     tlr_status = ToolStatusUnset, tlr_artifact = [], tlr_otherUsage = [], tlr_update = [], tlr_interrupt = None, tlr_handoff = None\<rparr>"

definition sample_tool :: tool where
  "sample_tool = \<lparr>tl_definition = \<lparr>td_name = ''echo'', td_description = ''d'', td_inputSchema = ''{}'', td_strict = False,
       td_direct = False, td_extra = []\<rparr>,
     tl_execute = (\<lambda>arguments rt. io_ret (text_result arguments))\<rparr>"

definition sample_chat :: boundChat where
  "sample_chat = \<lparr>bc_chat = \<lparr>ch_profile = \<lparr>pf_structuredOutput = False, pf_supportsSeparateSystemMessage = False, pf_nativeStreaming = False\<rparr>,
       ch_invoke = (\<lambda>q. io_ret \<lparr>mr_message = msg_Assistant ''done'', mr_structured = []\<rparr>), ch_stream = (\<lambda>q. io_ret ([], None))\<rparr>,
     bc_bindTools = None\<rparr>"

definition agent_sample_options :: "unit agentOptions" where
  "agent_sample_options = \<lparr>op_name = [], op_tools = [Some sample_tool], op_systemMessage = msg_System ''s'', op_middleware = [], op_stateFields = [],
     op_structuredOutput = None, op_saver = None, op_retainThreadState = False, op_deps = VNil, op_recursionLimit = 0,
     op_maxConcurrency = 0, op_failOnToolError = False, op_invocation = 0\<rparr>"

definition agent_sample_compiler :: "unit compiler" where
  "agent_sample_compiler = \<lparr>cp_chat = sample_chat, cp_options = agent_sample_options, cp_tools = [(''echo'', sample_tool)], cp_fields = []\<rparr>"

definition sample_calls :: message where
  "sample_calls = (msg_Assistant [])\<lparr>msg_id := ''a'', msg_toolCalls :=
     [\<lparr>tc_id = ''c1'', tc_name = ''echo'', tc_arguments = ''x''\<rparr>, \<lparr>tc_id = ''c2'', tc_name = ''none'', tc_arguments = ''y''\<rparr>]\<rparr>"

definition agent_sample_runtime :: "agentVal runtime" where
  "agent_sample_runtime = \<lparr>rt_deps = VNil, rt_config = empty_config, rt_configurable = [], rt_previous = [], rt_taskID = [], rt_resume = VNil\<rparr>"

lemma sample_gen_fresh: "\<forall>m \<in> set base. \<exists>c cs. msg_id m = c # cs \<and> c \<noteq> CHR ''u'' \<Longrightarrow> gen_fresh sample_gen base"
  by (force simp: gen_fresh_def fresh_id_def inj_def dec_string_inject)

definition sample_history :: "message list" where
  "sample_history = [sample_human, sample_calls]"

lemma sample_open_batch: "open_batch [sample_human] sample_calls []"
  by (simp add: open_batch_def sample_human_def sample_calls_def msg_Human_def msg_Assistant_def msg_Text_def complete_history_def
      wf_messages_def call_ids_def empty_message_def)

lemma sample_tools_run:
  "case executeTools agent_sample_env agent_sample_compiler [(MessagesKey, msgs_val sample_history)] agent_sample_runtime (Stamp 0 0) of
     (t, Inl e) \<Rightarrow> False | (t, Inr c) \<Rightarrow> cmd_interrupt c = None"
  by code_simp



end
