(* ===== verification/Agent_Middleware.thy ===== *)
theory Agent_Middleware
  imports Agent_Tools
begin

text \<open>
  The middleware of \<^verbatim>\<open>dagent/middleware.go\<close> that acts on tool calls: \<^verbatim>\<open>ToolRetry\<close> repeats a failing call, and
  \<^verbatim>\<open>HumanApproval\<close> holds calls back until a person decides. Both meet the contracts the tools node relies on, stated as
  locales: a wrapper keeps whose call it answers, and a hook before the batch accounts for every call.
\<close>

section \<open>The contracts\<close>

locale call_wrapper =
  fixes wrapper :: toolWrapper
  assumes keeps: "keeps_call tools h \<Longrightarrow> keeps_call tools (\<lambda>request. wrapper request h)"
begin

lemma keeps_wrapped:
  assumes "keeps_call tools (wrap_handler ws h)"
  shows "keeps_call tools (wrap_handler (Some (\<lambda>next request. wrapper request next) # ws) h)"
  using keeps [OF assms] by (simp add: wrap_handler_def)

end

locale batch_hook =
  fixes before_batch :: toolBatchHook
  assumes accounts: "before_batch request t = (t', Inr response) \<Longrightarrow> bp_interrupt response = None \<Longrightarrow> covers request response"
begin

lemma covering: "covering_hook before_batch"
  using accounts unfolding covering_hook_def by blast

end

section \<open>Retries\<close>

record toolRetryOptions =
  ro_name :: string
  ro_attempts :: nat
  ro_backoff :: int
  ro_retryable :: "(gerr \<Rightarrow> bool) option"

text \<open>
  The defaults; negative attempts and backoff panic at construction. \<open>wait_done\<close> is what ends a wait: the context's error, or the timer.
\<close>

definition retry_defaults :: "toolRetryOptions \<Rightarrow> toolRetryOptions" where
  "retry_defaults options = options\<lparr>ro_name := (if ro_name options = [] then ''tool_retry'' else ro_name options),
     ro_attempts := (if ro_attempts options = 0 then 1 else ro_attempts options)\<rparr>"

definition final_error :: "toolRetryOptions \<Rightarrow> gerr \<Rightarrow> bool" where
  "final_error options err \<longleftrightarrow> errors_is err Canceled \<or> errors_is err DeadlineExceeded \<or>
     (case ro_retryable options of None \<Rightarrow> False | Some retryable \<Rightarrow> \<not> retryable err)"

text \<open>\<open>left\<close> counts the attempts that remain after this one.\<close>

fun retry_loop ::
  "(stamp \<Rightarrow> gerr option) \<Rightarrow> toolRetryOptions \<Rightarrow> toolHandler \<Rightarrow> toolCallRequest \<Rightarrow> nat \<Rightarrow> toolCallResponse io" where
  "retry_loop wait_done options next request left =
     io_bind (io_try (next request)) (\<lambda>r.
       case r of
         Inr response \<Rightarrow> io_ret response
       | Inl err \<Rightarrow>
           if final_error options err then io_fail err
           else (case left of
             0 \<Rightarrow> io_fail err
           | Suc rest \<Rightarrow>
               if ro_backoff options > 0 then
                 io_bind (io_draw wait_done) (\<lambda>cancelled.
                   case cancelled of Some e \<Rightarrow> io_fail e | None \<Rightarrow> retry_loop wait_done options next request rest)
               else retry_loop wait_done options next request rest))"

definition ToolRetry_WrapToolCall :: "(stamp \<Rightarrow> gerr option) \<Rightarrow> toolRetryOptions \<Rightarrow> toolWrapper" where
  "ToolRetry_WrapToolCall wait_done options request next =
     (let o1 = retry_defaults options in retry_loop wait_done o1 next request (ro_attempts o1 - 1))"

definition ToolRetry :: "(stamp \<Rightarrow> gerr option) \<Rightarrow> toolRetryOptions \<Rightarrow> middleware" where
  "ToolRetry wait_done options =
     (no_middleware (ro_name (retry_defaults options)))\<lparr>mw_wrapToolCall := Some (ToolRetry_WrapToolCall wait_done options)\<rparr>"

declare retry_loop.simps [simp del]

lemma retry_loop_step:
  assumes "next request t = (t1, r)"
  shows "retry_loop wait_done options next request left t =
    (case r of
       Inr response \<Rightarrow> (t1, Inr response)
     | Inl err \<Rightarrow>
         if final_error options err \<or> left = 0 then (t1, Inl err)
         else if ro_backoff options > 0 then
           (case wait_done t1 of
              Some e \<Rightarrow> (Stamp (st_call t1) (Suc (st_count t1)), Inl e)
            | None \<Rightarrow> retry_loop wait_done options next request (left - 1) (Stamp (st_call t1) (Suc (st_count t1))))
         else retry_loop wait_done options next request (left - 1) t1)"
  by (subst retry_loop.simps)
    (simp add: io_bind_def io_try_def io_ret_def io_fail_def io_draw_def assms split: sum.split nat.split option.split)

lemma retry_loop_success:
  "retry_loop wait_done options next request left t = (t', Inr response) \<Longrightarrow> \<exists>s s'. next request s = (s', Inr response)"
proof (induction left arbitrary: t)
  case 0
  obtain t1 r where n: "next request t = (t1, r)" by fastforce
  with 0 show ?case by (auto simp: retry_loop_step [of "next", OF n] split: sum.splits if_splits)
next
  case (Suc left)
  obtain t1 r where n: "next request t = (t1, r)" by fastforce
  with Suc show ?case by (auto simp: retry_loop_step [of "next", OF n] split: sum.splits if_splits option.splits)
qed

lemma keeps_callI:
  assumes "keeps_call tools h" and "\<And>request t t' response. h' request t = (t', Inr response) \<Longrightarrow> \<exists>s s'. h request s = (s', Inr response)"
  shows "keeps_call tools h'"
  using assms unfolding keeps_call_def by metis

interpretation retrying: call_wrapper "ToolRetry_WrapToolCall wait_done options" for wait_done options
proof
  fix tools h assume "keeps_call tools h"
  then show "keeps_call tools (\<lambda>request. ToolRetry_WrapToolCall wait_done options request h)"
    by (rule keeps_callI) (auto simp: ToolRetry_WrapToolCall_def Let_def dest: retry_loop_success)
qed

section \<open>Human approval\<close>

datatype approvalDecision = ApprovalApprove | ApprovalEdit | ApprovalReject | ApprovalRespond | DecisionOther string

record approvalChoice =
  ac_decision :: approvalDecision
  ac_call :: "toolCall option"
  ac_reason :: string
  ac_message :: string

type_synonym approvalResponse = "(string, approvalChoice) dict"

record approvalRule =
  ar_pattern :: string
  ar_description :: string
  ar_allowed :: "approvalDecision list"
  ar_when :: "(toolCallRequest \<Rightarrow> bool) option"

text \<open>
  The library functions: \<^verbatim>\<open>path.Match\<close>, the JSON package on the arguments of a call, and the decoding of the resume value.
\<close>

record approvalLib =
  al_match :: "string \<Rightarrow> string \<Rightarrow> bool res"
  al_jsonValid :: "string \<Rightarrow> bool"
  al_unmarshal :: "string \<Rightarrow> aval res"
  al_decode :: "aval \<Rightarrow> approvalResponse option"

definition MatchesName :: "approvalLib \<Rightarrow> approvalRule \<Rightarrow> string \<Rightarrow> bool res" where
  "MatchesName lib rule name = al_match lib (ar_pattern rule) name"

definition Applies :: "approvalLib \<Rightarrow> approvalRule \<Rightarrow> toolCallRequest \<Rightarrow> bool res" where
  "Applies lib rule request =
     res_bind (MatchesName lib rule (tc_name (tq_call request))) (\<lambda>matched.
       if \<not> matched then Inr matched
       else Inr (case ar_when rule of None \<Rightarrow> True | Some p \<Rightarrow> p request))"

definition rule_decisions :: "approvalRule \<Rightarrow> approvalDecision list" where
  "rule_decisions rule =
     (if ar_allowed rule = [] then [ApprovalApprove, ApprovalEdit, ApprovalReject, ApprovalRespond] else ar_allowed rule)"

definition allows :: "approvalRule \<Rightarrow> approvalDecision \<Rightarrow> bool" where
  "allows rule decision = list_ex (\<lambda>allowed. allowed = decision) (rule_decisions rule)"

fun validate_decisions :: "approvalDecision list \<Rightarrow> approvalDecision list \<Rightarrow> unit res" where
  "validate_decisions earlier [] = Inr ()"
| "validate_decisions earlier (d # ds) =
     (if d \<noteq> ApprovalApprove \<and> d \<noteq> ApprovalEdit \<and> d \<noteq> ApprovalReject \<and> d \<noteq> ApprovalRespond
      then Inl (Errorf ''approval rule %d has invalid decision %q'')
      else if d \<in> set earlier then Inl (Errorf ''approval rule %d repeats decision %q'')
      else validate_decisions (d # earlier) ds)"

fun ValidateApprovalRules :: "approvalLib \<Rightarrow> approvalRule list \<Rightarrow> unit res" where
  "ValidateApprovalRules lib [] = Inr ()"
| "ValidateApprovalRules lib (rule # rules) =
     (if ar_pattern rule = [] then Inl (Errorf ''approval rule %d requires a tool pattern'')
      else
        res_bind (res_wrap ''approval rule %d pattern %q'' (al_match lib (ar_pattern rule) ''probe'')) (\<lambda>_.
        res_bind (validate_decisions [] (ar_allowed rule)) (\<lambda>_. ValidateApprovalRules lib rules)))"

text \<open>The rule that gates a call: the first whose pattern matches the name decides.\<close>

fun gating_rule :: "approvalLib \<Rightarrow> approvalRule list \<Rightarrow> toolCallRequest \<Rightarrow> approvalRule option res" where
  "gating_rule lib [] request = Inr None"
| "gating_rule lib (rule # rules) request =
     res_bind (res_wrap ''approval pattern %q'' (Applies lib rule request)) (\<lambda>matched.
       if matched then Inr (Some rule)
       else (case MatchesName lib rule (tc_name (tq_call request)) of
         Inr True \<Rightarrow> Inr None
       | _ \<Rightarrow> gating_rule lib rules request))"

text \<open>The calls that wait for a decision with their rules, and the rule of each gated identifier.\<close>

fun gate_calls ::
  "approvalLib \<Rightarrow> approvalRule list \<Rightarrow> toolBatchRequest \<Rightarrow> toolCall list \<Rightarrow> (toolCall \<times> approvalRule) list res" where
  "gate_calls lib rules request [] = Inr []"
| "gate_calls lib rules request (call # calls) =
     res_bind (gating_rule lib rules \<lparr>tq_call = call, tq_tool = map_of (bq_tools request) (tc_name call),
         tq_state = bq_state request, tq_runtime = bq_runtime request\<rparr>) (\<lambda>g.
     res_bind (gate_calls lib rules request calls) (\<lambda>rest.
       Inr (case g of None \<Rightarrow> rest | Some rule \<Rightarrow> (call, rule) # rest)))"

definition matched_rules :: "(toolCall \<times> approvalRule) list \<Rightarrow> (string, approvalRule) dict" where
  "matched_rules pending = fold (\<lambda>(call, rule). dput (tc_id call) rule) pending []"

fun decision_text :: "approvalDecision \<Rightarrow> string" where
  "decision_text ApprovalApprove = ''approve''"
| "decision_text ApprovalEdit = ''edit''"
| "decision_text ApprovalReject = ''reject''"
| "decision_text ApprovalRespond = ''respond''"
| "decision_text (DecisionOther s) = s"

definition approval_record :: "approvalLib \<Rightarrow> toolCall \<times> approvalRule \<Rightarrow> aval res" where
  "approval_record lib cr =
     (case cr of (call, rule) \<Rightarrow>
        res_bind (res_wrap ''encode human approval call %q'' (al_unmarshal lib (tc_arguments call))) (\<lambda>arguments.
          Inr (VMap ([(''call'', VMap [(''id'', VStr (tc_id call)), (''name'', VStr (tc_name call)), (''arguments'', arguments)])] @
            (if ar_description rule = [] then [] else [(''description'', VStr (ar_description rule))]) @
            [(''allowed_decisions'', VSlice (map (\<lambda>d. VStr (decision_text d)) (rule_decisions rule)))]))))"

definition rejection_text :: "toolCall \<Rightarrow> approvalChoice \<Rightarrow> string" where
  "rejection_text call choice =
     (if ac_message choice \<noteq> [] then ac_message choice
      else if ac_reason choice \<noteq> [] then ac_reason choice
      else ''User rejected the tool call for `'' @ tc_name call @ ''` with id '' @ tc_id call @
        ''. The tool was not executed. Do not retry this tool call unless the user explicitly requests it.'')"

text \<open>One call under its decision: what is executed and what is answered.\<close>

definition decide :: "approvalLib \<Rightarrow> (string, approvalRule) dict \<Rightarrow> approvalResponse \<Rightarrow> toolCall \<Rightarrow> (toolCall list \<times> message list) res" where
  "decide lib rules resume call =
     (case map_of rules (tc_id call) of
        None \<Rightarrow> Inr ([call], [])
      | Some rule \<Rightarrow>
          (case map_of resume (tc_id call) of
             None \<Rightarrow> Inl (Errorf ''human approval decision missing for call %q'')
           | Some choice \<Rightarrow>
               if \<not> allows rule (ac_decision choice) then Inl (Errorf ''decision %q is not allowed for tool %q'')
               else (case ac_decision choice of
                   ApprovalApprove \<Rightarrow> Inr ([call], [])
                 | ApprovalEdit \<Rightarrow>
                     (case ac_call choice of
                        None \<Rightarrow> Inl (Errorf ''human approval edit for call %q is invalid'')
                      | Some edit \<Rightarrow>
                          if tc_name edit = [] \<or> \<not> al_jsonValid lib (tc_arguments edit) \<or> (tc_id edit \<noteq> [] \<and> tc_id edit \<noteq> tc_id call)
                          then Inl (Errorf ''human approval edit for call %q is invalid'')
                          else Inr ([edit\<lparr>tc_id := tc_id call\<rparr>], []))
                 | ApprovalReject \<Rightarrow>
                     Inr ([], [(msg_Tool (tc_id call) (rejection_text call choice))\<lparr>msg_name := tc_name call, msg_toolStatus := ToolStatusError\<rparr>])
                 | ApprovalRespond \<Rightarrow>
                     if ac_message choice = [] then Inl (Errorf ''human response for call %q requires a message'')
                     else Inr ([], [(msg_Tool (tc_id call) (ac_message choice))\<lparr>msg_name := tc_name call\<rparr>])
                 | DecisionOther d \<Rightarrow> Inl (Errorf ''human approval decision %q is invalid''))))"

definition no_batch_response :: toolBatchResponse where
  "no_batch_response = \<lparr>bp_calls = None, bp_messages = [], bp_interrupt = None, bp_resumeConsumed = False\<rparr>"

definition HumanApproval_BeforeTools :: "approvalLib \<Rightarrow> approvalRule list \<Rightarrow> toolBatchHook" where
  "HumanApproval_BeforeTools lib rules request =
     io_bind (io_of (gate_calls lib rules request (bq_calls request))) (\<lambda>pending.
       if pending = [] then io_ret no_batch_response
       else if rt_resume (bq_runtime request) = VNil then
         io_bind (io_of (map_res (approval_record lib) pending)) (\<lambda>value.
           io_ret (no_batch_response\<lparr>bp_interrupt := Some \<lparr>it_ID = ''human_approval'', it_value = VSlice value\<rparr>\<rparr>))
       else (case al_decode lib (rt_resume (bq_runtime request)) of
         None \<Rightarrow> io_fail (Errorf ''human approval resume cannot decode from type %T'')
       | Some resume \<Rightarrow>
           io_bind (io_of (map_res (decide lib (matched_rules pending) resume) (bq_calls request))) (\<lambda>decided.
             io_ret \<lparr>bp_calls = Some (concat (map fst decided)), bp_messages = concat (map snd decided),
               bp_interrupt = None, bp_resumeConsumed = True\<rparr>)))"

definition HumanApproval :: "approvalLib \<Rightarrow> approvalRule list \<Rightarrow> middleware res" where
  "HumanApproval lib rules =
     res_bind (ValidateApprovalRules lib rules) (\<lambda>_.
       Inr ((no_middleware ''human_approval'')\<lparr>mw_beforeTools := Some (HumanApproval_BeforeTools lib rules)\<rparr>))"


text \<open>Which calls run: those no rule gates, and those a person approved or edited.\<close>

definition permitted :: "approvalLib \<Rightarrow> (string, approvalRule) dict \<Rightarrow> approvalResponse \<Rightarrow> toolCall \<Rightarrow> toolCall \<Rightarrow> bool" where
  "permitted lib rules resume call run \<longleftrightarrow>
     (case map_of rules (tc_id call) of
        None \<Rightarrow> run = call
      | Some rule \<Rightarrow>
          (\<exists>choice. map_of resume (tc_id call) = Some choice \<and> allows rule (ac_decision choice) \<and>
             (ac_decision choice = ApprovalApprove \<and> run = call \<or>
              ac_decision choice = ApprovalEdit \<and> (\<exists>edit. ac_call choice = Some edit \<and> run = edit\<lparr>tc_id := tc_id call\<rparr>))))"

lemma decide_Inr:
  assumes "decide lib rules resume call = Inr (calls, messages)"
  shows "(\<exists>run. calls = [run] \<and> messages = [] \<and> permitted lib rules resume call run \<and> tc_id run = tc_id call) \<or>
    (\<exists>m. calls = [] \<and> messages = [m] \<and> msg_role m = RoleTool \<and> msg_toolCallID m = tc_id call \<and> msg_id m = [])"
  using assms
  by (auto simp: decide_def permitted_def msg_Tool_def msg_Text_def empty_message_def split: option.splits if_splits approvalDecision.splits)

lemma permitted_id: "permitted lib rules resume c r \<Longrightarrow> tc_id r = tc_id c"
  by (auto simp: permitted_def split: option.splits)

lemma map_res_mem: "map_res f xs = Inr ys \<Longrightarrow> x \<in> set xs \<Longrightarrow> \<exists>y. f x = Inr y"
  by (induction xs arbitrary: ys) (auto simp: res_bind_def split: sum.splits)

lemma map_decide:
  assumes "map_res (decide lib rules resume) calls = Inr decided"
  shows "(\<forall>run \<in> set (concat (map fst decided)). \<exists>call \<in> set calls. permitted lib rules resume call run) \<and>
    tc_id ` set (concat (map fst decided)) \<union> msg_toolCallID ` set (concat (map snd decided)) = tc_id ` set calls \<and>
    (\<forall>m \<in> set (concat (map snd decided)). msg_role m = RoleTool \<and> msg_id m = [])"
  using assms
proof (induction calls arbitrary: decided)
  case (Cons call calls)
  then obtain cm rest where d: "decide lib rules resume call = Inr cm" "map_res (decide lib rules resume) calls = Inr rest" "decided = cm # rest"
    by (auto simp: res_bind_def split: sum.splits)
  obtain c m where cm: "cm = (c, m)" by (cases cm)
  from decide_Inr [OF d(1) [unfolded cm]] Cons.IH [OF d(2)] d(3) cm show ?case by (auto 0 3)
qed simp

lemma HumanApproval_accounts:
  assumes "HumanApproval_BeforeTools lib rules request t = (t', Inr response)" and "bp_interrupt response = None"
  shows "covers request response"
proof -
  from assms obtain pending where p: "gate_calls lib rules request (bq_calls request) = Inr pending"
    by (auto simp: HumanApproval_BeforeTools_def io_simps)
  show ?thesis
  proof (cases "pending = []")
    case True
    with assms(1) p have "response = no_batch_response" by (auto simp: HumanApproval_BeforeTools_def io_simps)
    then show ?thesis by (simp add: covers_def no_batch_response_def)
  next
    case False
    with assms p obtain resume decided where "map_res (decide lib (matched_rules pending) resume) (bq_calls request) = Inr decided"
      and "response = \<lparr>bp_calls = Some (concat (map fst decided)), bp_messages = concat (map snd decided), bp_interrupt = None, bp_resumeConsumed = True\<rparr>"
      by (auto simp: HumanApproval_BeforeTools_def io_simps split: if_splits option.splits)
    with map_decide [OF this(1)] show ?thesis unfolding covers_def by simp
  qed
qed

interpretation approval: batch_hook "HumanApproval_BeforeTools lib rules" for lib rules
  by unfold_locales (rule HumanApproval_accounts)

text \<open>The rule of a gated identifier is a rule of the middleware that applies to one of the calls with it.\<close>

lemma gate_calls_gated:
  assumes "gate_calls lib rules request calls = Inr pending" and "call \<in> set calls"
    and "gating_rule lib rules \<lparr>tq_call = call, tq_tool = map_of (bq_tools request) (tc_name call),
      tq_state = bq_state request, tq_runtime = bq_runtime request\<rparr> = Inr (Some rule)"
  shows "(call, rule) \<in> set pending"
  using assms(1,2)
proof (induction calls arbitrary: pending)
  case (Cons c calls)
  then show ?case using assms(3) by (auto simp: res_bind_def split: sum.splits option.splits)
qed simp

lemma matched_rules_dom: "dom (map_of (matched_rules pending)) = (\<lambda>(call, rule). tc_id call) ` set pending"
proof -
  have "dom (map_of (fold (\<lambda>(call, rule). dput (tc_id call) rule) pending d)) = dom (map_of d) \<union> (\<lambda>(call, rule). tc_id call) ` set pending" for d
    by (induction pending arbitrary: d) (auto simp: fun_upd_apply split: if_splits)
  then show ?thesis by (simp add: matched_rules_def)
qed



section \<open>An agent with approval and retries\<close>

text \<open>The tools of the agent themselves: one that interrupts writes no messages.\<close>

definition quiet_tools :: "(string, tool) dict \<Rightarrow> bool" where
  "quiet_tools tools \<longleftrightarrow> (\<forall>name executable arguments rt t t' result. map_of tools name = Some executable \<longrightarrow>
     tl_execute executable arguments rt t = (t', Inr result) \<longrightarrow> tlr_interrupt result \<noteq> None \<longrightarrow>
     map_of (tlr_update result) MessagesKey = None)"

lemma invoke_tool_keeps: "quiet_tools tools \<Longrightarrow> keeps_call tools (invoke_tool runtime)"
  unfolding keeps_call_def quiet_tools_def
  by (auto simp: invoke_tool_def io_simps split: option.splits)

text \<open>C11: the guarantee of the tools node holds for an agent with human approval and tool retries, whatever the person decides and
  however often the tools fail: every call is answered once and in order, earlier results are kept, and unless the batch is
  interrupted the history is complete.
\<close>

theorem guarded_tools_complete:
  assumes "messagesFrom (dget VNil values MessagesKey) = Inr (pre @ a # tail)" and "open_batch pre a tail"
    and "HumanApproval lib rules = Inr approve" and "op_middleware (cp_options cp) = [approve, ToolRetry wait_done retry]"
    and "quiet_tools (cp_tools cp)" and "\<And>s. gen_fresh (ae_ids env s) (pre @ a # tail)"
    and "executeTools env cp values runtime t = (t', Inr command)"
  shows "\<exists>results waiting. commit_messages retain (pre @ a # tail) (cmd_update command) = Inr (pre @ a # results) \<and>
    scan {} (pre @ a # results) = Some waiting \<and> (cmd_interrupt command = None \<longrightarrow> waiting = {}) \<and>
    msg_toolCallID ` set tail \<subseteq> msg_toolCallID ` set results \<and>
    (results = tail \<or> map msg_toolCallID results = filter (\<lambda>i. i \<notin> waiting) (map tc_id (msg_toolCalls a)))"
proof (rule executeTools_commits [OF assms(1,2) _ _ assms(6,7)])
  have approve: "approve = (no_middleware ''human_approval'')\<lparr>mw_beforeTools := Some (HumanApproval_BeforeTools lib rules)\<rparr>"
    using assms(3) by (auto simp: HumanApproval_def res_bind_def split: sum.splits)
  show "\<forall>m \<in> set (op_middleware (cp_options cp)). \<forall>f. mw_beforeTools m = Some f \<longrightarrow> covering_hook f"
    unfolding assms(4) using approval.covering by (simp add: approve ToolRetry_def no_middleware_def)
  fix rt
  have "keeps_call (cp_tools cp) (wrap_handler [] (invoke_tool rt))"
    using invoke_tool_keeps [OF assms(5)] by (simp add: wrap_handler_def)
  from retrying.keeps_wrapped [OF this] show "keeps_call (cp_tools cp) (tool_handler cp rt)"
    by (simp add: tool_handler_def assms(4) approve ToolRetry_def no_middleware_def wrap_handler_def)
qed

text \<open>One call is gated and waits, the other is not.\<close>

definition sample_lib :: approvalLib where
  "sample_lib = \<lparr>al_match = (\<lambda>pattern name. Inr (pattern = name)), al_jsonValid = (\<lambda>s. s \<noteq> []), al_unmarshal = (\<lambda>s. Inr (VStr s)),
     al_decode = (\<lambda>v. if v = VBool True then Some [(''c1'', \<lparr>ac_decision = ApprovalApprove, ac_call = None, ac_reason = [], ac_message = []\<rparr>)] else None)\<rparr>"

definition sample_rule :: approvalRule where
  "sample_rule = \<lparr>ar_pattern = ''echo'', ar_description = [], ar_allowed = [], ar_when = None\<rparr>"

definition sample_batch :: "aval \<Rightarrow> toolBatchRequest" where
  "sample_batch resume = \<lparr>bq_calls = msg_toolCalls sample_calls, bq_tools = [(''echo'', sample_tool)], bq_state = [],
     bq_runtime = agent_sample_runtime\<lparr>rt_resume := resume\<rparr>\<rparr>"

lemma sample_batch_runs:
  "case HumanApproval_BeforeTools sample_lib [sample_rule] (sample_batch (VBool True)) (Stamp 0 0) of
     (t, Inl e) \<Rightarrow> False | (t, Inr r) \<Rightarrow> bp_interrupt r = None"
  by code_simp



definition sample_retry :: toolRetryOptions where
  "sample_retry = \<lparr>ro_name = [], ro_attempts = 2, ro_backoff = 0, ro_retryable = None\<rparr>"

definition guarded_compiler :: "unit compiler" where
  "guarded_compiler = agent_sample_compiler\<lparr>cp_options := agent_sample_options\<lparr>op_middleware :=
     [(no_middleware ''human_approval'')\<lparr>mw_beforeTools := Some (HumanApproval_BeforeTools sample_lib [sample_rule])\<rparr>,
      ToolRetry (\<lambda>t. None) sample_retry]\<rparr>\<rparr>"

lemma guarded_run:
  "case executeTools agent_sample_env guarded_compiler [(MessagesKey, msgs_val sample_history)]
     (agent_sample_runtime\<lparr>rt_resume := VBool True\<rparr>) (Stamp 0 0) of (t, Inl e) \<Rightarrow> False | (t, Inr c) \<Rightarrow> cmd_interrupt c = None"
  by code_simp

theorem guarded_tools_complete_witness:
  "\<exists>t command results. executeTools agent_sample_env guarded_compiler [(MessagesKey, msgs_val sample_history)]
       (agent_sample_runtime\<lparr>rt_resume := VBool True\<rparr>) (Stamp 0 0) = (t, Inr command) \<and>
     commit_messages True sample_history (cmd_update command) = Inr (sample_history @ results) \<and> complete_history (sample_history @ results)"
proof -
  let ?approve = "(no_middleware ''human_approval'')\<lparr>mw_beforeTools := Some (HumanApproval_BeforeTools sample_lib [sample_rule])\<rparr>"
  obtain t command where run: "executeTools agent_sample_env guarded_compiler [(MessagesKey, msgs_val sample_history)]
      (agent_sample_runtime\<lparr>rt_resume := VBool True\<rparr>) (Stamp 0 0) = (t, Inr command)" "cmd_interrupt command = None"
    using guarded_run by (auto split: prod.splits sum.splits)
  have h: "HumanApproval sample_lib [sample_rule] = Inr ?approve"
    by (simp add: HumanApproval_def sample_lib_def sample_rule_def res_wrap_def)
  have mw: "op_middleware (cp_options guarded_compiler) = [?approve, ToolRetry (\<lambda>t. None) sample_retry]"
    by (simp add: guarded_compiler_def)
  have quiet: "quiet_tools (cp_tools guarded_compiler)"
    by (auto simp: quiet_tools_def guarded_compiler_def agent_sample_compiler_def sample_tool_def text_result_def io_simps split: if_splits)
  have hist: "messagesFrom (dget VNil [(MessagesKey, msgs_val sample_history)] MessagesKey) = Inr ([sample_human] @ sample_calls # [])"
    by (simp add: dget_def messagesFrom_def sample_history_def)
  have "gen_fresh sample_gen ([sample_human] @ sample_calls # [])"
    by (rule sample_gen_fresh) (simp add: sample_human_def sample_calls_def)
  then have fresh: "gen_fresh (ae_ids agent_sample_env s) ([sample_human] @ sample_calls # [])" for s
    by (simp add: agent_sample_env_def)
  note guarded_tools_complete [where retain = True, OF hist sample_open_batch h mw quiet fresh run(1)]
  with run show ?thesis by (auto simp: sample_history_def complete_history_def)
qed

end
