(* ===== verification/Agent_Model.thy ===== *)
theory Agent_Model
  imports Agent_Stream Agent_Middleware
begin

text \<open>
  The model node of an agent and the nodes around the loop (\<^verbatim>\<open>dagent/agent.go\<close>): the hooks before and after the agent and the
  model, the handler that calls the model inside the wrappers, structured output with its retries, and the two routers.
\<close>

section \<open>Structured output\<close>

definition prepareStructuredOutput :: "agentEnv \<Rightarrow> structuredOutput option \<Rightarrow> structuredOutput option res" where
  "prepareStructuredOutput env output =
     (case output of
        None \<Rightarrow> Inr None
      | Some so \<Rightarrow>
          if so_name so = [] \<or> \<not> ae_jsonValid env (so_schema so) then Inl (Errorf ''structured output requires a name and valid JSON schema'')
          else if so_maxRetries so < 0 then Inl (Errorf ''structured output retries cannot be negative'')
          else if (case so_strategy so of StrategyOther s \<Rightarrow> True | _ \<Rightarrow> False) then Inl (Errorf ''unsupported structured output strategy %q'')
          else res_bind (res_wrap ''compile structured output schema'' (ae_compileSchema env (so_schema so))) (\<lambda>compiled.
            Inr (Some (so\<lparr>so_compiled := Some compiled\<rparr>))))"

definition validateStructured :: "structuredOutput \<Rightarrow> string \<Rightarrow> unit res" where
  "validateStructured output raw =
     (case so_compiled output of
        None \<Rightarrow> Inl (Wrapf ''%w: schema is not compiled'' ErrStructuredValidation)
      | Some check \<Rightarrow> (case check raw of Inl e \<Rightarrow> Inl (Wrapf ''%w: %v'' ErrStructuredValidation) | Inr u \<Rightarrow> Inr ()))"

definition structuredFailure :: "agentEnv \<Rightarrow> message \<Rightarrow> toolCall option \<Rightarrow> structuredOutput \<Rightarrow> string \<Rightarrow> modelResponse res" where
  "structuredFailure env assistant call output detail =
     (let err = Wrapf (''%w: '' @ detail) ErrStructuredValidation;
          text = ae_errorText env err @ ''. Return a corrected value matching the declared schema.''
      in if \<not> so_handleErrors output then Inl err
         else Inr \<lparr>mp_messages = [assistant, (case call of Some c \<Rightarrow> error_result c text | None \<Rightarrow> msg_Human text)],
           mp_structured = [], mp_update = [(structuredRetryKey, VBool True)]\<rparr>)"

definition configureStructuredRequest :: "structuredOutput option \<Rightarrow> modelRequest \<Rightarrow> modelRequest" where
  "configureStructuredRequest output request =
     (case output of
        None \<Rightarrow> request
      | Some so \<Rightarrow>
          let strategy = (if so_strategy so = StrategyUnset \<or> so_strategy so = StructuredAuto
                then if pf_structuredOutput (ch_profile (bc_chat (mq_model request))) then StructuredProvider else StructuredTool
                else so_strategy so)
          in if strategy = StructuredProvider
             then request\<lparr>mq_responseFormat := Some \<lparr>rf_name = so_name so, rf_description = so_description so,
               rf_schema = so_schema so, rf_strict = so_strict so\<rparr>\<rparr>
             else request\<lparr>mq_tools := mq_tools request @ [\<lparr>tl_definition = \<lparr>td_name = so_name so, td_description = so_description so,
                 td_inputSchema = so_schema so, td_strict = False, td_direct = False, td_extra = []\<rparr>,
               tl_execute = (\<lambda>arguments rt. io_fail (Errorf ''execute tool %q: implementation is nil''))\<rparr>]\<rparr>)"

definition plain_response :: "message \<Rightarrow> modelResponse" where
  "plain_response m = \<lparr>mp_messages = [m], mp_structured = [], mp_update = []\<rparr>"

text \<open>The answer through the synthetic tool: \<open>matching\<close> are its calls.\<close>

definition structured_call :: "agentEnv \<Rightarrow> message \<Rightarrow> structuredOutput \<Rightarrow> toolCall \<Rightarrow> modelResponse res" where
  "structured_call env m output call =
     (if \<not> ae_jsonValid env (tc_arguments call)
      then structuredFailure env m (Some call) output ''structured output arguments are invalid JSON''
      else (case validateStructured output (tc_arguments call) of
          Inl e \<Rightarrow> structuredFailure env m (Some call) output (ae_errorText env e)
        | Inr u \<Rightarrow>
            Inr \<lparr>mp_messages = [m, (msg_Tool (tc_id call)
                (if so_toolMessageContent output = [] then ''Returning structured response'' else so_toolMessageContent output))
                \<lparr>msg_name := tc_name call\<rparr>],
              mp_structured = tc_arguments call, mp_update = []\<rparr>))"

definition handleStructuredResponse :: "agentEnv \<Rightarrow> modelResult \<Rightarrow> structuredOutput option \<Rightarrow> modelResponse res" where
  "handleStructuredResponse env response output =
     (case output of
        None \<Rightarrow> Inr (plain_response (mr_message response))
      | Some so \<Rightarrow>
          let m = mr_message response;
              strategy = (if so_strategy so = StrategyUnset \<or> so_strategy so = StructuredAuto
                then if mr_structured response \<noteq> [] then StructuredProvider else StructuredTool
                else so_strategy so)
          in if strategy = StructuredProvider then
               (if mr_structured response = [] \<or> \<not> ae_jsonValid env (mr_structured response)
                then structuredFailure env m None so ''provider structured response is missing or invalid''
                else (case validateStructured so (mr_structured response) of
                    Inl e \<Rightarrow> structuredFailure env m None so (ae_errorText env e)
                  | Inr u \<Rightarrow> Inr ((plain_response m)\<lparr>mp_structured := mr_structured response\<rparr>)))
             else (case filter (\<lambda>call. tc_name call = so_name so) (msg_toolCalls m) of
                 [] \<Rightarrow>
                   (case filter (\<lambda>call. ic_name call = so_name so) (msg_invalidToolCalls m) of
                      [] \<Rightarrow> if msg_toolCalls m = [] then structuredFailure env m None so ''required structured output tool was not called''
                            else Inr (plain_response m)
                    | [bad] \<Rightarrow>
                        structuredFailure env m (Some \<lparr>tc_id = ic_id bad, tc_name = ic_name bad, tc_arguments = ic_arguments bad\<rparr>) so
                          ''structured output arguments are invalid JSON''
                    | _ \<Rightarrow> Inl (Wrapf ''%w: multiple invalid structured output calls'' ErrInvalidModelOutput))
               | [call] \<Rightarrow> structured_call env m so call
               | _ \<Rightarrow> Inl (Wrapf ''%w: multiple structured output calls'' ErrInvalidModelOutput)))"

section \<open>Calling the model\<close>

text \<open>\<^verbatim>\<open>Definition.Validate\<close>.\<close>

definition has_space :: "string \<Rightarrow> bool" where
  "has_space s \<longleftrightarrow> list_ex (\<lambda>c. c = CHR '' '' \<or> c = CHR 0x09 \<or> c = CHR 0x0D \<or> c = CHR 0x0A) s"

definition definition_Validate :: "agentEnv \<Rightarrow> toolDefinition \<Rightarrow> unit res" where
  "definition_Validate env d =
     (if blank (td_name d) then Inl (Wrapf ''%w: name is required'' ErrInvalidDefinition)
      else if has_space (td_name d) then Inl (Wrapf ''%w: name %q contains whitespace'' ErrInvalidDefinition)
      else if blank (td_description d) then Inl (Wrapf ''%w: description is required'' ErrInvalidDefinition)
      else if \<not> ae_jsonValid env (td_inputSchema d) then Inl (Wrapf ''%w: input schema is not valid JSON'' ErrInvalidDefinition)
      else (case ae_schemaType env (td_inputSchema d) of
          Inl e \<Rightarrow> Inl (Wrapf ''%w: input schema must be an object'' ErrInvalidDefinition)
        | Inr schemaType \<Rightarrow>
            if schemaType \<noteq> None \<and> schemaType \<noteq> Some (Some ''object'')
            then Inl (Wrapf ''%w: input schema type must be object'' ErrInvalidDefinition)
            else if list_ex (\<lambda>(k, v). k = [] \<or> \<not> ae_jsonValid env v) (td_extra d)
            then Inl (Wrapf ''%w: extra %q is not valid JSON'' ErrInvalidDefinition)
            else Inr ()))"

definition ResponseMetadataKey :: string where "ResponseMetadataKey = ''dago.model.response.v1''"

text \<open>The marks the agent puts on an answer.\<close>

definition mark_response :: "string \<Rightarrow> message \<Rightarrow> message" where
  "mark_response name m =
     (let m1 = m\<lparr>msg_responseMetadata := dput ResponseMetadataKey ''true'' (msg_responseMetadata m)\<rparr>
      in if name \<noteq> [] \<and> msg_name m1 = [] then m1\<lparr>msg_name := name\<rparr> else m1)"

text \<open>
  The handler inside the wrappers. A failing call may also be reported to the retry observers, which has no effect on the result.
\<close>

definition modelHandler :: "agentEnv \<Rightarrow> 's compiler \<Rightarrow> modelCallHandler" where
  "modelHandler env cp request =
     io_bind (io_of (map_res (\<lambda>executable. res_bind (definition_Validate env (tl_definition executable)) (\<lambda>_. Inr (tl_definition executable)))
       (mq_tools request))) (\<lambda>definitions.
     let retain = op_retainThreadState (cp_options cp);
         messages = (if \<not> retain then cloneMessages (mq_messages request) else mq_messages request);
         separate = retain \<and> pf_supportsSeparateSystemMessage (ch_profile (bc_chat (mq_model request)));
         system = msg_Clone (mq_systemMessage request)
     in io_bind (case bc_bindTools (mq_model request) of
            Some bind_tools \<Rightarrow> if definitions \<noteq> [] then io_of (bind_tools definitions) else io_ret (bc_chat (mq_model request))
          | None \<Rightarrow> io_ret (bc_chat (mq_model request))) (\<lambda>model.
        let providerRequest = \<lparr>pq_messages = (if separate then messages else system # messages),
              pq_systemMessage = (if separate then Some system else None), pq_tools = definitions,
              pq_responseFormat = mq_responseFormat request, pq_settings = mq_settings request\<rparr>
        in io_bind (case ae_streamWriter env of
               Some write_event \<Rightarrow>
                 if pf_nativeStreaming (ch_profile model) then invokeModelStream env model providerRequest write_event
                 else ch_invoke model providerRequest
             | None \<Rightarrow> ch_invoke model providerRequest) (\<lambda>response.
           if msg_role (mr_message response) \<noteq> RoleAssistant then io_fail (Wrapf ''%w: response role is %q'' ErrInvalidModelOutput)
           else io_of (handleStructuredResponse env
             (response\<lparr>mr_message := mark_response (op_name (cp_options cp)) (mr_message response)\<rparr>)
             (op_structuredOutput (cp_options cp))))))"

definition wrapped_model :: "agentEnv \<Rightarrow> 's compiler \<Rightarrow> modelCallHandler" where
  "wrapped_model env cp =
     wrap_handler (map (\<lambda>m. map_option (\<lambda>w next request. w request next) (mw_wrapModelCall m)) (op_middleware (cp_options cp)))
       (modelHandler env cp)"

section \<open>The nodes\<close>

text \<open>One hook: it sees a copy of the current state, and its update is merged.\<close>

definition run_hook ::
  "agentEnv \<Rightarrow> bool \<Rightarrow> string \<Rightarrow> (middleware \<Rightarrow> hook option) \<Rightarrow> agentVal runtime \<Rightarrow> middleware \<Rightarrow> avals \<times> avals \<Rightarrow> (avals \<times> avals) io" where
  "run_hook env retain what which runtime m cc =
     (case which m of
        None \<Rightarrow> io_ret cc
      | Some f \<Rightarrow>
          io_bind (io_wrap what (f (values_Clone (fst cc)) (convertRuntime runtime))) (\<lambda>result.
          io_bind (io_draw (ae_ids env)) (\<lambda>g.
            io_ret (compiler_mergeUpdate retain g result cc))))"

definition finish_update :: "agentEnv \<Rightarrow> agentVal command \<Rightarrow> agentVal command io" where
  "finish_update env command =
     io_bind (io_draw (ae_ids env)) (\<lambda>g. io_ret (command\<lparr>cmd_update := ensureMessageIDsInValues g (cmd_update command)\<rparr>))"

definition beforeAgent :: "agentEnv \<Rightarrow> 's compiler \<Rightarrow> avals \<Rightarrow> agentVal runtime \<Rightarrow> agentVal command io" where
  "beforeAgent env cp values runtime =
     io_bind (io_fold (run_hook env (op_retainThreadState (cp_options cp)) ''middleware %q before agent'' mw_beforeAgent runtime)
       (op_middleware (cp_options cp)) (values_Clone values, [])) (\<lambda>cc.
     finish_update env (empty_command\<lparr>cmd_update := snd cc\<rparr>))"

definition afterAgent :: "agentEnv \<Rightarrow> 's compiler \<Rightarrow> avals \<Rightarrow> agentVal runtime \<Rightarrow> agentVal command io" where
  "afterAgent env cp values runtime =
     io_bind (io_fold (run_hook env (op_retainThreadState (cp_options cp)) ''middleware %q after agent'' mw_afterAgent runtime)
       (rev (op_middleware (cp_options cp))) (values_Clone values, [])) (\<lambda>cc.
       case map_of (snd cc) jumpToKey of
         None \<Rightarrow> finish_update env (empty_command\<lparr>cmd_update := snd cc\<rparr>)
       | Some destination \<Rightarrow>
           if destination \<noteq> VStr ''model'' then io_fail (Errorf ''after-agent jump destination must be model, got %v'')
           else finish_update env (empty_command\<lparr>cmd_update := ddel jumpToKey (snd cc), cmd_goto := [''model'']\<rparr>))"

definition hasAfterModelHook :: "'s compiler \<Rightarrow> bool" where
  "hasAfterModelHook cp = list_ex (\<lambda>m. mw_afterModel m \<noteq> None) (op_middleware (cp_options cp))"

definition toolsSlice :: "(string, tool) dict \<Rightarrow> tool list" where
  "toolsSlice tools = concat (map (\<lambda>name. case map_of tools name of None \<Rightarrow> [] | Some executable \<Rightarrow> [executable]) (sorted_keys tools))"

text \<open>The count of retries as a Go \<^verbatim>\<open>int\<close>; a value of another type reads as zero.\<close>

definition retry_count :: "avals \<Rightarrow> 64 word" where
  "retry_count current = (case map_of current structuredRetryCountKey of Some (VInt n) \<Rightarrow> n | _ \<Rightarrow> 0)"

definition count_retry :: "structuredOutput option \<Rightarrow> avals \<Rightarrow> modelResponse \<Rightarrow> modelResponse res" where
  "count_retry output current response =
     (if map_of (mp_update response) structuredRetryKey \<noteq> Some (VBool True) then Inr response
      else
        let n = retry_count current + 1 in
        case output of
          None \<Rightarrow> Inl NilCall
        | Some so \<Rightarrow>
            if so_maxRetries so > 0 \<and> sint n > so_maxRetries so
            then Inl (Wrapf ''%w: retry limit exhausted after %d invalid responses'' ErrStructuredValidation)
            else Inr (response\<lparr>mp_update := dput structuredRetryCountKey (VInt n) (mp_update response)\<rparr>))"

definition merge_response :: "agentEnv \<Rightarrow> 's compiler \<Rightarrow> modelResponse \<Rightarrow> avals \<times> avals \<Rightarrow> (avals \<times> avals) io" where
  "merge_response env cp response cc =
     (if hasAfterModelHook cp then
        io_bind (io_draw (ae_ids env)) (\<lambda>g1. io_bind (io_draw (ae_ids env)) (\<lambda>g2.
          io_ret (compiler_mergeUpdate (op_retainThreadState (cp_options cp)) g2 (mp_update response)
            (compiler_mergeUpdate (op_retainThreadState (cp_options cp)) g1 [(MessagesKey, msgs_val (mp_messages response))] cc))))
      else io_ret (fst cc, mergePendingUpdate (mp_update response)
        (mergePendingUpdate [(MessagesKey, msgs_val (mp_messages response))] (snd cc))))"

definition model_node :: "agentEnv \<Rightarrow> 's compiler \<Rightarrow> avals \<Rightarrow> agentVal runtime \<Rightarrow> agentVal command io" where
  "model_node env cp values runtime =
     io_bind (io_fold (run_hook env (op_retainThreadState (cp_options cp)) ''middleware %q before model'' mw_beforeModel runtime)
       (op_middleware (cp_options cp)) (values_Clone values, [])) (\<lambda>cc.
     io_bind (io_of (if op_retainThreadState (cp_options cp) then messagesView (dget VNil (fst cc) MessagesKey)
       else messagesFrom (dget VNil (fst cc) MessagesKey))) (\<lambda>messages.
     let request = configureStructuredRequest (op_structuredOutput (cp_options cp))
           \<lparr>mq_model = cp_chat cp, mq_messages = messages, mq_systemMessage = msg_Clone (op_systemMessage (cp_options cp)),
            mq_tools = toolsSlice (cp_tools cp), mq_responseFormat = None, mq_settings = 0,
            mq_state = values_Clone (fst cc), mq_runtime = convertRuntime runtime,
            mq_messagesReadOnly = op_retainThreadState (cp_options cp), mq_invocation = op_invocation (cp_options cp)\<rparr>
     in io_bind (wrapped_model env cp request) (\<lambda>response0.
     io_bind (io_of (count_retry (op_structuredOutput (cp_options cp)) (fst cc) response0)) (\<lambda>response.
       if mp_messages response = [] then io_fail (Wrapf ''%w: model returned no messages'' ErrInvalidModelOutput)
       else
         io_bind (merge_response env cp response cc) (\<lambda>cc1.
         io_bind (io_fold (run_hook env (op_retainThreadState (cp_options cp)) ''middleware %q after model'' mw_afterModel runtime)
           (rev (op_middleware (cp_options cp)))
           (fst cc1, if mp_structured response \<noteq> [] then dput StructuredResponseKey (VOpaque (ARaw (mp_structured response))) (snd cc1) else snd cc1))
           (\<lambda>cc2. finish_update env (empty_command\<lparr>cmd_update := snd cc2\<rparr>)))))))"

section \<open>The routers\<close>

definition flag :: "avals \<Rightarrow> string \<Rightarrow> bool" where
  "flag values key \<longleftrightarrow> map_of values key = Some (VBool True)"

definition routeModel :: "avals \<Rightarrow> string list res" where
  "routeModel values =
     (if flag values structuredRetryKey then Inr [''model'']
      else if map_of values StructuredResponseKey \<noteq> None then Inr [''after_agent'']
      else res_bind (messagesView (dget VNil values MessagesKey)) (\<lambda>messages.
        Inr [if messages \<noteq> [] \<and> msg_toolCalls (messages ! (length messages - 1)) \<noteq> [] then ''tools'' else ''after_agent'']))"

definition routeTools :: "avals \<Rightarrow> string list res" where
  "routeTools values = Inr [if flag values toolDirectKey then ''after_agent'' else ''model'']"


section \<open>Structured retries are bounded\<close>

text \<open>
  Model turns that ask for a retry, one directly after the other: the count that one turn commits is what the next one reads.
\<close>

fun retry_turns :: "structuredOutput \<Rightarrow> modelResponse list \<Rightarrow> avals \<Rightarrow> avals res" where
  "retry_turns so [] state = Inr state"
| "retry_turns so (r # rs) state =
     res_bind (count_retry (Some so) state r) (\<lambda>response. retry_turns so rs (mp_update response))"

definition asks_retry :: "modelResponse \<Rightarrow> bool" where
  "asks_retry r \<longleftrightarrow> map_of (mp_update r) structuredRetryKey = Some (VBool True)"

lemma count_retry_count:
  assumes "asks_retry r" and "count_retry (Some so) state r = Inr response" and "so_maxRetries so > 0"
    and "so_maxRetries so < 2 ^ 63 - 1" and "0 \<le> sint (retry_count state)" and "sint (retry_count state) \<le> so_maxRetries so"
  shows "sint (retry_count (mp_update response)) = sint (retry_count state) + 1 \<and> sint (retry_count (mp_update response)) \<le> so_maxRetries so"
proof -
  have no_wrap: "sint (retry_count state + 1) = sint (retry_count state) + 1"
    using assms(4-6) by (subst sint_word_ariths) (simp add: signed_take_bit_int_eq_self)
  have "response = r\<lparr>mp_update := dput structuredRetryCountKey (VInt (retry_count state + 1)) (mp_update r)\<rparr>"
    "sint (retry_count state + 1) \<le> so_maxRetries so"
    using assms(1-3) by (auto simp: count_retry_def asks_retry_def Let_def split: if_splits)
  with no_wrap show ?thesis by (simp add: retry_count_def)
qed

lemma retry_turns_count:
  assumes "list_all asks_retry rs" and "retry_turns so rs state = Inr state'" and "so_maxRetries so > 0" and "so_maxRetries so < 2 ^ 63 - 1"
    and "0 \<le> sint (retry_count state)" and "sint (retry_count state) \<le> so_maxRetries so"
  shows "sint (retry_count state') = sint (retry_count state) + int (length rs) \<and> sint (retry_count state') \<le> so_maxRetries so"
  using assms
proof (induction rs arbitrary: state)
  case (Cons r rs)
  from Cons.prems(2) obtain response where r: "count_retry (Some so) state r = Inr response"
    and rest: "retry_turns so rs (mp_update response) = Inr state'" by (auto simp: res_bind_def split: sum.splits)
  have "asks_retry r" using Cons.prems(1) by simp
  note count = count_retry_count [OF this r Cons.prems(3-6)]
  have "list_all asks_retry rs" using Cons.prems(1) by simp
  from Cons.IH [OF this rest Cons.prems(3,4)] count Cons.prems(5) show ?case by simp
qed simp


definition sample_output :: structuredOutput where
  "sample_output = \<lparr>so_strategy = StructuredTool, so_name = ''answer'', so_description = ''d'', so_schema = ''{}'', so_strict = True,
     so_handleErrors = True, so_maxRetries = 2, so_toolMessageContent = [], so_compiled = Some (\<lambda>d. Inl (Errorf ''schema''))\<rparr>"

definition sample_retry_response :: modelResponse where
  "sample_retry_response = \<lparr>mp_messages = [], mp_structured = [], mp_update = [(structuredRetryKey, VBool True)]\<rparr>"

lemma sample_retry_turns:
  "retry_turns sample_output [sample_retry_response, sample_retry_response] [] =
     Inr [(structuredRetryKey, VBool True), (structuredRetryCountKey, VInt 2)]"
  by (simp add: count_retry_def sample_retry_response_def sample_output_def retry_count_def Let_def)



section \<open>A retry with other calls waiting\<close>

lemma scan_None: "msg_role m \<noteq> RoleTool \<Longrightarrow> P \<noteq> {} \<Longrightarrow> scan P (m # ms) = None"
  by simp

lemma structuredFailure_shape:
  assumes "structuredFailure env m call so detail = Inr r"
  shows "\<exists>x. mp_messages r = [m, x] \<and> (case call of None \<Rightarrow> msg_role x = RoleHuman | Some c \<Rightarrow> msg_role x = RoleTool \<and> msg_toolCallID x = tc_id c)"
  using assms by (auto simp: structuredFailure_def Let_def error_result_def msg_Tool_def msg_Human_def msg_Text_def
      split: if_splits option.splits)

text \<open>What a retry answers: nothing, the one structured call, or the one invalid structured call.\<close>

lemma handleStructured_retry:
  assumes "handleStructuredResponse env \<lparr>mr_message = m, mr_structured = s\<rparr> (Some so) = Inr r" and "asks_retry r"
  shows "\<exists>x. mp_messages r = [m, x] \<and> (msg_role x = RoleHuman \<or> msg_role x = RoleTool \<and>
    (\<exists>c \<in> set (msg_toolCalls m). tc_name c = so_name so \<and> tc_id c = msg_toolCallID x) \<or>
    msg_role x = RoleTool \<and> (\<exists>c \<in> set (msg_invalidToolCalls m). ic_name c = so_name so \<and> ic_id c = msg_toolCallID x))"
proof -
  have plain: "\<not> asks_retry (plain_response m)" "\<not> asks_retry ((plain_response m)\<lparr>mp_structured := t\<rparr>)" for t
    by (simp_all add: asks_retry_def plain_response_def)
  from assms consider detail where "structuredFailure env m None so detail = Inr r"
    | call where "filter (\<lambda>call. tc_name call = so_name so) (msg_toolCalls m) = [call]" "structured_call env m so call = Inr r"
    | bad detail where "filter (\<lambda>call. ic_name call = so_name so) (msg_invalidToolCalls m) = [bad]"
        "structuredFailure env m (Some \<lparr>tc_id = ic_id bad, tc_name = ic_name bad, tc_arguments = ic_arguments bad\<rparr>) so detail = Inr r"
    using plain by (auto simp: handleStructuredResponse_def Let_def split: if_splits sum.splits list.splits)
  then show ?thesis
  proof cases
    case 1
    from structuredFailure_shape [OF 1] show ?thesis by auto
  next
    case 2
    have "call \<in> set (filter (\<lambda>call. tc_name call = so_name so) (msg_toolCalls m))" unfolding 2(1) by simp
    then have c: "call \<in> set (msg_toolCalls m)" "tc_name call = so_name so" by simp_all
    from 2(2) assms(2) obtain detail where "structuredFailure env m (Some call) so detail = Inr r"
      by (auto simp: structured_call_def asks_retry_def split: if_splits sum.splits)
    from structuredFailure_shape [OF this] c show ?thesis by auto
  next
    case 3
    have "bad \<in> set (filter (\<lambda>call. ic_name call = so_name so) (msg_invalidToolCalls m))" unfolding 3(1) by simp
    then have c: "bad \<in> set (msg_invalidToolCalls m)" "ic_name bad = so_name so" by simp_all
    from structuredFailure_shape [OF 3(2)] c show ?thesis by auto
  qed
qed

text \<open>
  A structured retry leaves the other calls of the turn without results. When an answer that must be corrected also calls another
  tool, the messages of the retry answer at most the structured call, so the history is not complete, and the router sends the
  agent back to the model with it.
\<close>

theorem structured_retry_unanswered:
  assumes "complete_history ms" and "msg_role m = RoleAssistant"
    and "handleStructuredResponse env \<lparr>mr_message = m, mr_structured = s\<rparr> (Some so) = Inr r" and "asks_retry r"
    and "c \<in> set (msg_toolCalls m)" and "tc_id c \<noteq> []"
    and "\<forall>c' \<in> set (msg_toolCalls m). tc_name c' = so_name so \<longrightarrow> tc_id c' \<noteq> tc_id c"
    and "\<forall>c' \<in> set (msg_invalidToolCalls m). ic_name c' = so_name so \<longrightarrow> ic_id c' \<noteq> tc_id c"
  shows "\<not> complete_history (ms @ mp_messages r) \<and> (flag state structuredRetryKey \<longrightarrow> routeModel state = Inr [''model''])"
proof -
  obtain x where x: "mp_messages r = [m, x]" and kind: "msg_role x = RoleHuman \<or> msg_role x = RoleTool \<and> msg_toolCallID x \<noteq> tc_id c"
    using handleStructured_retry [OF assms(3,4)] assms(7,8) by metis
  have waits: "tc_id c \<in> set (call_ids m)" using assms(5,6) by (auto simp: call_ids_def)
  have "scan (set (call_ids m)) [x] \<noteq> Some {}"
    using kind waits by (auto split: if_splits)
  then have "\<not> complete_history (ms @ mp_messages r)"
    using assms(1,2) x by (simp add: complete_history_def scan_append)
  then show ?thesis by (simp add: routeModel_def)
qed

definition mixed_answer :: message where
  "mixed_answer = (msg_Assistant [])\<lparr>msg_toolCalls :=
     [\<lparr>tc_id = ''s'', tc_name = ''answer'', tc_arguments = ''x''\<rparr>, \<lparr>tc_id = ''g'', tc_name = ''grep'', tc_arguments = ''y''\<rparr>]\<rparr>"

theorem structured_retry_unanswered_witness:
  "\<exists>r. handleStructuredResponse agent_sample_env \<lparr>mr_message = mixed_answer, mr_structured = []\<rparr> (Some sample_output) = Inr r \<and>
     \<not> complete_history ([sample_human] @ mp_messages r)"
proof -
  obtain r where r: "handleStructuredResponse agent_sample_env \<lparr>mr_message = mixed_answer, mr_structured = []\<rparr> (Some sample_output) = Inr r"
    "asks_retry r"
    by (simp add: handleStructuredResponse_def sample_output_def mixed_answer_def structured_call_def agent_sample_env_def
        validateStructured_def structuredFailure_def asks_retry_def Let_def)
  have hist: "complete_history [sample_human]" by (simp add: complete_history_def sample_human_def msg_Human_def msg_Text_def)
  have role: "msg_role mixed_answer = RoleAssistant" by (simp add: mixed_answer_def msg_Assistant_def msg_Text_def)
  have call: "\<lparr>tc_id = ''g'', tc_name = ''grep'', tc_arguments = ''y''\<rparr> \<in> set (msg_toolCalls mixed_answer)"
    by (simp add: mixed_answer_def)
  have "msg_invalidToolCalls mixed_answer = []" by (simp add: mixed_answer_def msg_Assistant_def msg_Text_def empty_message_def)
  with structured_retry_unanswered [OF hist role r call, where state = "[]"]
  have "\<not> complete_history ([sample_human] @ mp_messages r)" by (simp add: mixed_answer_def sample_output_def)
  with r(1) show ?thesis by blast
qed

section \<open>Before the agent\<close>

definition PatchToolCalls :: middleware where
  "PatchToolCalls = (no_middleware ''patch_tool_calls'')
     \<lparr>mw_beforeAgent := Some (\<lambda>values runtime. io_of (PatchToolCalls_BeforeAgent values))\<rparr>"

lemma io_fold_filter: "(\<And>x s. \<not> P x \<Longrightarrow> f x s = io_ret s) \<Longrightarrow> io_fold f xs s = io_fold f (filter P xs) s"
proof (induction xs arbitrary: s)
  case (Cons x xs)
  have "io_bind (io_ret s) g = g s" for s :: 'b and g :: "'b \<Rightarrow> 'b io" by (rule ext) (simp add: io_bind_def io_ret_def)
  moreover have "io_fold f xs = io_fold f (filter P xs)" using Cons by blast
  ultimately show ?case using Cons.prems by simp
qed simp

lemma distinct_values_Clone: "distinct (dkeys (values_Clone vs))"
proof -
  have "distinct (dkeys d) \<Longrightarrow> distinct (dkeys (fold (\<lambda>(k, v). dput k v) vs d))" for d
    by (induction vs arbitrary: d) (auto simp: split_beta)
  then show ?thesis by (simp add: values_Clone_def)
qed

text \<open>A message without its identifier.\<close>

abbreviation unnamed :: "message \<Rightarrow> message" where
  "unnamed m \<equiv> m\<lparr>msg_id := []\<rparr>"

lemma ensure_conversation: "map unnamed (conversation (ensure g ms)) = map unnamed (conversation ms)"
proof -
  have "map unnamed (conversation (ensure_ids u f n ms)) = map unnamed (conversation ms)" for u f n
    by (induction ms arbitrary: n) simp_all
  then show ?thesis by (simp add: ensure_def EnsureIDs_def)
qed

lemma ensure_complete: "complete_history (ensure g ms) = complete_history ms"
  by (simp add: complete_history_def scan_ensure)


definition repairing_compiler :: "unit compiler" where
  "repairing_compiler = agent_sample_compiler\<lparr>cp_options := agent_sample_options\<lparr>op_middleware := [PatchToolCalls]\<rparr>\<rparr>"


end
