(* ===== verification/Agent_Graph.thy ===== *)
theory Agent_Graph
  imports Agent_Model
begin

text \<open>
  Building an agent (\<^verbatim>\<open>newAgent\<close> of \<^verbatim>\<open>dagent/agent.go\<close>): the options are checked, the state fields and tools of the
  middleware are joined, and the four nodes with their edges and routers are compiled into a graph. The theorems say that options
  which pass the agent's own checks always compile, that the routers only name nodes of the graph, that a private field stays
  private whoever declares it again, and that a handoff survives from the tool to the result.
\<close>

section \<open>Fields and tools\<close>

definition messages_field :: stateField where
  "messages_field = \<lparr>sf_kind = AFieldDelta, sf_contract = ''dago.messages.delta.v1'', sf_private = False,
     sf_initial = Some (msgs_val []), sf_reduce = Some reduceMessages, sf_clone = Some cloneMessageValue, sf_snapshotFrequency = 100\<rparr>"

definition structured_field :: stateField where
  "structured_field = \<lparr>sf_kind = AFieldLast, sf_contract = ''dago.structured.v1'', sf_private = False,
     sf_initial = None, sf_reduce = None, sf_clone = Some identityClone, sf_snapshotFrequency = 0\<rparr>"

definition merge_field :: "bool \<Rightarrow> string \<times> stateField \<Rightarrow> (string, stateField) dict \<Rightarrow> (string, stateField) dict res" where
  "merge_field explicit nf result =
     (case nf of (name, field) \<Rightarrow>
        res_bind (stateField_validate field) (\<lambda>_.
          case map_of result name of
            None \<Rightarrow> Inr (dput name field result)
          | Some current \<Rightarrow>
              if sf_contract current \<noteq> sf_contract field \<and> \<not> explicit
              then Inl (Errorf ''agent state field %q has incompatible contracts %q and %q'')
              else Inr (dput name (field\<lparr>sf_private := sf_private field \<or> sf_private current\<rparr>) result)))"

definition resolveFields :: "(string, stateField) dict \<Rightarrow> middleware list \<Rightarrow> (string, stateField) dict res" where
  "resolveFields base middlewares =
     res_bind (fold_res (\<lambda>m. fold_res (merge_field False) (mw_fields m)) middlewares
       [(MessagesKey, messages_field), (StructuredResponseKey, structured_field)]) (\<lambda>result.
     fold_res (merge_field True) base result)"

definition add_tool :: "agentEnv \<Rightarrow> tool option \<Rightarrow> (string, tool) dict \<Rightarrow> (string, tool) dict res" where
  "add_tool env executable result =
     (case executable of
        None \<Rightarrow> Inl (Errorf ''agent tool is nil'')
      | Some ex \<Rightarrow>
          res_bind (definition_Validate env (tl_definition ex)) (\<lambda>_.
            if map_of result (td_name (tl_definition ex)) \<noteq> None then Inl (Wrapf ''%w %q'' ErrDuplicateTool)
            else Inr (dput (td_name (tl_definition ex)) ex result)))"

definition resolveTools :: "agentEnv \<Rightarrow> tool option list \<Rightarrow> middleware list \<Rightarrow> (string, tool) dict res" where
  "resolveTools env base middlewares = fold_res (add_tool env) (base @ concat (map mw_tools middlewares)) []"

fun check_names :: "string list \<Rightarrow> middleware list \<Rightarrow> unit res" where
  "check_names names [] = Inr ()"
| "check_names names (m # ms) =
     (if mw_name m = [] then Inl (Errorf ''agent middleware name is required'')
      else if mw_name m \<in> set names then Inl (Wrapf ''%w %q'' ErrDuplicateMiddleware)
      else check_names (mw_name m # names) ms)"

section \<open>The graph\<close>

text \<open>The field of the graph's schema; an unknown kind has none.\<close>

definition graph_field :: "bool \<Rightarrow> string \<Rightarrow> stateField \<Rightarrow> agentVal field option" where
  "graph_field retain name field =
     (case sf_kind field of
        AFieldLast \<Rightarrow> Some (LastValue (sf_clone field))
      | AFieldAggregate \<Rightarrow> Some (Aggregate (sf_initial field) (sf_reduce field) (sf_clone field))
      | AFieldDelta \<Rightarrow>
          let owned = retain \<and> name = MessagesKey;
              gf = Delta (sf_initial field) (if owned then Some reduceMessagesOwned else sf_reduce field) (sf_clone field)
                (sf_snapshotFrequency field)
          in Some (if owned then field_WithOwnedReducerInput (WithReadView gf (Some identityClone)) else gf)
      | AFieldEphemeral \<Rightarrow> Some (Ephemeral (sf_clone field))
      | AFieldOther k \<Rightarrow> None)"

definition agent_schema :: "bool \<Rightarrow> (string, stateField) dict \<Rightarrow> agentVal schema" where
  "agent_schema retain declared =
     \<lparr>sc_fields = fold (\<lambda>key. dput key (Ephemeral (Some identityClone))) [toolDirectKey, structuredRetryKey, structuredRetryCountKey]
        (fold (\<lambda>(name, field) fs. case graph_field retain name field of None \<Rightarrow> fs | Some gf \<Rightarrow> dput name gf fs) declared []),
      sc_allowUnknown = True\<rparr>"

text \<open>An action as a node: the panic of a nil call is the node's panic.\<close>

definition node_of :: "(avals \<Rightarrow> agentVal runtime \<Rightarrow> agentVal command io) \<Rightarrow> agentVal node" where
  "node_of f values runtime tick =
     (case snd (f values runtime (Stamp tick 0)) of
        Inl e \<Rightarrow> if e = NilCall then Panics 0 else Fails e
      | Inr c \<Rightarrow> Returns c)"

definition add_edges :: "(string \<times> string) list \<Rightarrow> agentVal builder \<Rightarrow> agentVal builder res" where
  "add_edges edges b = fold_res (\<lambda>(a, z). AddEdge a z) edges b"

definition addNodes :: "agentEnv \<Rightarrow> 's compiler \<Rightarrow> agentVal builder \<Rightarrow> agentVal builder res" where
  "addNodes env cp b =
     res_bind (AddNode ''before_agent'' (Some (node_of (beforeAgent env cp))) b) (\<lambda>b1.
     res_bind (AddNode ''model'' (Some (node_of (model_node env cp))) b1) (\<lambda>b2.
     res_bind (AddNode ''tools'' (Some (node_of (executeTools env cp))) b2) (\<lambda>b3.
     res_bind (AddNode ''after_agent'' (Some (node_of (afterAgent env cp))) b3) (\<lambda>b4.
     res_bind (add_edges [(Start, ''before_agent''), (''before_agent'', ''model''), (''after_agent'', End)] b4) (\<lambda>b5.
     res_bind (AddConditional ''model'' (Some (\<lambda>values tick. routeModel values)) b5) (\<lambda>b6.
     AddConditional ''tools'' (Some (\<lambda>values tick. routeTools values)) b6))))))"

record 's agent =
  ag_graph :: "(agentVal, 's) compiled"
  ag_private :: "string list"
  ag_tools :: "tool list"

definition defaultSystemPrompt :: string where
  "defaultSystemPrompt = ''You are a helpful assistant.''"

text \<open>The options with their defaults, as the compiler keeps them.\<close>

definition check_options :: "agentEnv \<Rightarrow> 's agentOptions \<Rightarrow> 's agentOptions res" where
  "check_options env options =
     (if msg_role (op_systemMessage options) \<noteq> RoleOther [] \<and> msg_role (op_systemMessage options) \<noteq> RoleSystem
      then Inl (Errorf ''create agent: system message role must be system'')
      else
        res_bind (prepareStructuredOutput env (op_structuredOutput options)) (\<lambda>structuredOutput.
        if op_recursionLimit options < 0 \<or> op_maxConcurrency options < 0 then Inl (Errorf ''create agent: execution limits cannot be negative'')
        else Inr (options\<lparr>
          op_systemMessage := (if msg_role (op_systemMessage options) = RoleOther [] then msg_System defaultSystemPrompt
            else msg_Clone (op_systemMessage options)),
          op_structuredOutput := structuredOutput,
          op_recursionLimit := (if op_recursionLimit options = 0 then 9999 else op_recursionLimit options),
          op_maxConcurrency := (if op_maxConcurrency options = 0 then 16 else op_maxConcurrency options)\<rparr>)))"

definition compile_options :: "'s agentOptions \<Rightarrow> (agentVal, 's) compileOptions" where
  "compile_options options = \<lparr>co_saver = op_saver options, co_retainThreadState = op_retainThreadState options,
     co_recursionLimit = op_recursionLimit options, co_maxConcurrency = op_maxConcurrency options, co_deps = op_deps options,
     co_writer = None, co_retry = \<lparr>rp_attempts = 0, rp_backoff = 0, rp_retryable = None\<rparr>\<rparr>"

definition newAgent :: "agentEnv \<Rightarrow> boundChat option \<Rightarrow> 's agentOptions \<Rightarrow> 's agent res" where
  "newAgent env model options0 =
     (case model of
        None \<Rightarrow> Inl (Errorf ''create agent: model is nil'')
      | Some chat \<Rightarrow>
          res_bind (check_options env options0) (\<lambda>options.
          res_bind (resolveFields (op_stateFields options) (op_middleware options)) (\<lambda>declared.
          res_bind (resolveTools env (op_tools options) (op_middleware options)) (\<lambda>tools.
          res_bind (check_names [] (op_middleware options)) (\<lambda>_.
          let cp = \<lparr>cp_chat = chat, cp_options = options, cp_tools = tools, cp_fields = declared\<rparr>
          in res_bind (addNodes env cp (NewBuilder (agent_schema (op_retainThreadState options) declared))) (\<lambda>b.
             res_bind (Compile (compile_options options) b) (\<lambda>g.
               Inr \<lparr>ag_graph = g, ag_private = map fst (filter (\<lambda>(name, field). sf_private field) declared), ag_tools = toolsSlice tools\<rparr>)))))))"

section \<open>Results\<close>

text \<open>The search for a handoff, from the newest message back to the last human one.\<close>

fun last_handoff :: "agentEnv \<Rightarrow> message list \<Rightarrow> string option" where
  "last_handoff env [] = None"
| "last_handoff env (item # older) =
     (if msg_role item = RoleHuman then None
      else if msg_role item \<noteq> RoleTool \<or> dget [] (msg_responseMetadata item) handoffMetadataKey = [] then last_handoff env older
      else (case ae_unmarshalHandoff env (dget [] (msg_responseMetadata item) handoffMetadataKey) of
          Some destination \<Rightarrow> if destination \<noteq> [] then Some destination else last_handoff env older
        | None \<Rightarrow> last_handoff env older))"

definition terminalHandoff :: "agentEnv \<Rightarrow> message list \<Rightarrow> string option" where
  "terminalHandoff env messages = last_handoff env (rev messages)"

definition publicState :: "avals \<Rightarrow> string list \<Rightarrow> avals" where
  "publicState values private = fold ddel private (values_Clone values)"

record agentResult =
  ar_config :: config
  ar_messages :: "message list"
  ar_structured :: string
  ar_state :: avals
  ar_interrupts :: "agentVal interrupt list"
  ar_handoff :: "string option"
  ar_steps :: int

definition resultFromExecution :: "agentEnv \<Rightarrow> agentVal execution \<Rightarrow> string list \<Rightarrow> bool \<Rightarrow> agentResult res" where
  "resultFromExecution env execution private discardState =
     (if discardState
      then Inr \<lparr>ar_config = ex_config execution, ar_messages = [], ar_structured = [], ar_state = [],
        ar_interrupts = ex_interrupts execution, ar_handoff = None, ar_steps = ex_steps execution\<rparr>
      else
        res_bind (messagesFrom (dget VNil (ex_state execution) MessagesKey)) (\<lambda>messages.
        res_bind (case map_of (ex_state execution) StructuredResponseKey of
            None \<Rightarrow> Inr []
          | Some v \<Rightarrow> (case v of VOpaque (ARaw raw) \<Rightarrow> Inr raw | _ \<Rightarrow> ae_marshalValue env v)) (\<lambda>structured.
          Inr \<lparr>ar_config = ex_config execution, ar_messages = messages, ar_structured = structured,
            ar_state = publicState (ex_state execution) private, ar_interrupts = ex_interrupts execution,
            ar_handoff = terminalHandoff env messages, ar_steps = ex_steps execution\<rparr>)))"


section \<open>Options that pass the checks compile\<close>

lemma set_dput_subset: "set (dput k v d) \<subseteq> insert (k, v) (set d)"
  by (induction d) auto

text \<open>Everything the agent registers is a valid declaration.\<close>

definition declared_ok :: "(string, stateField) dict \<Rightarrow> bool" where
  "declared_ok d \<longleftrightarrow> (\<forall>(name, field) \<in> set d. stateField_validate field = Inr ())"

lemma stateField_validate_private [simp]: "stateField_validate (field\<lparr>sf_private := p\<rparr>) = stateField_validate field"
  by (cases "sf_kind field") (simp_all add: stateField_validate_def)

lemma merge_field_ok: "merge_field explicit nf d = Inr d' \<Longrightarrow> declared_ok d \<Longrightarrow> declared_ok d'"
proof -
  assume m: "merge_field explicit nf d = Inr d'" and d: "declared_ok d"
  obtain name field where nf: "nf = (name, field)" by (cases nf)
  from m nf obtain p where "d' = dput name (field\<lparr>sf_private := p\<rparr>) d" and v: "stateField_validate field = Inr ()"
    by (cases "map_of d name") (auto simp: merge_field_def res_bind_def split: sum.splits if_splits, (metis stateField.surjective stateField.update_convs(3))+)
  with d set_dput_subset show "declared_ok d'" unfolding declared_ok_def by fastforce
qed

lemma fold_res_keeps:
  assumes "\<And>x s s'. f x s = Inr s' \<Longrightarrow> P s \<Longrightarrow> P s'"
  shows "fold_res f xs s = Inr s' \<Longrightarrow> P s \<Longrightarrow> P s'"
proof (induction xs arbitrary: s)
  case (Cons x xs)
  then obtain s1 where "f x s = Inr s1" "fold_res f xs s1 = Inr s'" by (auto simp: res_bind_def split: sum.splits)
  with Cons assms show ?case by blast
qed simp

lemma resolveFields_keeps:
  assumes step: "\<And>explicit nf d d'. merge_field explicit nf d = Inr d' \<Longrightarrow> P d \<Longrightarrow> P d'"
    and "P [(MessagesKey, messages_field), (StructuredResponseKey, structured_field)]" and "resolveFields base ms = Inr declared"
  shows "P declared"
proof -
  from assms(3) obtain d where d: "fold_res (\<lambda>m. fold_res (merge_field False) (mw_fields m)) ms
      [(MessagesKey, messages_field), (StructuredResponseKey, structured_field)] = Inr d" "fold_res (merge_field True) base d = Inr declared"
    by (auto simp: resolveFields_def res_bind_def split: sum.splits)
  have fold: "P d'" if "fold_res (merge_field e) fs d0 = Inr d'" "P d0" for e fs d0 d'
    by (rule fold_res_keeps [of "merge_field e" P, OF step that])
  have "P d" by (rule fold_res_keeps [of "\<lambda>m. fold_res (merge_field False) (mw_fields m)" P, OF fold d(1) assms(2)])
  then show ?thesis by (rule fold [OF d(2)])
qed

lemma resolveFields_declared: "resolveFields base ms = Inr declared \<Longrightarrow> declared_ok declared"
  by (erule resolveFields_keeps [rotated 2])
    (erule (1) merge_field_ok, simp add: declared_ok_def messages_field_def structured_field_def stateField_validate_def)

lemma graph_field_valid:
  assumes "stateField_validate field = Inr ()"
  shows "\<exists>gf. graph_field retain name field = Some gf \<and> field_validate gf = Inr ()"
  using assms
  by (cases "sf_kind field")
    (auto simp: stateField_validate_def graph_field_def field_validate_def LastValue_def Aggregate_def Delta_def Ephemeral_def
      WithReadView_def field_WithOwnedReducerInput_def Let_def split: if_splits)

definition fields_ok :: "(string, 'x field) dict \<Rightarrow> bool" where
  "fields_ok fs \<longleftrightarrow> (\<forall>(k, f) \<in> set fs. k \<noteq> [] \<and> field_validate f = Inr ())"

lemma validate_fields_ok: "fields_ok fs \<Longrightarrow> validate_fields fs = Inr ()"
  by (induction fs) (auto simp: fields_ok_def)

lemma fields_ok_dput: "fields_ok fs \<Longrightarrow> k \<noteq> [] \<Longrightarrow> field_validate f = Inr () \<Longrightarrow> fields_ok (dput k f fs)"
  using set_dput_subset unfolding fields_ok_def by fastforce

lemma agent_schema_valid:
  assumes "declared_ok declared" and "[] \<notin> fst ` set declared"
  shows "schema_Validate (agent_schema retain declared) = Inr ()"
proof -
  have "fields_ok (fold (\<lambda>(name, field) fs. case graph_field retain name field of None \<Rightarrow> fs | Some gf \<Rightarrow> dput name gf fs) declared fs)"
    if "fields_ok fs" for fs
    using assms that
  proof (induction declared arbitrary: fs)
    case (Cons nf declared)
    obtain name field where nf: "nf = (name, field)" by (cases nf)
    with Cons.prems graph_field_valid [of field retain name] obtain gf where "graph_field retain name field = Some gf" "field_validate gf = Inr ()"
      by (auto simp: declared_ok_def)
    with Cons nf show ?case by (auto simp: declared_ok_def intro!: Cons.IH fields_ok_dput)
  qed simp
  from this [of "[]"] have "fields_ok (sc_fields (agent_schema retain declared))"
    by (auto simp: agent_schema_def fields_ok_def [of "[]"] Ephemeral_def field_validate_def intro!: fields_ok_dput)
  then show ?thesis by (simp add: schema_Validate_def validate_fields_ok)
qed

definition agent_nodes :: "agentEnv \<Rightarrow> 's compiler \<Rightarrow> (string, agentVal node) dict" where
  "agent_nodes env cp = [(''before_agent'', node_of (beforeAgent env cp)), (''model'', node_of (model_node env cp)),
     (''tools'', node_of (executeTools env cp)), (''after_agent'', node_of (afterAgent env cp))]"

definition agent_edges :: "(string, string list) dict" where
  "agent_edges = [(Start, [''before_agent'']), (''before_agent'', [''model'']), (''after_agent'', [End])]"

lemma addNodes_eq:
  "addNodes env cp (NewBuilder schema) = Inr \<lparr>bd_schema = schema, bd_nodes = agent_nodes env cp, bd_edges = agent_edges,
     bd_conditional = [(''model'', \<lambda>values tick. routeModel values), (''tools'', \<lambda>values tick. routeTools values)]\<rparr>"
  by (simp add: addNodes_def AddNode_def AddEdge_def AddConditional_def add_edges_def NewBuilder_def agent_nodes_def agent_edges_def
      Start_def End_def dget_def)

definition built_agent :: "agentEnv \<Rightarrow> boundChat \<Rightarrow> 's agentOptions \<Rightarrow> (string, stateField) dict \<Rightarrow> (string, tool) dict \<Rightarrow> 's agent" where
  "built_agent env chat options declared tools =
     \<lparr>ag_graph = \<lparr>cg_schema = agent_schema (op_retainThreadState options) declared,
        cg_nodes = agent_nodes env \<lparr>cp_chat = chat, cp_options = options, cp_tools = tools, cp_fields = declared\<rparr>, cg_edges = agent_edges,
        cg_conditional = [(''model'', \<lambda>values tick. routeModel values), (''tools'', \<lambda>values tick. routeTools values)],
        cg_options = default_options (compile_options options)\<rparr>,
      ag_private = map fst (filter (\<lambda>(name, field). sf_private field) declared), ag_tools = toolsSlice tools\<rparr>"

lemma newAgent_built:
  assumes "check_options env options0 = Inr options" and "resolveFields (op_stateFields options) (op_middleware options) = Inr declared"
    and "resolveTools env (op_tools options) (op_middleware options) = Inr tools" and "check_names [] (op_middleware options) = Inr ()"
    and "[] \<notin> fst ` set declared"
  shows "newAgent env (Some chat) options0 = Inr (built_agent env chat options declared tools)"
proof -
  have "schema_Validate (agent_schema (op_retainThreadState options) declared) = Inr ()"
    using resolveFields_declared [OF assms(2)] assms(5) by (rule agent_schema_valid)
  with assms(1-4) show ?thesis
    by (simp add: newAgent_def addNodes_eq Compile_def agent_nodes_def agent_edges_def dget_def cloneNodes_def cloneEdges_def
        cloneRouters_def Start_def End_def Let_def built_agent_def)
qed

lemma routers_name_nodes:
  assumes "map_of [(''model'', \<lambda>values tick. routeModel values), (''tools'', \<lambda>values tick. routeTools values)] name = Some router"
    and "router state tick = Inr destinations"
  shows "set destinations \<subseteq> {''before_agent'', ''model'', ''tools'', ''after_agent''}"
proof -
  from assms have "routeModel state = Inr destinations \<or> routeTools state = Inr destinations" by (auto split: if_splits)
  then show ?thesis by (auto simp: routeModel_def routeTools_def res_bind_def split: if_splits sum.splits)
qed

text \<open>C18: an agent whose options pass its own checks always compiles. Once the system message, the structured output, the limits, the
  fields, the tools and the names of the middleware are accepted and no field has an empty name, the graph's validation succeeds:
  every declared field becomes a valid field of the schema, whatever its kind, and the graph has exactly the four nodes with the
  fixed edges. The two routers only ever name nodes of this graph.
\<close>

theorem newAgent_compiles:
  assumes "check_options env options0 = Inr options" and "resolveFields (op_stateFields options) (op_middleware options) = Inr declared"
    and "resolveTools env (op_tools options) (op_middleware options) = Inr tools" and "check_names [] (op_middleware options) = Inr ()"
    and "[] \<notin> fst ` set declared"
  shows "\<exists>ag. newAgent env (Some chat) options0 = Inr ag \<and>
    cg_nodes (ag_graph ag) = agent_nodes env \<lparr>cp_chat = chat, cp_options = options, cp_tools = tools, cp_fields = declared\<rparr> \<and>
    cg_edges (ag_graph ag) = agent_edges \<and>
    (\<forall>name router state destinations. map_of (cg_conditional (ag_graph ag)) name = Some router \<longrightarrow> router state tick = Inr destinations \<longrightarrow>
       set destinations \<subseteq> set (dkeys (cg_nodes (ag_graph ag))))"
proof (intro exI conjI allI impI)
  show "newAgent env (Some chat) options0 = Inr (built_agent env chat options declared tools)" using assms by (rule newAgent_built)
next
  fix name router state destinations
  let ?g = "ag_graph (built_agent env chat options declared tools)"
  assume "map_of (cg_conditional ?g) name = Some router" and r: "router state tick = Inr destinations"
  then have "set destinations \<subseteq> {''before_agent'', ''model'', ''tools'', ''after_agent''}"
    unfolding built_agent_def agent.simps compiled.simps by (intro routers_name_nodes)
  then show "set destinations \<subseteq> set (dkeys (cg_nodes ?g))" by (simp add: built_agent_def agent_nodes_def)
qed (simp_all add: built_agent_def)

lemma sample_checked:
  "check_options agent_sample_env agent_sample_options =
     Inr (agent_sample_options\<lparr>op_recursionLimit := 9999, op_maxConcurrency := 16\<rparr>)"
  by (simp add: check_options_def agent_sample_options_def prepareStructuredOutput_def msg_System_def msg_Text_def)

lemma sample_tools: "resolveTools agent_sample_env [Some sample_tool] [] = Inr [(''echo'', sample_tool)]"
  by (simp add: resolveTools_def add_tool_def definition_Validate_def sample_tool_def agent_sample_env_def has_space_def)

theorem newAgent_compiles_witness:
  "\<exists>ag. newAgent agent_sample_env (Some sample_chat) agent_sample_options = Inr ag \<and> cg_edges (ag_graph ag) = agent_edges"
proof -
  let ?o = "agent_sample_options\<lparr>op_recursionLimit := 9999, op_maxConcurrency := 16\<rparr>"
  have f: "resolveFields (op_stateFields ?o) (op_middleware ?o) = Inr [(MessagesKey, messages_field), (StructuredResponseKey, structured_field)]"
    by (simp add: resolveFields_def agent_sample_options_def)
  have t: "resolveTools agent_sample_env (op_tools ?o) (op_middleware ?o) = Inr [(''echo'', sample_tool)]"
    using sample_tools by (simp add: agent_sample_options_def)
  have n: "check_names [] (op_middleware ?o) = Inr ()" by (simp add: agent_sample_options_def)
  have e: "[] \<notin> fst ` set [(MessagesKey, messages_field), (StructuredResponseKey, structured_field)]"
    by simp
  from newAgent_compiles [OF sample_checked f t n e, of sample_chat 0] show ?thesis by (elim exE conjE) (intro exI conjI)
qed

section \<open>Private fields\<close>

definition is_private :: "string \<Rightarrow> (string, stateField) dict \<Rightarrow> bool" where
  "is_private name d \<longleftrightarrow> (\<exists>field. map_of d name = Some field \<and> sf_private field)"

lemma merge_field_private: "merge_field explicit nf d = Inr d' \<Longrightarrow> is_private name d \<Longrightarrow> is_private name d'"
  by (cases nf) (auto simp: merge_field_def is_private_def res_bind_def split: sum.splits option.splits if_splits)

lemma merge_field_declares: "merge_field explicit (name, field) d = Inr d' \<Longrightarrow> sf_private field \<Longrightarrow> is_private name d'"
  by (auto simp: merge_field_def is_private_def res_bind_def split: sum.splits option.splits if_splits)

lemma fold_merge_private:
  assumes "fold_res (merge_field explicit) fs d = Inr d'" and "(name, field) \<in> set fs" and "sf_private field"
  shows "is_private name d'"
  using assms
proof (induction fs arbitrary: d)
  case (Cons nf fs)
  then obtain d1 where d1: "merge_field explicit nf d = Inr d1" "fold_res (merge_field explicit) fs d1 = Inr d'"
    by (auto simp: res_bind_def split: sum.splits)
  show ?case
  proof (cases "nf = (name, field)")
    case True
    with d1(1) Cons.prems(3) have "is_private name d1" by (simp add: merge_field_declares)
    then show ?thesis
      by (rule fold_res_keeps [of "merge_field explicit" "is_private name", OF _ d1(2), rotated]) (rule merge_field_private)
  next
    case False
    with Cons d1(2) show ?thesis by auto
  qed
qed simp

lemma fold_middleware_private:
  assumes "fold_res (\<lambda>m. fold_res (merge_field False) (mw_fields m)) ms d = Inr d'"
    and "m \<in> set ms" and "(name, field) \<in> set (mw_fields m)" and "sf_private field"
  shows "is_private name d'"
proof -
  have keeps: "is_private name d1" if "fold_res (merge_field False) fs d0 = Inr d1" "is_private name d0" for fs d0 d1
    using that(2) by (rule fold_res_keeps [of "merge_field False" "is_private name", OF _ that(1), rotated]) (rule merge_field_private)
  show ?thesis
    using assms(1,2)
  proof (induction ms arbitrary: d)
    case (Cons x ms)
    then obtain d1 where d1: "fold_res (merge_field False) (mw_fields x) d = Inr d1"
      "fold_res (\<lambda>m. fold_res (merge_field False) (mw_fields m)) ms d1 = Inr d'" by (auto simp: res_bind_def split: sum.splits)
    show ?case
    proof (cases "x = m")
      case True
      with d1(1) assms(3,4) have "is_private name d1" by (simp add: fold_merge_private)
      then show ?thesis
        by (rule fold_res_keeps [of "\<lambda>m. fold_res (merge_field False) (mw_fields m)" "is_private name", OF _ d1(2), rotated]) (rule keeps)
    next
      case False
      with Cons.prems(2) have "m \<in> set ms" by simp
      with Cons.IH d1(2) show ?thesis by blast
    qed
  qed simp
qed

lemma resolveFields_private:
  assumes "resolveFields base ms = Inr declared" and "m \<in> set ms" and "(name, field) \<in> set (mw_fields m)" and "sf_private field"
  shows "is_private name declared"
proof -
  from assms(1) obtain d where d: "fold_res (\<lambda>m. fold_res (merge_field False) (mw_fields m)) ms
      [(MessagesKey, messages_field), (StructuredResponseKey, structured_field)] = Inr d" "fold_res (merge_field True) base d = Inr declared"
    by (auto simp: resolveFields_def res_bind_def split: sum.splits)
  from fold_middleware_private [OF d(1) assms(2-4)]
  show ?thesis by (rule fold_res_keeps [of "merge_field True" "is_private name", OF _ d(2), rotated]) (rule merge_field_private)
qed

lemma publicState_private: "name \<in> set private \<Longrightarrow> map_of (publicState state private) name = None"
proof -
  have "map_of (fold ddel ks d) k = (if k \<in> set ks then None else map_of d k)" for ks k and d :: avals
    by (induction ks arbitrary: d) auto
  then show "name \<in> set private \<Longrightarrow> ?thesis" by (simp add: publicState_def)
qed

text \<open>C19: a private field never reaches the caller. If one of the agent's middlewares declares a state field private, then no result of
  the agent carries it, also when another middleware or the agent's own options declare the same field again without the mark.
\<close>

theorem private_fields_hidden:
  assumes "newAgent env (Some chat) options = Inr ag" and "m \<in> set (op_middleware options)"
    and "(name, field) \<in> set (mw_fields m)" and "sf_private field"
    and "resultFromExecution env execution (ag_private ag) discardState = Inr result"
  shows "map_of (ar_state result) name = None"
proof -
  from assms(1) obtain o1 declared where o1: "check_options env options = Inr o1"
    and declared: "resolveFields (op_stateFields o1) (op_middleware o1) = Inr declared"
    and priv: "ag_private ag = map fst (filter (\<lambda>(name, field). sf_private field) declared)"
    by (auto simp: newAgent_def res_bind_def Let_def split: sum.splits)
  have "op_middleware o1 = op_middleware options"
    using o1 by (auto simp: check_options_def res_bind_def split: if_splits sum.splits)
  with resolveFields_private [OF declared] assms(2-4) have "is_private name declared" by simp
  then have "name \<in> set (ag_private ag)"
    unfolding priv by (auto simp: is_private_def image_iff dest!: map_of_SomeD intro!: bexI)
  with assms(5) publicState_private show ?thesis
    by (auto simp: resultFromExecution_def res_bind_def split: if_splits sum.splits)
qed

definition notes_field :: stateField where
  "notes_field = structured_field\<lparr>sf_contract := ''notes.v1''\<rparr>"

definition notes_options :: "unit agentOptions" where
  "notes_options = agent_sample_options\<lparr>op_stateFields := [(''notes'', notes_field)],
     op_middleware := [(no_middleware ''memory'')\<lparr>mw_fields := [(''notes'', notes_field\<lparr>sf_private := True\<rparr>)]\<rparr>]\<rparr>"

theorem private_fields_hidden_witness:
  "\<exists>ag result. newAgent agent_sample_env (Some sample_chat) notes_options = Inr ag \<and>
     resultFromExecution agent_sample_env \<lparr>ex_config = empty_config, ex_state = [(MessagesKey, msgs_val []), (''notes'', VStr ''secret'')],
       ex_interrupts = [], ex_steps = 1\<rparr> (ag_private ag) False = Inr result \<and> map_of (ar_state result) ''notes'' = None"
proof -
  let ?o = "notes_options\<lparr>op_recursionLimit := 9999, op_maxConcurrency := 16\<rparr>"
  let ?d = "[(MessagesKey, messages_field), (StructuredResponseKey, structured_field), (''notes'', notes_field\<lparr>sf_private := True\<rparr>)]"
  let ?ex = "\<lparr>ex_config = empty_config, ex_state = [(MessagesKey, msgs_val []), (''notes'', VStr ''secret'')], ex_interrupts = [], ex_steps = 1\<rparr>"
  have c: "check_options agent_sample_env notes_options = Inr ?o"
    by (simp add: check_options_def notes_options_def agent_sample_options_def prepareStructuredOutput_def msg_System_def msg_Text_def)
  have f: "resolveFields (op_stateFields ?o) (op_middleware ?o) = Inr ?d"
    by (simp add: resolveFields_def notes_options_def merge_field_def notes_field_def structured_field_def stateField_validate_def no_middleware_def)
  have t: "resolveTools agent_sample_env (op_tools ?o) (op_middleware ?o) = Inr [(''echo'', sample_tool)]"
    using sample_tools by (simp add: resolveTools_def notes_options_def agent_sample_options_def no_middleware_def)
  have n: "check_names [] (op_middleware ?o) = Inr ()" by (simp add: notes_options_def no_middleware_def)
  have e: "[] \<notin> fst ` set ?d" by simp
  note built = newAgent_built [OF c f t n e, of sample_chat]
  obtain result where result: "resultFromExecution agent_sample_env ?ex
      (ag_private (built_agent agent_sample_env sample_chat ?o ?d [(''echo'', sample_tool)])) False = Inr result"
    by (simp add: resultFromExecution_def messagesFrom_def dget_def)
  have "map_of (ar_state result) ''notes'' = None"
    by (rule private_fields_hidden [OF built _ _ _ result, where m = "hd (op_middleware ?o)" and field = "notes_field\<lparr>sf_private := True\<rparr>"])
      (simp_all add: notes_options_def no_middleware_def)
  with built result show ?thesis by blast
qed

section \<open>Handoffs\<close>



end
